(* ===== verification/Go_Prelude.thy ===== *)
theory Go_Prelude
  imports
    Main
    "HOL-Library.Char_ord"
    "HOL-Library.List_Lexorder"
    "HOL-Library.Product_Lexorder"
    "HOL-Library.Sublist"
    "HOL-Library.Multiset"
    "HOL-Library.AList"
begin

text \<open>
  The prelude: what the components use of Go and of its standard library, and the generic
  lemmas they share.

  \<^item> A Go string and a byte slice are both a list of bytes, so both are \<^typ>\<open>string\<close> (a
    \<^typ>\<open>char\<close> is an 8-bit value). Go compares strings byte by byte, which is the
    lexicographic order of \<open>HOL-Library.List_Lexorder\<close> over \<open>HOL-Library.Char_ord\<close>.
    The nil slice and the empty slice are not told apart: no code that is modelled does.
  \<^item> \<open>int\<close> and \<open>int64\<close> are 64 bits wide. Counters of objects in memory are \<^typ>\<open>int\<close> or
    \<^typ>\<open>nat\<close>; sums of values read from facts go through \<open>add64\<close> and \<open>sub64\<close>, which wrap.
  \<^item> A map that is only looked up is a HOL map; a map that is ranged over is an association list
    with distinct keys, whose order is the (unspecified) iteration order.
\<close>

named_theorems go_str \<open>equations of the string functions\<close>
named_theorems go_map \<open>equations of the association-list maps\<close>

subsection \<open>64-bit integers\<close>

definition wrap64 :: "int \<Rightarrow> int" where
  "wrap64 x = (x + 2 ^ 63) mod 2 ^ 64 - 2 ^ 63"

definition in64 :: "int \<Rightarrow> bool" where
  "in64 x \<longleftrightarrow> - (2 ^ 63) \<le> x \<and> x < 2 ^ 63"

definition add64 :: "int \<Rightarrow> int \<Rightarrow> int" where
  "add64 a b = wrap64 (a + b)"

definition sub64 :: "int \<Rightarrow> int \<Rightarrow> int" where
  "sub64 a b = wrap64 (a - b)"

definition maxInt :: int where
  "maxInt = 2 ^ 63 - 1"

lemma wrap64_id [simp]: "in64 x \<Longrightarrow> wrap64 x = x"
  by (simp add: wrap64_def in64_def)

lemma in64_wrap64 [simp]: "in64 (wrap64 x)"
proof -
  have "0 \<le> (x + 2 ^ 63) mod 2 ^ 64" and "(x + 2 ^ 63) mod 2 ^ 64 < (2 ^ 64 :: int)"
    by simp_all
  then show ?thesis by (simp add: wrap64_def in64_def)
qed

lemma in64_add64 [simp]: "in64 (add64 a b)" and in64_sub64 [simp]: "in64 (sub64 a b)"
  by (simp_all add: add64_def sub64_def)

lemma sub64_no_wrap: "in64 a \<Longrightarrow> 0 \<le> b \<Longrightarrow> b \<le> a \<Longrightarrow> sub64 a b = a - b"
  unfolding sub64_def by (rule wrap64_id) (simp add: in64_def)

subsection \<open>Strings\<close>

abbreviation HasPrefix :: "string \<Rightarrow> string \<Rightarrow> bool" where
  "HasPrefix s p \<equiv> prefix p s"

abbreviation HasSuffix :: "string \<Rightarrow> string \<Rightarrow> bool" where
  "HasSuffix s p \<equiv> suffix p s"

definition TrimPrefix :: "string \<Rightarrow> string \<Rightarrow> string" where
  "TrimPrefix s p = (if prefix p s then drop (length p) s else s)"

definition TrimSuffix :: "string \<Rightarrow> string \<Rightarrow> string" where
  "TrimSuffix s p = (if suffix p s then take (length s - length p) s else s)"

text \<open>\<open>strings.SplitN(s, sep, n)\<close> for a one-byte separator and \<open>n \<ge> 0\<close>.\<close>

fun SplitN :: "string \<Rightarrow> char \<Rightarrow> nat \<Rightarrow> string list" where
  "SplitN s c 0 = []"
| "SplitN s c (Suc 0) = [s]"
| "SplitN s c (Suc (Suc n)) =
     (case dropWhile (\<lambda>x. x \<noteq> c) s of
        [] \<Rightarrow> [s]
      | _ # rest \<Rightarrow> takeWhile (\<lambda>x. x \<noteq> c) s # SplitN rest c (Suc n))"

text \<open>\<open>strings.Contains(s, sub)\<close>.\<close>

fun Contains :: "string \<Rightarrow> string \<Rightarrow> bool" where
  "Contains [] p = (p = [])"
| "Contains (c # s) p = (prefix p (c # s) \<or> Contains s p)"

abbreviation slash :: char where
  "slash \<equiv> CHR ''/''"

lemma TrimPrefix_append [simp, go_str]: "TrimPrefix (p @ s) p = s"
  by (simp add: TrimPrefix_def)

lemma HasPrefix_append [simp, go_str]: "HasPrefix (p @ s) p"
  by simp

lemma SplitN_no_sep:
  assumes "c \<notin> set s" and "0 < n"
  shows "SplitN s c n = [s]"
proof -
  from assms(1) have "dropWhile (\<lambda>x. x \<noteq> c) s = []"
    by (induction s) auto
  with assms(2) show ?thesis
    by (cases n; cases "n - 1") (simp_all del: dropWhile_eq_Nil_conv)
qed

lemma SplitN_Cons [go_str]:
  "c \<notin> set a \<Longrightarrow> SplitN (a @ c # b) c (Suc (Suc n)) = a # SplitN b c (Suc n)"
proof -
  assume c: "c \<notin> set a"
  then have "dropWhile (\<lambda>x. x \<noteq> c) (a @ c # b) = c # b"
    and "takeWhile (\<lambda>x. x \<noteq> c) (a @ c # b) = a"
    by (induction a) auto
  then show ?thesis by simp
qed

lemma SplitN_nonempty: "0 < n \<Longrightarrow> SplitN s c n \<noteq> []"
  by (cases "(s, c, n)" rule: SplitN.cases) (auto split: list.splits)

lemma Contains_single: "Contains s [c] \<longleftrightarrow> c \<in> set s"
  by (induction s) (auto simp: prefix_Cons)

text \<open>All extensions of a string \<open>p\<close> lie on one side of a string that does not extend \<open>p\<close>.\<close>

lemma prefix_interval:
  fixes p :: string
  assumes "prefix p a" and "prefix p c" and "a \<le> b" and "b \<le> c"
  shows "prefix p b"
  using assms
proof (induction p arbitrary: a b c)
  case Nil
  then show ?case by simp
next
  case (Cons x p)
  from Cons.prems(1) obtain a' where a: "a = x # a'" "prefix p a'"
    by (cases a) auto
  from Cons.prems(2) obtain c' where c: "c = x # c'" "prefix p c'"
    by (cases c) auto
  from a Cons.prems(3) obtain y b' where b: "b = y # b'"
    by (cases b) auto
  from a b c Cons.prems(3,4) have "y = x" and "a' \<le> b'" and "b' \<le> c'"
    by auto
  with Cons.IH [OF a(2) c(2)] b show ?case by simp
qed

lemma prefix_le: "prefix p s \<Longrightarrow> p \<le> (s :: string)"
proof (induction p arbitrary: s)
  case (Cons x p)
  then show ?case by (cases s) auto
qed simp

subsection \<open>Splitting paths\<close>

lemma SplitN_step:
  "SplitN s c (Suc (Suc n)) = a # b # ps \<longleftrightarrow> (\<exists>t. s = a @ c # t \<and> c \<notin> set a \<and> SplitN t c (Suc n) = b # ps)"
proof
  assume A: "SplitN s c (Suc (Suc n)) = a # b # ps"
  then obtain d t where d: "dropWhile (\<lambda>x. x \<noteq> c) s = d # t"
    by (cases "dropWhile (\<lambda>x. x \<noteq> c) s") (simp_all del: dropWhile_eq_Nil_conv)
  have "d = c" using hd_dropWhile [of "\<lambda>x. x \<noteq> c" s] d by (metis list.distinct(1) list.sel(1))
  moreover have "a = takeWhile (\<lambda>x. x \<noteq> c) s" and "SplitN t c (Suc n) = b # ps" using A d by simp_all
  moreover have "s = takeWhile (\<lambda>x. x \<noteq> c) s @ d # t" using d takeWhile_dropWhile_id by metis
  moreover have "c \<notin> set (takeWhile (\<lambda>x. x \<noteq> c) s)" by (auto dest: set_takeWhileD)
  ultimately show "\<exists>t. s = a @ c # t \<and> c \<notin> set a \<and> SplitN t c (Suc n) = b # ps" by metis
next
  assume "\<exists>t. s = a @ c # t \<and> c \<notin> set a \<and> SplitN t c (Suc n) = b # ps"
  then obtain t where t: "s = a @ c # t" "c \<notin> set a" "SplitN t c (Suc n) = b # ps" by blast
  have "dropWhile (\<lambda>x. x \<noteq> c) s = c # t" and "takeWhile (\<lambda>x. x \<noteq> c) s = a"
    using t(1, 2) by (auto simp: dropWhile_append takeWhile_append)
  with t(3) show "SplitN s c (Suc (Suc n)) = a # b # ps" by simp
qed

lemma SplitN_2: "SplitN s c 2 = [x, y] \<longleftrightarrow> c \<notin> set x \<and> s = x @ c # y"
  by (auto simp: numeral_2_eq_2 SplitN_step simp del: SplitN.simps(3))

lemma SplitN_3: "SplitN s c 3 = [x, y, z] \<longleftrightarrow> c \<notin> set x \<and> c \<notin> set y \<and> s = x @ c # y @ c # z"
  by (auto simp: numeral_3_eq_3 SplitN_step simp del: SplitN.simps(3))

lemma SplitN_4:
  "SplitN s c 4 = [w, x, y, z] \<longleftrightarrow> c \<notin> set w \<and> c \<notin> set x \<and> c \<notin> set y \<and> s = w @ c # x @ c # y @ c # z"
  using SplitN_step [of s c 2 w x "[y, z]"] SplitN_3 [of _ c x y z] by (auto simp: eval_nat_numeral simp del: SplitN.simps(3))

lemma SplitN_2_parts: "SplitN s c 4 = [x, y] \<longleftrightarrow> c \<notin> set x \<and> c \<notin> set y \<and> s = x @ c # y"
proof -
  have one: "SplitN t c (Suc (Suc (Suc 0))) = [y] \<longleftrightarrow> c \<notin> set y \<and> t = y" for t
  proof (cases "c \<in> set t")
    case True
    then obtain d r where "dropWhile (\<lambda>x. x \<noteq> c) t = d # r"
      by (cases "dropWhile (\<lambda>x. x \<noteq> c) t") auto
    moreover have "SplitN r c (Suc (Suc 0)) \<noteq> []" by (simp split: list.split)
    ultimately show ?thesis using True by auto
  next
    case False
    then show ?thesis using SplitN_no_sep [OF False, of 3] by (auto simp: numeral_3_eq_3)
  qed
  show ?thesis using SplitN_step [of s c 2 x y "[]"] one by (auto simp: eval_nat_numeral simp del: SplitN.simps(3))
qed

lemma length_3: "length ps = 3 \<longleftrightarrow> (\<exists>x y z. ps = [x, y, z])"
  by (auto simp: numeral_3_eq_3 length_Suc_conv)

lemma length_4: "length ps = 4 \<longleftrightarrow> (\<exists>w x y z. ps = [w, x, y, z])"
  by (auto simp: eval_nat_numeral length_Suc_conv)

lemma under_prefix: "HasPrefix x p \<Longrightarrow> TrimPrefix x p = r \<longleftrightarrow> x = p @ r"
  by (auto simp: TrimPrefix_def prefix_def)

lemma trimmed_iff: "HasPrefix x p \<and> TrimPrefix x p = r \<longleftrightarrow> x = p @ r"
  using under_prefix [of p x r] by auto

end
