(* ===== verification/Prefix_Trie.thy ===== *)
theory Prefix_Trie
  imports Go_Prelude
begin

text \<open>
  The byte-level prefix trie of \<^verbatim>\<open>src/store/trie.go\<close>, the secondary index of the in-memory
  fact store. A node has a map from the next byte to its child, the key that ends at the node
  (\<open>''\<close>'' when there is none) and a count of the keys below it. Child pointers are never shared,
  so a trie is a tree. The theory proves that the trie holds exactly the keys inserted and not
  removed, that its counts are right, that removal leaves no dead branch behind, and that a
  prefix scan returns the matching keys in ascending order; \<open>prefix_index\<close> is the interface the
  store relies on.
\<close>

named_theorems trie_simps \<open>equations of the trie operations\<close>

subsection \<open>The trie and its operations\<close>

datatype trieNode =
  TrieNode (children: "(char \<times> trieNode) list") (factKey: string) (subtreeCount: int)

definition newPrefixTrie :: trieNode where
  "newPrefixTrie = TrieNode [] [] 0"

text \<open>The loop of \<open>Insert\<close>: walk down, creating missing children; at the last node record the
  key unless one is there. The flag says whether the counts must be incremented.\<close>

fun insertWalk :: "string \<Rightarrow> string \<Rightarrow> trieNode \<Rightarrow> trieNode \<times> bool" where
  "insertWalk key [] (TrieNode cs fk n) =
     (if fk = [] then (TrieNode cs key n, True) else (TrieNode cs fk n, False))"
| "insertWalk key (b # bs) (TrieNode cs fk n) =
     (let child = (case map_of cs b of None \<Rightarrow> TrieNode [] [] 0 | Some c \<Rightarrow> c);
          (child', added) = insertWalk key bs child
      in (TrieNode (AList.update b child' cs) fk n, added))"

text \<open>A missing child on the path of the two count updates would be a nil dereference in Go; they
  are only called on paths that exist.\<close>

fun incrementAncestors :: "string \<Rightarrow> trieNode \<Rightarrow> trieNode" where
  "incrementAncestors [] (TrieNode cs fk n) = TrieNode cs fk (n + 1)"
| "incrementAncestors (b # bs) (TrieNode cs fk n) =
     TrieNode (case map_of cs b of None \<Rightarrow> cs
               | Some c \<Rightarrow> AList.update b (incrementAncestors bs c) cs) fk (n + 1)"

fun decrementAncestors :: "string \<Rightarrow> trieNode \<Rightarrow> trieNode" where
  "decrementAncestors [] (TrieNode cs fk n) = TrieNode cs fk (n - 1)"
| "decrementAncestors (b # bs) (TrieNode cs fk n) =
     TrieNode (case map_of cs b of None \<Rightarrow> cs
               | Some c \<Rightarrow> AList.update b (decrementAncestors bs c) cs) fk (n - 1)"

definition trieInsert :: "string \<Rightarrow> trieNode \<Rightarrow> trieNode" where
  "trieInsert key t =
     (let (t', added) = insertWalk key key t in if added then incrementAncestors key t' else t')"

text \<open>The walk to the node of a string, which \<open>Remove\<close> and \<open>KeysWithPrefix\<close> share.\<close>

fun findNode :: "string \<Rightarrow> trieNode \<Rightarrow> trieNode option" where
  "findNode [] t = Some t"
| "findNode (b # bs) t =
     (case map_of (children t) b of None \<Rightarrow> None | Some c \<Rightarrow> findNode bs c)"

text \<open>\<open>currentNode.factKey = ""\<close> at the end of the path.\<close>

fun clearFactKey :: "string \<Rightarrow> trieNode \<Rightarrow> trieNode" where
  "clearFactKey [] (TrieNode cs fk n) = TrieNode cs [] n"
| "clearFactKey (b # bs) (TrieNode cs fk n) =
     TrieNode (case map_of cs b of None \<Rightarrow> cs
               | Some c \<Rightarrow> AList.update b (clearFactKey bs c) cs) fk n"

text \<open>The loop from the leaf up stops at the first node that has a key or a child: a node whose
  child was kept has a child.\<close>

fun pruneEmptyBranch :: "string \<Rightarrow> trieNode \<Rightarrow> trieNode" where
  "pruneEmptyBranch [] t = t"
| "pruneEmptyBranch (b # bs) (TrieNode cs fk n) =
     (case map_of cs b of
        None \<Rightarrow> TrieNode cs fk n
      | Some c \<Rightarrow>
          let c' = pruneEmptyBranch bs c
          in if factKey c' = [] \<and> children c' = [] then TrieNode (AList.delete b cs) fk n
             else TrieNode (AList.update b c' cs) fk n)"

definition trieRemove :: "string \<Rightarrow> trieNode \<Rightarrow> trieNode \<times> bool" where
  "trieRemove key t =
     (case findNode key t of
        None \<Rightarrow> (t, False)
      | Some node \<Rightarrow>
          if factKey node = [] then (t, False)
          else (pruneEmptyBranch key (decrementAncestors key (clearFactKey key t)), True))"

lemma map_of_size [termination_simp]:
  "map_of cs b = Some c \<Longrightarrow> size c < Suc (size_list (\<lambda>x. Suc (size (snd x))) cs)"
  by (induction cs) (auto split: if_splits)

lemma snd_set_size [termination_simp]:
  "x \<in> set cs \<Longrightarrow> size (snd x) < Suc (size_list (\<lambda>x. Suc (size (snd x))) cs)"
  by (induction cs) auto

fun collectSorted :: "trieNode \<Rightarrow> string list" where
  "collectSorted (TrieNode cs fk n) =
     (if fk = [] then [] else [fk]) @
     (if cs = [] then []
      else concat (map (\<lambda>b. case map_of cs (char_of b) of None \<Rightarrow> [] | Some c \<Rightarrow> collectSorted c)
                       [0..<256::nat]))"

definition KeysWithPrefix :: "string \<Rightarrow> trieNode \<Rightarrow> string list" where
  "KeysWithPrefix p t =
     (case findNode p t of
        None \<Rightarrow> []
      | Some node \<Rightarrow>
          if subtreeCount node = 0 \<and> factKey node = [] then [] else collectSorted node)"

subsection \<open>Membership and well-formedness\<close>

text \<open>The keys stored below a node, relative to it.\<close>

definition trieMem :: "trieNode \<Rightarrow> string \<Rightarrow> bool" where
  "trieMem t k \<longleftrightarrow> (case findNode k t of None \<Rightarrow> False | Some n \<Rightarrow> factKey n \<noteq> [])"

text \<open>A node below the root, reached by the non-empty path \<open>p\<close>: its key is \<open>p\<close> or none, no two
  children have the same byte, no branch is dead, and the count is the number of keys below.\<close>

fun trieWf :: "string \<Rightarrow> trieNode \<Rightarrow> bool" where
  "trieWf p (TrieNode cs fk n) \<longleftrightarrow>
     distinct (map fst cs) \<and> (fk = [] \<or> fk = p) \<and>
     (\<forall>x\<in>set cs. trieWf (p @ [fst x]) (snd x) \<and> 0 < subtreeCount (snd x)) \<and>
     n = (if fk = [] then 0 else 1) + sum_list (map (\<lambda>x. subtreeCount (snd x)) cs)"

text \<open>The root never records a key (the key \<open>""\<close> and no key are the same string), but inserting
  \<open>""\<close> still increments its count, so that count is only an upper bound.\<close>

definition trieInv :: "trieNode \<Rightarrow> bool" where
  "trieInv t \<longleftrightarrow>
     distinct (map fst (children t)) \<and> factKey t = [] \<and>
     (\<forall>x\<in>set (children t). trieWf [fst x] (snd x) \<and> 0 < subtreeCount (snd x)) \<and>
     sum_list (map (\<lambda>x. subtreeCount (snd x)) (children t)) \<le> subtreeCount t"

text \<open>The shape of a trie without its counts, which the root and the inner nodes share.\<close>

fun trieShape :: "string \<Rightarrow> trieNode \<Rightarrow> bool" where
  "trieShape p (TrieNode cs fk n) \<longleftrightarrow>
     distinct (map fst cs) \<and> (fk = [] \<or> fk = p) \<and> (\<forall>x\<in>set cs. trieShape (p @ [fst x]) (snd x))"

lemma trieMem_Nil [trie_simps]: "trieMem t [] \<longleftrightarrow> factKey t \<noteq> []"
  by (simp add: trieMem_def)

lemma trieMem_Cons [trie_simps]:
  "trieMem t (b # bs) \<longleftrightarrow>
     (case map_of (children t) b of None \<Rightarrow> False | Some c \<Rightarrow> trieMem c bs)"
  by (simp add: trieMem_def split: option.splits)

lemma trieMem_empty [simp]: "\<not> trieMem (TrieNode [] [] n) k"
  by (cases k) (simp_all add: trie_simps)

lemma trieMem_append: "trieMem t (p @ k) \<longleftrightarrow> (\<exists>n. findNode p t = Some n \<and> trieMem n k)"
  by (induction p arbitrary: t) (auto simp: trie_simps split: option.splits)

subsection \<open>Association lists with distinct keys\<close>

declare AList.delete_update_same [simp]

lemma update_twice [simp]: "AList.update b v (AList.update b w cs) = AList.update b v cs"
  by (induction cs) auto

lemma in_set_update:
  "distinct (map fst cs) \<Longrightarrow> x \<in> set (AList.update b v cs) \<Longrightarrow> x = (b, v) \<or> x \<in> set cs \<and> fst x \<noteq> b"
  by (induction cs) (auto split: if_splits simp: image_iff)

lemma in_set_delete: "x \<in> set (AList.delete b cs) \<longleftrightarrow> x \<in> set cs \<and> fst x \<noteq> b"
  by (auto simp: AList.delete_eq)

lemma distinct_keys_delete: "distinct (map fst cs) \<Longrightarrow> distinct (map fst (AList.delete b cs))"
  by (simp add: distinct_delete)

lemma sum_update:
  fixes g :: "'v \<Rightarrow> int"
  assumes "distinct (map fst cs)"
  shows "sum_list (map (\<lambda>x. g (snd x)) (AList.update b v cs)) =
    sum_list (map (\<lambda>x. g (snd x)) cs) + g v - (case map_of cs b of None \<Rightarrow> 0 | Some w \<Rightarrow> g w)"
  using assms by (induction cs) (auto split: option.splits dest: map_of_SomeD)

lemma sum_delete:
  fixes g :: "'v \<Rightarrow> int"
  assumes "distinct (map fst cs)"
  shows "sum_list (map (\<lambda>x. g (snd x)) (AList.delete b cs)) =
    sum_list (map (\<lambda>x. g (snd x)) cs) - (case map_of cs b of None \<Rightarrow> 0 | Some w \<Rightarrow> g w)"
  using assms
proof (induction cs)
  case (Cons x cs)
  have "fst x = b \<Longrightarrow> map_of cs b = None"
    using Cons.prems by (auto simp: map_of_eq_None_iff)
  with Cons show ?case by (auto split: option.splits)
qed simp

lemma map_of_in_set: "map_of cs b = Some c \<Longrightarrow> (b, c) \<in> set cs"
  by (rule map_of_SomeD)

subsection \<open>Counts\<close>

lemma sum_list_nonneg_zero:
  fixes f :: "'a \<Rightarrow> int"
  assumes "\<forall>x\<in>set xs. 0 < f x"
  shows "0 \<le> sum_list (map f xs)" and "sum_list (map f xs) \<le> 0 \<longleftrightarrow> xs = []"
proof -
  show nn: "0 \<le> sum_list (map f xs)"
    using assms by (induction xs) force+
  show "sum_list (map f xs) \<le> 0 \<longleftrightarrow> xs = []"
    using assms
  proof (cases xs)
    case (Cons x ys)
    with assms have "0 \<le> sum_list (map f ys)"
      by (intro sum_list_nonneg) force
    with assms Cons show ?thesis by force
  qed simp
qed

lemma trieWf_count_nonneg: "trieWf p t \<Longrightarrow> 0 \<le> subtreeCount t"
  by (cases t) (use sum_list_nonneg_zero(1) [of "children t" "\<lambda>x. subtreeCount (snd x)"] in auto)

lemma trieWf_count_zero:
  "trieWf p t \<Longrightarrow> subtreeCount t = 0 \<longleftrightarrow> factKey t = [] \<and> children t = []"
proof (cases t)
  case (TrieNode cs fk n)
  assume wf: "trieWf p t"
  then have pos: "\<forall>x\<in>set cs. 0 < (\<lambda>x. subtreeCount (snd x)) x"
    using TrieNode by simp
  note nn = sum_list_nonneg_zero [OF pos]
  from wf show ?thesis
    using nn TrieNode by (auto split: if_splits)
qed

lemma trieWf_shape: "trieWf p t \<Longrightarrow> trieShape p t"
  by (induction p t rule: trieWf.induct) auto

lemma trieInv_shape: "trieInv t \<Longrightarrow> trieShape [] t"
  by (cases t) (auto simp: trieInv_def intro: trieWf_shape)

subsection \<open>Insertion\<close>

lemma insertWalk_fresh: "snd (insertWalk key k (TrieNode [] [] 0))"
  by (induction k) (simp_all add: split_beta Let_def)

lemma insertWalk_added: "snd (insertWalk key k t) \<longleftrightarrow> \<not> trieMem t k"
proof (induction k arbitrary: t)
  case Nil
  then show ?case by (cases t) (simp add: trie_simps)
next
  case (Cons b bs)
  then show ?case
    by (cases t) (simp add: trie_simps insertWalk_fresh split_beta Let_def split: option.splits)
qed

lemma insertWalk_mem:
  assumes "key \<noteq> []"
  shows "trieMem (fst (insertWalk key k t)) k' \<longleftrightarrow> trieMem t k' \<or> k' = k"
proof (induction k arbitrary: t k')
  case Nil
  then show ?case
    using assms by (cases t; cases k') (auto simp: trie_simps)
next
  case (Cons b bs)
  show ?case
  proof (cases k')
    case Nil
    then show ?thesis by (cases t) (simp add: trie_simps split_beta Let_def)
  next
    case (Cons b' bs')
    with Cons.IH show ?thesis
      by (cases t) (auto simp: trie_simps update_conv' split_beta Let_def split: option.splits)
  qed
qed

lemma incrementAncestors_mem [simp]: "trieMem (incrementAncestors k t) k' = trieMem t k'"
proof (induction k arbitrary: t k')
  case Nil
  then show ?case by (cases t; cases k') (simp_all add: trie_simps)
next
  case (Cons b bs)
  then show ?case
    by (cases t; cases k') (auto simp: trie_simps update_conv' split: option.splits)
qed

lemma trieInsert_mem:
  "key \<noteq> [] \<Longrightarrow> trieMem (trieInsert key t) k \<longleftrightarrow> trieMem t k \<or> k = key"
  by (simp add: trieInsert_def split_beta Let_def insertWalk_mem)

text \<open>Replacing and deleting one child of a well-formed node; both change the count by the
  difference.\<close>

definition childCount :: "(char \<times> trieNode) list \<Rightarrow> char \<Rightarrow> int" where
  "childCount cs b = (case map_of cs b of None \<Rightarrow> 0 | Some c \<Rightarrow> subtreeCount c)"

lemma trieWf_update_child:
  assumes "trieWf p (TrieNode cs fk n)" and "trieWf (p @ [b]) c" and "0 < subtreeCount c"
    and "m = n + subtreeCount c - childCount cs b"
  shows "trieWf p (TrieNode (AList.update b c cs) fk m)"
proof -
  from assms(1) have d: "distinct (map fst cs)" by simp
  show ?thesis
    using assms sum_update [OF d, of subtreeCount b c]
    by (auto simp: childCount_def distinct_update dest!: in_set_update [OF d])
qed

lemma trieWf_delete_child:
  assumes "trieWf p (TrieNode cs fk n)" and "m = n - childCount cs b"
  shows "trieWf p (TrieNode (AList.delete b cs) fk m)"
proof -
  from assms(1) have d: "distinct (map fst cs)" by simp
  show ?thesis
    using assms sum_delete [OF d, of subtreeCount b] distinct_keys_delete [OF d]
    by (auto simp: childCount_def in_set_delete)
qed

lemma trieWf_child: "trieWf p (TrieNode cs fk n) \<Longrightarrow> map_of cs b = Some c \<Longrightarrow>
    trieWf (p @ [b]) c \<and> 0 < subtreeCount c"
  by (auto dest!: map_of_SomeD)

text \<open>Inserting keeps a node well-formed: the counts of the path grow by one exactly when the key
  is new.\<close>

lemma insertWalk_wf:
  assumes "trieWf p t" and "key = p @ k" and "key \<noteq> []"
  defines "t' \<equiv> fst (insertWalk key k t)"
  shows "(trieMem t k \<longrightarrow> trieWf p t' \<and> subtreeCount t' = subtreeCount t) \<and>
    (\<not> trieMem t k \<longrightarrow> trieWf p (incrementAncestors k t') \<and>
       subtreeCount (incrementAncestors k t') = subtreeCount t + 1)"
  using assms(1,2) unfolding t'_def
proof (induction k arbitrary: p t)
  case Nil
  then show ?case using assms(3) by (cases t) (auto simp: trie_simps)
next
  case (Cons b bs)
  obtain cs fk n where t: "t = TrieNode cs fk n" by (cases t)
  define c where "c = (case map_of cs b of None \<Rightarrow> TrieNode [] [] 0 | Some c \<Rightarrow> c)"
  define c' where "c' = fst (insertWalk key bs c)"
  have wf: "trieWf p (TrieNode cs fk n)" using Cons.prems(1) t by simp
  have wfc: "trieWf (p @ [b]) c" and pos: "trieMem c bs \<Longrightarrow> 0 < subtreeCount c"
    using trieWf_child [OF wf, of b] by (auto simp: c_def split: option.splits)
  have old: "childCount cs b = subtreeCount c"
    by (simp add: c_def childCount_def split: option.splits)
  have mem: "trieMem t (b # bs) \<longleftrightarrow> trieMem c bs"
    by (simp add: t c_def trie_simps split: option.splits)
  have walk: "fst (insertWalk key (b # bs) t) = TrieNode (AList.update b c' cs) fk n"
    by (simp add: t c_def c'_def split_beta Let_def)
  have key: "key = (p @ [b]) @ bs" using Cons.prems(2) by simp
  note IH = Cons.IH [OF wfc key, folded c'_def]
  show ?case
  proof (cases "trieMem c bs")
    case True
    then show ?thesis
      using IH pos trieWf_update_child [OF wf, of b c' n] unfolding mem walk
      by (simp add: old t del: trieWf.simps)
  next
    case False
    then show ?thesis
      using IH trieWf_count_nonneg [OF wfc]
        trieWf_update_child [OF wf, of b "incrementAncestors bs c'" "n + 1"] unfolding mem walk
      by (simp add: old t update_conv' del: trieWf.simps)
  qed
qed

text \<open>The root is a well-formed node once its count is corrected, so the invariant of the whole
  trie follows from that of its nodes.\<close>

lemma trieInv_TrieNode:
  "trieInv (TrieNode cs fk n) \<longleftrightarrow>
     fk = [] \<and> (\<exists>m\<le>n. trieWf [] (TrieNode cs [] m))"
  by (auto simp: trieInv_def)

lemma trieInv_new: "trieInv newPrefixTrie"
  by (simp add: trieInv_def newPrefixTrie_def)

lemma trieInv_insert: "trieInv t \<Longrightarrow> trieInv (trieInsert key t)"
proof (cases t)
  case (TrieNode cs fk n)
  assume inv: "trieInv t"
  then obtain m where t: "t = TrieNode cs [] n" and m: "m \<le> n" "trieWf [] (TrieNode cs [] m)"
    using TrieNode by (auto simp: trieInv_TrieNode)
  show ?thesis
  proof (cases key)
    case Nil
    then show ?thesis
      using t m by (auto simp: trieInsert_def trieInv_TrieNode)
  next
    case (Cons b bs)
    have indep: "\<exists>cs'. \<forall>i. fst (insertWalk key key (TrieNode cs [] i)) = TrieNode cs' [] i"
      by (simp add: Cons split_beta Let_def)
    then obtain cs' where cs': "\<And>i. fst (insertWalk key key (TrieNode cs [] i)) = TrieNode cs' [] i"
      by blast
    have indep: "\<exists>ds. \<forall>i. incrementAncestors key (TrieNode cs' [] i) = TrieNode ds [] (i + 1)"
      by (simp add: Cons)
    then obtain ds where ds: "\<And>i. incrementAncestors key (TrieNode cs' [] i) = TrieNode ds [] (i + 1)"
      by blast
    have mem: "trieMem (TrieNode cs [] n) key = trieMem (TrieNode cs [] m) key"
      by (simp add: Cons trie_simps)
    show ?thesis
      using insertWalk_wf [OF m(2), of key key] m(1) mem
      by (auto simp: Cons t trieInsert_def split_beta insertWalk_added trieInv_TrieNode
          cs' [unfolded Cons] ds [unfolded Cons] simp del: trieWf.simps insertWalk.simps
          incrementAncestors.simps intro: exI [of _ m] exI [of _ "m + 1"])
  qed
qed

subsection \<open>Removal\<close>

lemma clearFactKey_mem: "trieMem (clearFactKey k t) k' \<longleftrightarrow> trieMem t k' \<and> k' \<noteq> k"
proof (induction k arbitrary: t k')
  case Nil
  then show ?case by (cases t; cases k') (simp_all add: trie_simps)
next
  case (Cons b bs)
  then show ?case
    by (cases t; cases k') (auto simp: trie_simps update_conv' split: option.splits)
qed

lemma decrementAncestors_mem: "trieMem (decrementAncestors k t) k' = trieMem t k'"
proof (induction k arbitrary: t k')
  case Nil
  then show ?case by (cases t; cases k') (simp_all add: trie_simps)
next
  case (Cons b bs)
  then show ?case
    by (cases t; cases k') (auto simp: trie_simps update_conv' split: option.splits)
qed

lemma pruneEmptyBranch_mem: "trieMem (pruneEmptyBranch k t) k' = trieMem t k'"
proof (induction k arbitrary: t k')
  case (Cons b bs)
  have empty: "\<not> trieMem c j" if "factKey c = []" "children c = []" for c j
    using that trieMem_empty by (cases c) auto
  show ?case
  proof (cases t)
    case (TrieNode cs fk n)
    then show ?thesis
      using Cons.IH empty
      by (cases k') (auto simp: trie_simps update_conv' delete_conv' Let_def split: option.splits)
  qed
qed simp

lemma trieRemove_mem: "trieMem (fst (trieRemove key t)) k \<longleftrightarrow> trieMem t k \<and> k \<noteq> key"
proof -
  have "trieMem t k \<Longrightarrow> \<not> trieMem t key \<Longrightarrow> k \<noteq> key" by auto
  then show ?thesis
    by (auto simp: trieRemove_def trieMem_def [of _ key] pruneEmptyBranch_mem
        decrementAncestors_mem clearFactKey_mem split: option.splits)
qed

lemma trieRemove_found: "snd (trieRemove key t) \<longleftrightarrow> trieMem t key"
  by (simp add: trieRemove_def trieMem_def split: option.splits)

lemma remove_wf:
  assumes "trieWf p t" and "trieMem t k"
  defines "r \<equiv> pruneEmptyBranch k (decrementAncestors k (clearFactKey k t))"
  shows "trieWf p r \<and> subtreeCount r = subtreeCount t - 1"
  using assms(1,2) unfolding r_def
proof (induction k arbitrary: p t)
  case Nil
  then show ?case by (cases t) (auto simp: trie_simps)
next
  case (Cons b bs)
  obtain cs fk n where t: "t = TrieNode cs fk n" by (cases t)
  have wf: "trieWf p (TrieNode cs fk n)" using Cons.prems(1) t by simp
  obtain c where c: "map_of cs b = Some c" "trieMem c bs"
    using Cons.prems(2) by (auto simp: t trie_simps split: option.splits)
  note wfc = trieWf_child [OF wf c(1)]
  define c' where "c' = pruneEmptyBranch bs (decrementAncestors bs (clearFactKey bs c))"
  have IH: "trieWf (p @ [b]) c'" "subtreeCount c' = subtreeCount c - 1"
    using Cons.IH [of "p @ [b]" c] wfc c(2) by (auto simp: c'_def)
  have old: "childCount cs b = subtreeCount c" by (simp add: childCount_def c(1))
  show ?case
  proof (cases "factKey c' = [] \<and> children c' = []")
    case True
    with trieWf_count_zero [OF IH(1)] IH(2) have "subtreeCount c = 1" by simp
    then show ?thesis
      using True trieWf_delete_child [OF wf, of "n - 1" b] c(1)
      by (simp add: t c'_def [symmetric] update_conv' old del: trieWf.simps)
  next
    case False
    with trieWf_count_zero [OF IH(1)] trieWf_count_nonneg [OF IH(1)] have "0 < subtreeCount c'"
      by auto
    then show ?thesis
      using False trieWf_update_child [OF wf IH(1), of "n - 1"] IH(2) c(1)
      by (auto simp: t c'_def [symmetric] update_conv' old Let_def simp del: trieWf.simps)
  qed
qed

lemma trieInv_remove: "trieInv t \<Longrightarrow> trieInv (fst (trieRemove key t))"
proof (cases t)
  case (TrieNode cs fk n)
  assume inv: "trieInv t"
  then obtain m where t: "t = TrieNode cs [] n" and m: "m \<le> n" "trieWf [] (TrieNode cs [] m)"
    using TrieNode by (auto simp: trieInv_TrieNode)
  show ?thesis
  proof (cases "trieMem t key")
    case False
    then show ?thesis
      using inv by (auto simp: trieRemove_def trieMem_def split: option.splits)
  next
    case True
    then obtain b bs where key: "key = b # bs"
      by (cases key) (auto simp: t trie_simps)
    define r where "r i = pruneEmptyBranch key (decrementAncestors key (clearFactKey key (TrieNode cs [] i)))" for i
    have "\<exists>ds. \<forall>i. r i = TrieNode ds [] (i - 1)"
      by (cases "map_of cs b") (auto simp: r_def key Let_def update_conv')
    then obtain ds where ds: "\<And>i. r i = TrieNode ds [] (i - 1)" by blast
    have "fst (trieRemove key t) = r n"
      using True by (auto simp: trieRemove_def trieMem_def r_def t split: option.splits)
    moreover have "trieWf [] (r m)"
      using remove_wf [OF m(2), of key] True by (simp add: r_def key t trie_simps del: trieWf.simps)
    ultimately show ?thesis
      using m(1) by (auto simp: ds trieInv_TrieNode simp del: trieWf.simps intro!: exI [of _ "m - 1"])
  qed
qed

subsection \<open>Prefix scans\<close>

lemma append_less_append [simp]: "(p @ xs < p @ ys) = (xs < (ys :: string))"
  by (induction p) auto

lemma sorted_wrt_concat_map:
  assumes "sorted_wrt Q is" and "\<And>i. i \<in> set is \<Longrightarrow> sorted_wrt P (f i)"
    and "\<And>i j x y. Q i j \<Longrightarrow> x \<in> set (f i) \<Longrightarrow> y \<in> set (f j) \<Longrightarrow> P x y"
  shows "sorted_wrt P (concat (map f is))"
  using assms by (induction "is") (auto simp: sorted_wrt_append)

lemma in_concat_map: "x \<in> set (concat (map f is)) \<longleftrightarrow> (\<exists>i\<in>set is. x \<in> set (f i))"
  by auto

lemma set_collectSorted:
  "trieShape p t \<Longrightarrow> set (collectSorted t) = {p @ k |k. trieMem t k}"
proof (induction t arbitrary: p rule: collectSorted.induct)
  case (1 cs fk n)
  let ?f = "\<lambda>b::nat. case map_of cs (char_of b) of None \<Rightarrow> [] | Some c \<Rightarrow> collectSorted c"
  have child: "set (collectSorted c) = {(p @ [char_of i]) @ k |k. trieMem c k}"
    if "map_of cs (char_of i) = Some c" "i < 256" for i :: nat and c
  proof -
    from that(1) have "trieShape (p @ [char_of i]) c"
      using "1.prems" by (auto dest!: map_of_SomeD)
    moreover have "cs \<noteq> []" using that(1) by auto
    ultimately show ?thesis using "1.IH" [of i c "p @ [char_of i]"] that by simp
  qed
  have sub: "set (concat (map ?f [0..<256::nat])) = {p @ k |k. k \<noteq> [] \<and> trieMem (TrieNode cs fk n) k}"
  proof (intro set_eqI iffI)
    fix x assume "x \<in> set (concat (map ?f [0..<256::nat]))"
    then obtain i :: nat where i: "i < 256" "x \<in> set (?f i)"
      unfolding in_concat_map by force
    then obtain c where c: "map_of cs (char_of i) = Some c" "x \<in> set (collectSorted c)"
      by (cases "map_of cs (char_of i)") auto
    with child [OF c(1) i(1)] obtain k where "x = p @ (char_of i # k)" "trieMem c k" by auto
    with c(1) show "x \<in> {p @ k |k. k \<noteq> [] \<and> trieMem (TrieNode cs fk n) k}"
      by (auto simp: trie_simps)
  next
    fix x assume "x \<in> {p @ k |k. k \<noteq> [] \<and> trieMem (TrieNode cs fk n) k}"
    then obtain b bs where x: "x = p @ b # bs" "trieMem (TrieNode cs fk n) (b # bs)"
      by (auto simp: neq_Nil_conv)
    then obtain c where c: "map_of cs b = Some c" "trieMem c bs"
      by (auto simp: trie_simps split: option.splits)
    define i :: nat where "i = of_char b"
    have i: "i < 256" "char_of i = b" by (simp_all add: i_def)
    with child [of i c] c x have "x \<in> set (?f i)" by auto
    with i(1) show "x \<in> set (concat (map ?f [0..<256::nat]))" by auto
  qed
  have "trieMem (TrieNode cs fk n) [] \<longleftrightarrow> fk \<noteq> []" and "fk = [] \<or> fk = p"
    using "1.prems" by (auto simp: trie_simps)
  moreover have "cs = [] \<Longrightarrow> k \<noteq> [] \<Longrightarrow> \<not> trieMem (TrieNode cs fk n) k" for k
    by (cases k) (auto simp: trie_simps)
  ultimately show ?case using sub by (auto split: if_splits)
qed

lemma sorted_collectSorted: "trieShape p t \<Longrightarrow> sorted_wrt (<) (collectSorted t)"
proof (induction t arbitrary: p rule: collectSorted.induct)
  case (1 cs fk n)
  let ?f = "\<lambda>b::nat. case map_of cs (char_of b) of None \<Rightarrow> [] | Some c \<Rightarrow> collectSorted c"
  have child: "sorted_wrt (<) (collectSorted c) \<and> (\<forall>x\<in>set (collectSorted c). \<exists>k. x = p @ char_of i # k)"
    if "map_of cs (char_of i) = Some c" "i < 256" for i :: nat and c
  proof -
    from that(1) have sh: "trieShape (p @ [char_of i]) c"
      using "1.prems" by (auto dest!: map_of_SomeD)
    moreover have "cs \<noteq> []" using that(1) by auto
    ultimately have "sorted_wrt (<) (collectSorted c)"
      using "1.IH" [of i c "p @ [char_of i]"] that by simp
    then show ?thesis by (auto simp: set_collectSorted [OF sh])
  qed
  have part: "\<exists>k. x = p @ char_of i # k" if "x \<in> set (?f i)" "i < 256" for i :: nat and x
  proof (cases "map_of cs (char_of i)")
    case (Some c)
    with child [OF Some that(2)] that(1) show ?thesis by auto
  qed (use that in simp)
  have "sorted_wrt (<) (concat (map ?f [0..<256::nat]))"
  proof (rule sorted_wrt_concat_map [where Q = "\<lambda>i j. i < j \<and> j < 256"])
    show "sorted_wrt (\<lambda>i j. i < j \<and> j < 256) [0..<256::nat]"
      by (rule sorted_wrt_mono_rel [OF _ sorted_wrt_upt]) auto
    show "sorted_wrt (<) (?f i)" if "i \<in> set [0..<256::nat]" for i
      using child that by (auto split: option.splits)
    fix i j :: nat and x y
    assume ij: "i < j \<and> j < 256" and x: "x \<in> set (?f i)" and y: "y \<in> set (?f j)"
    from ij part [OF x] part [OF y] obtain k k' where xy: "x = p @ char_of i # k" "y = p @ char_of j # k'"
      by auto
    have "(char_of i :: char) < char_of j" using ij by (simp add: less_char_def)
    with xy show "x < y" by simp
  qed
  moreover have "fk < x" if "fk = p" "x \<in> set (concat (map ?f [0..<256::nat]))" for x
  proof -
    from that(2) obtain i :: nat where "i < 256" "x \<in> set (?f i)"
      unfolding in_concat_map by force
    from part [OF this(2,1)] obtain k where "x = p @ char_of i # k" ..
    with that(1) show ?thesis using append_less_append [of p "[]" "char_of i # k"] by simp
  qed
  ultimately show ?case using "1.prems" by (auto simp: sorted_wrt_append)
qed

lemma findNode_shape: "trieShape q t \<Longrightarrow> findNode p t = Some n \<Longrightarrow> trieShape (q @ p) n"
proof (induction p arbitrary: q t)
  case (Cons b bs)
  then obtain c where c: "map_of (children t) b = Some c" "findNode bs c = Some n"
    by (auto split: option.splits)
  with Cons.prems(1) have "trieShape (q @ [b]) c"
    by (cases t) (auto dest!: map_of_SomeD)
  from Cons.IH [OF this c(2)] show ?case by simp
qed simp

lemma findNode_wf: "trieWf q t \<Longrightarrow> findNode p t = Some n \<Longrightarrow> trieWf (q @ p) n"
proof (induction p arbitrary: q t)
  case (Cons b bs)
  then obtain c where c: "map_of (children t) b = Some c" "findNode bs c = Some n"
    by (auto split: option.splits)
  with Cons.prems(1) have "trieWf (q @ [b]) c"
    by (cases t) (auto dest!: map_of_SomeD)
  from Cons.IH [OF this c(2)] show ?case by simp
qed simp

text \<open>A node with count 0 and no key has nothing below it, so the early return of
  \<open>KeysWithPrefix\<close> never drops a key.\<close>

lemma findNode_zero:
  assumes "trieInv t" and "findNode p t = Some n" and "subtreeCount n = 0" and "factKey n = []"
  shows "collectSorted n = []"
proof -
  have "children n = []"
  proof (cases p)
    case Nil
    with assms have "sum_list (map (\<lambda>x. subtreeCount (snd x)) (children t)) \<le> 0" "n = t"
      by (auto simp: trieInv_def)
    with assms(1) sum_list_nonneg_zero(2) [of "children t" "\<lambda>x. subtreeCount (snd x)"]
    show ?thesis by (auto simp: trieInv_def)
  next
    case (Cons b bs)
    with assms(2) obtain c where c: "map_of (children t) b = Some c" "findNode bs c = Some n"
      by (auto split: option.splits)
    with assms(1) have "trieWf [b] c" by (auto simp: trieInv_def dest!: map_of_SomeD)
    from findNode_wf [OF this c(2)] trieWf_count_zero assms(3) show ?thesis by blast
  qed
  with assms(4) show ?thesis by (cases n) simp
qed

lemma KeysWithPrefix_eq_collect:
  "trieInv t \<Longrightarrow> KeysWithPrefix p t = (case findNode p t of None \<Rightarrow> [] | Some n \<Rightarrow> collectSorted n)"
  by (auto simp: KeysWithPrefix_def findNode_zero split: option.splits)

lemma set_KeysWithPrefix:
  assumes "trieInv t"
  shows "set (KeysWithPrefix p t) = {k. trieMem t k \<and> prefix p k}"
proof (cases "findNode p t")
  case None
  then have "\<not> trieMem t k" if "prefix p k" for k
    using that trieMem_append [of t p] by (auto simp: prefix_def)
  with None show ?thesis by (auto simp: KeysWithPrefix_eq_collect [OF assms])
next
  case (Some n)
  with findNode_shape [OF trieInv_shape [OF assms]] have "trieShape p n" by fastforce
  with Some show ?thesis
    using set_collectSorted [of p n] trieMem_append [of t p]
    by (auto simp: KeysWithPrefix_eq_collect [OF assms] prefix_def)
qed

lemma sorted_KeysWithPrefix:
  assumes "trieInv t"
  shows "sorted_wrt (<) (KeysWithPrefix p t)"
  using findNode_shape [OF trieInv_shape [OF assms]] sorted_collectSorted
  by (fastforce simp: KeysWithPrefix_eq_collect [OF assms] split: option.splits)

lemma trieMem_not_Nil: "trieInv t \<Longrightarrow> trieMem t k \<Longrightarrow> k \<noteq> []"
  by (auto simp: trieInv_def trie_simps)

subsection \<open>The interface of a prefix index\<close>

text \<open>What the fact store relies on. \<open>indexes t K\<close> says that the index \<open>t\<close> holds the non-empty
  strings of \<open>K\<close>: the empty string is never indexed.\<close>

locale prefix_index =
  fixes new :: 't
    and ins :: "string \<Rightarrow> 't \<Rightarrow> 't"
    and del :: "string \<Rightarrow> 't \<Rightarrow> 't"
    and keys :: "string \<Rightarrow> 't \<Rightarrow> string list"
    and mem :: "'t \<Rightarrow> string \<Rightarrow> bool"
    and invar :: "'t \<Rightarrow> bool"
  assumes invar_new: "invar new"
    and invar_ins: "invar t \<Longrightarrow> invar (ins k t)"
    and invar_del: "invar t \<Longrightarrow> invar (del k t)"
    and mem_new: "\<not> mem new k"
    and mem_ins: "invar t \<Longrightarrow> mem (ins k t) j \<longleftrightarrow> mem t j \<or> j = k \<and> k \<noteq> []"
    and mem_del: "invar t \<Longrightarrow> mem (del k t) j \<longleftrightarrow> mem t j \<and> j \<noteq> k"
    and mem_nonempty: "invar t \<Longrightarrow> mem t k \<Longrightarrow> k \<noteq> []"
    and set_keys: "invar t \<Longrightarrow> set (keys p t) = {k. mem t k \<and> prefix p k}"
    and sorted_keys: "invar t \<Longrightarrow> sorted_wrt (<) (keys p t)"
begin

definition indexes :: "'t \<Rightarrow> string set \<Rightarrow> bool" where
  "indexes t K \<longleftrightarrow> invar t \<and> (\<forall>k. mem t k \<longleftrightarrow> k \<in> K \<and> k \<noteq> [])"

lemma indexes_new: "indexes new {}"
  by (simp add: indexes_def invar_new mem_new)

lemma indexes_ins: "indexes t K \<Longrightarrow> indexes (ins k t) (insert k K)"
  by (auto simp: indexes_def invar_ins mem_ins)

lemma indexes_del: "indexes t K \<Longrightarrow> indexes (del k t) (K - {k})"
  by (auto simp: indexes_def invar_del mem_del)

lemma indexes_cong: "indexes t K \<Longrightarrow> K - {[]} = L - {[]} \<Longrightarrow> indexes t L"
  by (auto simp: indexes_def)

lemma keys_set: "indexes t K \<Longrightarrow> set (keys p t) = {k \<in> K. k \<noteq> [] \<and> prefix p k}"
  by (auto simp: indexes_def set_keys)

lemma keys_sorted: "indexes t K \<Longrightarrow> sorted_wrt (<) (keys p t)"
  by (simp add: indexes_def sorted_keys)

lemma keys_distinct: "indexes t K \<Longrightarrow> distinct (keys p t)"
  using keys_sorted strict_sorted_iff by blast

lemma keys_eq:
  assumes "indexes t K"
  shows "keys p t = sorted_list_of_set {k \<in> K. k \<noteq> [] \<and> prefix p k}"
proof -
  from keys_set [OF assms] have "sorted_list_of_set (set (keys p t)) = sorted_list_of_set {k \<in> K. k \<noteq> [] \<and> prefix p k}"
    by metis
  moreover have "sorted_list_of_set (set (keys p t)) = keys p t"
    using keys_sorted [OF assms, of p] by (simp add: strict_sorted_iff sorted_list_of_set.idem_if_sorted_distinct)
  ultimately show ?thesis by simp
qed

end

lemma trieInsert_mem_any:
  assumes "trieInv t"
  shows "trieMem (trieInsert k t) j \<longleftrightarrow> trieMem t j \<or> j = k \<and> k \<noteq> []"
proof (cases "k = []")
  case True
  with assms show ?thesis
    by (cases t; cases j) (auto simp: trieInsert_def trieInv_TrieNode trie_simps)
next
  case False
  then show ?thesis by (auto simp: trieInsert_mem)
qed

interpretation trie: prefix_index newPrefixTrie trieInsert "\<lambda>k t. fst (trieRemove k t)"
  KeysWithPrefix trieMem trieInv
proof (standard, goal_cases)
  case 4
  then show ?case by (simp add: newPrefixTrie_def)
qed (simp_all add: trieInv_new trieInv_insert trieInv_remove trieInsert_mem_any trieRemove_mem
      trieMem_not_Nil set_KeysWithPrefix sorted_KeysWithPrefix)

subsection \<open>Property\<close>

datatype trieOp = TInsert string | TRemove string

fun applyTrieOp :: "trieOp \<Rightarrow> trieNode \<Rightarrow> trieNode" where
  "applyTrieOp (TInsert k) t = trieInsert k t"
| "applyTrieOp (TRemove k) t = fst (trieRemove k t)"

fun specTrieOp :: "trieOp \<Rightarrow> string set \<Rightarrow> string set" where
  "specTrieOp (TInsert k) K = insert k K"
| "specTrieOp (TRemove k) K = K - {k}"

lemma trie_run_indexes: "trie.indexes t K \<Longrightarrow> trie.indexes (fold applyTrieOp ops t) (fold specTrieOp ops K)"
proof (induction ops arbitrary: t K)
  case (Cons op ops)
  then show ?case by (cases op) (auto simp: trie.indexes_ins trie.indexes_del)
qed simp

text \<open>C31. The trie implements a set of keys: after any sequence of insertions and removals,
  \<open>KeysWithPrefix\<close> returns exactly the non-empty keys of the abstract set that extend the prefix, in
  ascending order and without duplicates.\<close>

theorem trie_refines_set:
  "KeysWithPrefix p (fold applyTrieOp ops newPrefixTrie) =
     sorted_list_of_set {k \<in> fold specTrieOp ops {}. k \<noteq> [] \<and> prefix p k}"
  using trie.keys_eq [OF trie_run_indexes [OF trie.indexes_new]] by simp

end
