(* ===== verification/Memory_Store.thy ===== *)
theory Memory_Store
  imports Prefix_Trie
begin

text \<open>
  The in-memory fact store of \<^verbatim>\<open>src/store/store.go\<close> and \<^verbatim>\<open>src/store/memory.go\<close>: the facts, the
  trie index, the global revision counter, the ring buffer of recent events, and the watchers
  with their buffered channels.

  Each operation is a function from the store to its result and the new store; an error is a value
  of \<open>StoreError\<close>. A channel is an object that the store and the consumer share, so the store
  holds a list of channels and a watcher holds an index into it. A send on a closed channel and a
  second \<open>close\<close> panic in Go; both set \<open>panicked\<close>, and it is a theorem that no run sets it.
  A write commits its data under one lock and broadcasts its events under another: the functions
  with the suffix \<open>Data\<close> are the first critical section, and \<open>mem_step\<close> interleaves the two.
  Logging is left out, and a watch channel has a buffer of at least one event, as in the code.
\<close>

named_theorems store_defs \<open>definitions of the store operations\<close>

subsection \<open>Facts, events and transactions\<close>

record Fact =
  Key :: string
  Value :: string
  Revision :: int
  CreateRevision :: int
  LeaseID :: int

datatype EventType = EventPut | EventDelete | EventOverflow | EventCompacted

record Event =
  EvType :: EventType
  EvFact :: Fact
  EvPrev :: "Fact option"

record Compare =
  CmpKey :: string
  CmpRevision :: int

datatype OpType = OpPut | OpDelete

record Op =
  OpKind :: OpType
  OpKey :: string
  OpValue :: string

record WatchOption =
  WatchPrefix :: bool
  StartRevision :: int

record ScanResult =
  ScanFacts :: "Fact list"
  ScanRevision :: int

datatype StoreError = ErrKeyNotFound | ErrStoreClosed | ErrTransactionTooLarge nat

definition zeroFact :: Fact where
  "zeroFact = \<lparr>Key = [], Value = [], Revision = 0, CreateRevision = 0, LeaseID = 0\<rparr>"

definition zeroEvent :: "EventType \<Rightarrow> Event" where
  "zeroEvent ty = \<lparr>EvType = ty, EvFact = zeroFact, EvPrev = None\<rparr>"

definition memoryStoreTransactionOperationLimit :: nat where
  "memoryStoreTransactionOperationLimit = 128"

subsection \<open>The ring buffer of recent events\<close>

record eventHistoryEntry =
  heRevision :: int
  heEvent :: Event

record eventHistoryBuffer =
  entries :: "eventHistoryEntry list"
  writeIndex :: nat
  entryCount :: nat

definition newEventHistoryBuffer :: "nat \<Rightarrow> eventHistoryBuffer" where
  "newEventHistoryBuffer capacity =
     \<lparr>entries = replicate capacity \<lparr>heRevision = 0, heEvent = zeroEvent EventPut\<rparr>,
      writeIndex = 0, entryCount = 0\<rparr>"

definition historyAppend :: "int \<Rightarrow> Event \<Rightarrow> eventHistoryBuffer \<Rightarrow> eventHistoryBuffer" where
  "historyAppend revision event b =
     b\<lparr>entries := (entries b)[writeIndex b := \<lparr>heRevision = revision, heEvent = event\<rparr>],
       writeIndex := (writeIndex b + 1) mod length (entries b),
       entryCount := (if entryCount b < length (entries b) then entryCount b + 1 else entryCount b)\<rparr>"

text \<open>\<open>None\<close> is the pair \<open>(nil, false)\<close>: the revision is no longer in the buffer.\<close>

definition eventsFromRevision :: "int \<Rightarrow> eventHistoryBuffer \<Rightarrow> Event list option" where
  "eventsFromRevision startRevision b =
     (if entryCount b = 0 then Some []
      else let oldestIndex = (if entryCount b = length (entries b) then writeIndex b else 0);
               oldestRevision = heRevision (entries b ! oldestIndex)
           in if startRevision < oldestRevision then None
              else Some (map heEvent (filter (\<lambda>e. heRevision e \<ge> startRevision)
                     (map (\<lambda>i. entries b ! ((oldestIndex + i) mod length (entries b)))
                          [0..<entryCount b]))))"

subsection \<open>Channels and watchers\<close>

record EventChan =
  chCap :: nat
  chBuf :: "Event list"
  chClosed :: bool

record factWatcher =
  keyPattern :: string
  matchByPrefix :: bool
  eventChannel :: nat
  overflowDetected :: bool

text \<open>The non-blocking send \<open>select { case ch <- e: default: }\<close> on an open channel.\<close>

definition trySend :: "Event \<Rightarrow> EventChan \<Rightarrow> EventChan \<times> bool" where
  "trySend e ch =
     (if length (chBuf ch) < chCap ch then (ch\<lparr>chBuf := chBuf ch @ [e]\<rparr>, True) else (ch, False))"

definition matchesWatchPattern :: "Event \<Rightarrow> string \<Rightarrow> bool \<Rightarrow> bool" where
  "matchesWatchPattern event pattern byPrefix =
     (if byPrefix then HasPrefix (Key (EvFact event)) pattern else Key (EvFact event) = pattern)"

text \<open>The body of the loop of \<open>broadcastEvent\<close> for a watcher that matches: the overflow marker
  first when one is due, then the event.\<close>

definition deliver :: "Event \<Rightarrow> factWatcher \<Rightarrow> EventChan \<Rightarrow> factWatcher \<times> EventChan" where
  "deliver event w ch =
     (let (w1, ch1) =
            (if overflowDetected w
             then (let (ch', sent) = trySend (zeroEvent EventOverflow) ch
                   in (if sent then w\<lparr>overflowDetected := False\<rparr> else w, ch'))
             else (w, ch));
          (ch2, sent) = trySend event ch1
      in (if sent then w1 else w1\<lparr>overflowDetected := True\<rparr>, ch2))"

subsection \<open>The store\<close>

record MemoryStore =
  facts :: "string \<rightharpoonup> Fact"
  keyIndex :: trieNode
  currentRevision :: int
  activeWatchers :: "factWatcher list"
  eventHistory :: eventHistoryBuffer
  watchChannelBufferSize :: nat
  isClosed :: bool
  channels :: "EventChan list"
  panicked :: bool

definition defaultEventHistoryCapacity :: nat where
  "defaultEventHistoryCapacity = 4096"

definition defaultWatchChannelBufferSize :: nat where
  "defaultWatchChannelBufferSize = 256"

definition NewMemoryStore :: MemoryStore where
  "NewMemoryStore =
     \<lparr>facts = Map.empty, keyIndex = newPrefixTrie, currentRevision = 0, activeWatchers = [],
      eventHistory = newEventHistoryBuffer defaultEventHistoryCapacity,
      watchChannelBufferSize = defaultWatchChannelBufferSize, isClosed = False,
      channels = [], panicked = False\<rparr>"

definition SetWatchChannelBufferSize :: "nat \<Rightarrow> MemoryStore \<Rightarrow> MemoryStore" where
  "SetWatchChannelBufferSize bufferSize s = s\<lparr>watchChannelBufferSize := bufferSize\<rparr>"

fun broadcastLoop :: "Event \<Rightarrow> factWatcher list \<Rightarrow> EventChan list \<Rightarrow> bool \<Rightarrow>
    factWatcher list \<times> EventChan list \<times> bool" where
  "broadcastLoop event [] chans p = ([], chans, p)"
| "broadcastLoop event (w # ws) chans p =
     (if matchesWatchPattern event (keyPattern w) (matchByPrefix w)
      then let ch = chans ! eventChannel w;
               (w', ch') = deliver event w ch;
               (ws', chans', p') = broadcastLoop event ws (chans[eventChannel w := ch']) (p \<or> chClosed ch)
           in (w' # ws', chans', p')
      else let (ws', chans', p') = broadcastLoop event ws chans p in (w # ws', chans', p'))"

definition broadcastEvent :: "Event \<Rightarrow> MemoryStore \<Rightarrow> MemoryStore" where
  "broadcastEvent event s =
     (let (ws, chans, p) = broadcastLoop event (activeWatchers s) (channels s) (panicked s)
      in s\<lparr>eventHistory := historyAppend (Revision (EvFact event)) event (eventHistory s),
           activeWatchers := ws, channels := chans, panicked := p\<rparr>)"

subsection \<open>Reads\<close>

definition Get :: "string \<Rightarrow> MemoryStore \<Rightarrow> StoreError + Fact" where
  "Get key s =
     (if isClosed s then Inl ErrStoreClosed
      else case facts s key of None \<Rightarrow> Inl ErrKeyNotFound | Some f \<Rightarrow> Inr f)"

text \<open>A missing map entry would be a nil pointer in Go; the index holds only keys that have a fact.\<close>

definition collectFactPointers :: "string \<Rightarrow> MemoryStore \<Rightarrow> Fact list" where
  "collectFactPointers p s =
     map (\<lambda>k. case facts s k of None \<Rightarrow> zeroFact | Some f \<Rightarrow> f) (KeysWithPrefix p (keyIndex s))"

definition Scan :: "string \<Rightarrow> MemoryStore \<Rightarrow> StoreError + Fact list" where
  "Scan p s = (if isClosed s then Inl ErrStoreClosed else Inr (collectFactPointers p s))"

definition ScanWithRevision :: "string \<Rightarrow> MemoryStore \<Rightarrow> StoreError + ScanResult" where
  "ScanWithRevision p s =
     (if isClosed s then Inl ErrStoreClosed
      else Inr \<lparr>ScanFacts = collectFactPointers p s, ScanRevision = currentRevision s\<rparr>)"

definition RevisionOf :: "MemoryStore \<Rightarrow> StoreError + int" where
  "RevisionOf s = (if isClosed s then Inl ErrStoreClosed else Inr (currentRevision s))"

subsection \<open>Writes\<close>

definition applyPut :: "string \<Rightarrow> string \<Rightarrow> int \<Rightarrow> MemoryStore \<Rightarrow> MemoryStore \<times> Event" where
  "applyPut key value revision s =
     (let previousFact = facts s key;
          createRevision = (case previousFact of None \<Rightarrow> revision | Some f \<Rightarrow> CreateRevision f);
          newFact = \<lparr>Key = key, Value = value, Revision = revision,
                     CreateRevision = createRevision, LeaseID = 0\<rparr>
      in (s\<lparr>facts := (facts s)(key \<mapsto> newFact), keyIndex := trieInsert key (keyIndex s)\<rparr>,
          \<lparr>EvType = EventPut, EvFact = newFact, EvPrev = previousFact\<rparr>))"

text \<open>The data sections: the new store, the result, and the events still to broadcast.\<close>

definition PutData :: "string \<Rightarrow> string \<Rightarrow> MemoryStore \<Rightarrow> MemoryStore \<times> int \<times> Event list" where
  "PutData key value s =
     (case facts s key of
        Some f \<Rightarrow>
          if Value f = value then (s, Revision f, [])
          else let rev = currentRevision s + 1;
                   (s', ev) = applyPut key value rev (s\<lparr>currentRevision := rev\<rparr>)
               in (s', rev, [ev])
      | None \<Rightarrow>
          let rev = currentRevision s + 1;
              (s', ev) = applyPut key value rev (s\<lparr>currentRevision := rev\<rparr>)
          in (s', rev, [ev]))"

definition removeFact :: "string \<Rightarrow> Fact \<Rightarrow> int \<Rightarrow> MemoryStore \<Rightarrow> MemoryStore \<times> Event" where
  "removeFact key existing revision s =
     (s\<lparr>facts := (facts s)(key := None), keyIndex := fst (trieRemove key (keyIndex s))\<rparr>,
      \<lparr>EvType = EventDelete, EvFact = zeroFact\<lparr>Key := key, Revision := revision\<rparr>,
       EvPrev = Some existing\<rparr>)"

definition DeleteData :: "string \<Rightarrow> MemoryStore \<Rightarrow> MemoryStore \<times> (StoreError + unit) \<times> Event list" where
  "DeleteData key s =
     (case facts s key of
        None \<Rightarrow> (s, Inl ErrKeyNotFound, [])
      | Some existing \<Rightarrow>
          let rev = currentRevision s + 1;
              (s', ev) = removeFact key existing rev (s\<lparr>currentRevision := rev\<rparr>)
          in (s', Inr (), [ev]))"

fun evaluateTransactionPreconditions :: "Compare list \<Rightarrow> (string \<rightharpoonup> Fact) \<Rightarrow> bool" where
  "evaluateTransactionPreconditions [] m = True"
| "evaluateTransactionPreconditions (c # cs) m =
     (if CmpRevision c = 0
      then (if m (CmpKey c) \<noteq> None then False else evaluateTransactionPreconditions cs m)
      else (case m (CmpKey c) of
              None \<Rightarrow> False
            | Some f \<Rightarrow> if Revision f \<noteq> CmpRevision c then False
                        else evaluateTransactionPreconditions cs m))"

definition opWouldMutate :: "(string \<rightharpoonup> Fact) \<Rightarrow> Op \<Rightarrow> bool" where
  "opWouldMutate m op =
     (case OpKind op of
        OpPut \<Rightarrow> (case m (OpKey op) of None \<Rightarrow> True | Some f \<Rightarrow> Value f \<noteq> OpValue op)
      | OpDelete \<Rightarrow> m (OpKey op) \<noteq> None)"

fun transactionWouldMutateState :: "Op list \<Rightarrow> (string \<rightharpoonup> Fact) \<Rightarrow> bool" where
  "transactionWouldMutateState [] m = False"
| "transactionWouldMutateState (op # ops) m =
     (if opWouldMutate m op then True else transactionWouldMutateState ops m)"

definition executePutOperation :: "Op \<Rightarrow> int \<Rightarrow> MemoryStore \<Rightarrow> MemoryStore \<times> Event option" where
  "executePutOperation op revision s =
     (case facts s (OpKey op) of
        Some f \<Rightarrow>
          if Value f = OpValue op then (s, None)
          else let (s', ev) = applyPut (OpKey op) (OpValue op) revision s in (s', Some ev)
      | None \<Rightarrow> let (s', ev) = applyPut (OpKey op) (OpValue op) revision s in (s', Some ev))"

definition executeDeleteOperation :: "Op \<Rightarrow> int \<Rightarrow> MemoryStore \<Rightarrow> MemoryStore \<times> Event option" where
  "executeDeleteOperation op revision s =
     (case facts s (OpKey op) of
        None \<Rightarrow> (s, None)
      | Some existing \<Rightarrow> let (s', ev) = removeFact (OpKey op) existing revision s in (s', Some ev))"

fun executeTransactionOperations :: "Op list \<Rightarrow> int \<Rightarrow> MemoryStore \<Rightarrow> MemoryStore \<times> Event list" where
  "executeTransactionOperations [] revision s = (s, [])"
| "executeTransactionOperations (op # ops) revision s =
     (let (s1, ev) = (case OpKind op of OpPut \<Rightarrow> executePutOperation op revision s
                                      | OpDelete \<Rightarrow> executeDeleteOperation op revision s);
          (s2, evs) = executeTransactionOperations ops revision s1
      in (s2, (case ev of None \<Rightarrow> evs | Some e \<Rightarrow> e # evs)))"

definition TransactionData :: "Compare list \<Rightarrow> Op list \<Rightarrow> Op list \<Rightarrow> MemoryStore \<Rightarrow>
    MemoryStore \<times> bool \<times> Event list" where
  "TransactionData compares onSuccess onFailure s =
     (let met = evaluateTransactionPreconditions compares (facts s);
          ops = (if met then onSuccess else onFailure);
          hasMutation = transactionWouldMutateState ops (facts s);
          revision = (if hasMutation then currentRevision s + 1 else 0);
          s1 = (if hasMutation then s\<lparr>currentRevision := revision\<rparr> else s);
          (s2, evs) = executeTransactionOperations ops revision s1
      in (s2, met, evs))"

text \<open>The whole operations: the data section, then the broadcasts.\<close>

abbreviation broadcastAll :: "Event list \<Rightarrow> MemoryStore \<Rightarrow> MemoryStore" where
  "broadcastAll evs s \<equiv> fold broadcastEvent evs s"

definition Put :: "string \<Rightarrow> string \<Rightarrow> MemoryStore \<Rightarrow> (StoreError + int) \<times> MemoryStore" where
  "Put key value s =
     (if isClosed s then (Inl ErrStoreClosed, s)
      else let (s', rev, evs) = PutData key value s in (Inr rev, broadcastAll evs s'))"

definition Delete :: "string \<Rightarrow> MemoryStore \<Rightarrow> (StoreError + unit) \<times> MemoryStore" where
  "Delete key s =
     (if isClosed s then (Inl ErrStoreClosed, s)
      else let (s', res, evs) = DeleteData key s in (res, broadcastAll evs s'))"

definition Transaction :: "Compare list \<Rightarrow> Op list \<Rightarrow> Op list \<Rightarrow> MemoryStore \<Rightarrow>
    (StoreError + bool) \<times> MemoryStore" where
  "Transaction compares onSuccess onFailure s =
     (if isClosed s then (Inl ErrStoreClosed, s)
      else let total = length compares + length onSuccess + length onFailure
           in if total > memoryStoreTransactionOperationLimit
              then (Inl (ErrTransactionTooLarge total), s)
              else let (s', met, evs) = TransactionData compares onSuccess onFailure s
                   in (Inr met, broadcastAll evs s'))"

text \<open>Leases: the memory store counts a grant as a revision and otherwise ignores them.\<close>

definition GrantLease :: "int \<Rightarrow> MemoryStore \<Rightarrow> int \<times> MemoryStore" where
  "GrantLease ttlSeconds s =
     (currentRevision s + 1, s\<lparr>currentRevision := currentRevision s + 1\<rparr>)"

definition PutWithLease :: "string \<Rightarrow> string \<Rightarrow> int \<Rightarrow> MemoryStore \<Rightarrow> (StoreError + int) \<times> MemoryStore" where
  "PutWithLease key value leaseID s = Put key value s"

definition RenewLease :: "int \<Rightarrow> MemoryStore \<Rightarrow> int" where
  "RenewLease leaseID s = 900"

definition RevokeLease :: "int \<Rightarrow> MemoryStore \<Rightarrow> MemoryStore" where
  "RevokeLease leaseID s = s"

subsection \<open>Watches\<close>

definition watchMatches :: "string \<Rightarrow> WatchOption \<Rightarrow> Event \<Rightarrow> bool" where
  "watchMatches key opts ev = matchesWatchPattern ev key (WatchPrefix opts)"

text \<open>The result is the new channel. When the start revision is gone, the goroutine that sends
  the compaction marker and closes the channel is run to its end: nobody else has the channel yet.\<close>

definition WatchData :: "string \<Rightarrow> WatchOption \<Rightarrow> MemoryStore \<Rightarrow> nat \<times> MemoryStore" where
  "WatchData key opts s =
     (let ref = length (channels s);
          ch = \<lparr>chCap = watchChannelBufferSize s, chBuf = [], chClosed = False\<rparr>;
          register = (\<lambda>c. s\<lparr>channels := channels s @ [c],
              activeWatchers := activeWatchers s @
                [\<lparr>keyPattern = key, matchByPrefix = WatchPrefix opts, eventChannel = ref,
                  overflowDetected = False\<rparr>]\<rparr>)
      in if StartRevision opts > 0
         then case eventsFromRevision (StartRevision opts) (eventHistory s) of
                None \<Rightarrow> (ref, s\<lparr>channels := channels s @
                  [ch\<lparr>chBuf := [zeroEvent EventCompacted], chClosed := True\<rparr>]\<rparr>)
              | Some evs \<Rightarrow>
                  (ref, register (fold (\<lambda>ev c. fst (trySend ev c))
                    (filter (watchMatches key opts) evs) ch))
         else (ref, register ch))"

definition Watch :: "string \<Rightarrow> WatchOption \<Rightarrow> MemoryStore \<Rightarrow> (StoreError + nat) \<times> MemoryStore" where
  "Watch key opts s =
     (if isClosed s then (Inl ErrStoreClosed, s)
      else let (ref, s') = WatchData key opts s in (Inr ref, s'))"

text \<open>\<open>close(ch)\<close>.\<close>

definition closeChannel :: "nat \<Rightarrow> MemoryStore \<Rightarrow> MemoryStore" where
  "closeChannel ref s =
     s\<lparr>channels := (channels s)[ref := (channels s ! ref)\<lparr>chClosed := True\<rparr>],
       panicked := panicked s \<or> chClosed (channels s ! ref)\<rparr>"

fun removeFirstWatcher :: "nat \<Rightarrow> factWatcher list \<Rightarrow> factWatcher list" where
  "removeFirstWatcher ref [] = []"
| "removeFirstWatcher ref (w # ws) = (if eventChannel w = ref then ws else w # removeFirstWatcher ref ws)"

definition removeWatcher :: "nat \<Rightarrow> MemoryStore \<Rightarrow> MemoryStore" where
  "removeWatcher ref s =
     (if \<exists>w\<in>set (activeWatchers s). eventChannel w = ref
      then closeChannel ref (s\<lparr>activeWatchers := removeFirstWatcher ref (activeWatchers s)\<rparr>)
      else s)"

definition Close :: "MemoryStore \<Rightarrow> MemoryStore" where
  "Close s =
     (if isClosed s then s
      else (fold (\<lambda>w. closeChannel (eventChannel w)) (activeWatchers s) (s\<lparr>isClosed := True\<rparr>))
             \<lparr>activeWatchers := []\<rparr>)"

text \<open>The consumer's side of a channel: receive one buffered event.\<close>

definition receive :: "nat \<Rightarrow> MemoryStore \<Rightarrow> Event option \<times> MemoryStore" where
  "receive ref s =
     (case chBuf (channels s ! ref) of
        [] \<Rightarrow> (None, s)
      | e # es \<Rightarrow> (Some e, s\<lparr>channels := (channels s)[ref := (channels s ! ref)\<lparr>chBuf := es\<rparr>]\<rparr>))"

subsection \<open>Invariants of the data and of the channels\<close>

definition dataInv :: "MemoryStore \<Rightarrow> bool" where
  "dataInv s \<longleftrightarrow>
     trie.indexes (keyIndex s) (dom (facts s)) \<and> 0 \<le> currentRevision s \<and>
     (\<forall>k f. facts s k = Some f \<longrightarrow>
        Key f = k \<and> 0 < CreateRevision f \<and> CreateRevision f \<le> Revision f \<and>
        Revision f \<le> currentRevision s)"

text \<open>Every active watcher has an open channel of its own, so no broadcast sends on a closed
  channel and no channel is closed twice.\<close>

definition chanInv :: "MemoryStore \<Rightarrow> bool" where
  "chanInv s \<longleftrightarrow>
     distinct (map eventChannel (activeWatchers s)) \<and> \<not> panicked s \<and>
     (\<forall>c\<in>set (map eventChannel (activeWatchers s)).
        c < length (channels s) \<and> \<not> chClosed (channels s ! c))"

lemma dataInv_new: "dataInv NewMemoryStore"
  by (simp add: dataInv_def NewMemoryStore_def trie.indexes_new)

lemma chanInv_new: "chanInv NewMemoryStore"
  by (simp add: chanInv_def NewMemoryStore_def)

lemma trySend_simps [simp]:
  "chClosed (fst (trySend e ch)) = chClosed ch" "chCap (fst (trySend e ch)) = chCap ch"
  by (simp_all add: trySend_def)

lemma deliver_simps [simp]:
  "eventChannel (fst (deliver e w ch)) = eventChannel w"
  "keyPattern (fst (deliver e w ch)) = keyPattern w"
  "matchByPrefix (fst (deliver e w ch)) = matchByPrefix w"
  "chClosed (snd (deliver e w ch)) = chClosed ch"
  "chCap (snd (deliver e w ch)) = chCap ch"
  by (simp_all add: deliver_def split_beta Let_def)

lemma broadcastLoop_frame:
  "broadcastLoop ev ws chans p = (ws', chans', p') \<Longrightarrow>
     map eventChannel ws' = map eventChannel ws \<and> length chans' = length chans \<and>
     (\<forall>i. chClosed (chans' ! i) = chClosed (chans ! i)) \<and>
     ((\<forall>w\<in>set ws. \<not> chClosed (chans ! eventChannel w)) \<longrightarrow> p' = p)"
proof (induction ws arbitrary: chans p ws' chans' p')
  case (Cons w ws)
  let ?ch = "snd (deliver ev w (chans ! eventChannel w))"
  have nth: "chClosed (chans[eventChannel w := ?ch] ! i) = chClosed (chans ! i)" for i
    by (cases "eventChannel w < length chans") (auto simp: nth_list_update list_update_beyond)
  show ?case
  proof (cases "matchesWatchPattern ev (keyPattern w) (matchByPrefix w)")
    case True
    obtain ws1 chans1 p1 where
      r: "broadcastLoop ev ws (chans[eventChannel w := ?ch]) (p \<or> chClosed (chans ! eventChannel w)) =
        (ws1, chans1, p1)"
      by (metis prod.exhaust)
    from Cons.prems True r Cons.IH [OF r] nth show ?thesis by (auto simp: split_beta Let_def)
  next
    case False
    obtain ws1 chans1 p1 where r: "broadcastLoop ev ws chans p = (ws1, chans1, p1)"
      by (metis prod.exhaust)
    from Cons.prems False r Cons.IH [OF r] show ?thesis by auto
  qed
qed simp

lemma broadcastEvent_simps [simp]:
  "facts (broadcastEvent ev s) = facts s" "keyIndex (broadcastEvent ev s) = keyIndex s"
  "currentRevision (broadcastEvent ev s) = currentRevision s"
  "isClosed (broadcastEvent ev s) = isClosed s"
  by (simp_all add: broadcastEvent_def split_beta)

lemma broadcastAll_simps [simp]:
  "facts (broadcastAll evs s) = facts s" "keyIndex (broadcastAll evs s) = keyIndex s"
  "currentRevision (broadcastAll evs s) = currentRevision s"
  "isClosed (broadcastAll evs s) = isClosed s"
  by (induction evs arbitrary: s) simp_all

lemma dataInv_cong:
  "facts s' = facts s \<Longrightarrow> keyIndex s' = keyIndex s \<Longrightarrow> currentRevision s \<le> currentRevision s' \<Longrightarrow>
     dataInv s \<Longrightarrow> dataInv s'"
  unfolding dataInv_def by (metis order_trans)

lemma dataInv_broadcastEvent [simp]: "dataInv s \<Longrightarrow> dataInv (broadcastEvent ev s)"
  by (rule dataInv_cong [of _ s]) simp_all

lemma chanInv_cong:
  "activeWatchers s' = activeWatchers s \<Longrightarrow> channels s' = channels s \<Longrightarrow> panicked s' = panicked s \<Longrightarrow>
     chanInv s \<Longrightarrow> chanInv s'"
  by (simp add: chanInv_def)

lemma chanInv_broadcastEvent: "chanInv s \<Longrightarrow> chanInv (broadcastEvent ev s)"
proof -
  assume inv: "chanInv s"
  obtain ws chans p where
    r: "broadcastLoop ev (activeWatchers s) (channels s) (panicked s) = (ws, chans, p)"
    by (metis prod.exhaust)
  note fr = broadcastLoop_frame [OF r]
  have "map eventChannel ws = map eventChannel (activeWatchers s)" using fr by simp
  moreover have "p = panicked s" using fr inv by (auto simp: chanInv_def)
  moreover have "activeWatchers (broadcastEvent ev s) = ws" "channels (broadcastEvent ev s) = chans"
    "panicked (broadcastEvent ev s) = p"
    by (simp_all add: broadcastEvent_def r)
  ultimately show ?thesis
    using inv fr by (simp add: chanInv_def del: set_map)
qed

lemma dataInv_factD:
  "dataInv s \<Longrightarrow> facts s k = Some f \<Longrightarrow> Key f = k \<and> 0 < Revision f \<and> Revision f \<le> currentRevision s"
  unfolding dataInv_def by fastforce

lemma dataInv_applyPut:
  assumes "dataInv s" and "0 < r" and "r \<le> currentRevision s"
    and "\<And>f. facts s k = Some f \<Longrightarrow> Revision f \<le> r"
  shows "dataInv (fst (applyPut k v r s))"
  using assms trie.indexes_ins [of "keyIndex s" "dom (facts s)" k]
  by (fastforce simp: dataInv_def applyPut_def Let_def split: option.splits)

lemma dataInv_removeFact: "dataInv s \<Longrightarrow> dataInv (fst (removeFact k f r s))"
  using trie.indexes_del [of "keyIndex s" "dom (facts s)" k]
  by (fastforce simp: dataInv_def removeFact_def)

text \<open>What the data sections leave alone.\<close>

definition sameWatchers :: "MemoryStore \<Rightarrow> MemoryStore \<Rightarrow> bool" where
  "sameWatchers s s' \<longleftrightarrow>
     activeWatchers s' = activeWatchers s \<and> channels s' = channels s \<and> panicked s' = panicked s \<and>
     eventHistory s' = eventHistory s \<and> isClosed s' = isClosed s \<and>
     watchChannelBufferSize s' = watchChannelBufferSize s"

text \<open>A data section only writes facts at revisions the store has not given out before.\<close>

definition freshWrites :: "MemoryStore \<Rightarrow> MemoryStore \<Rightarrow> bool" where
  "freshWrites s s' \<longleftrightarrow> currentRevision s \<le> currentRevision s' \<and>
     (\<forall>k f. facts s' k = Some f \<longrightarrow> facts s k = Some f \<or> currentRevision s < Revision f)"

lemma sameWatchers_refl [simp]: "sameWatchers s s"
  by (simp add: sameWatchers_def)

lemma sameWatchers_trans: "sameWatchers s t \<Longrightarrow> sameWatchers t u \<Longrightarrow> sameWatchers s u"
  by (simp add: sameWatchers_def)

lemma sameWatchers_chanInv: "sameWatchers s s' \<Longrightarrow> chanInv s \<Longrightarrow> chanInv s'"
  by (simp add: sameWatchers_def chanInv_def)

lemma freshWrites_refl [simp]: "freshWrites s s"
  by (simp add: freshWrites_def)

lemma freshWrites_trans: "freshWrites s t \<Longrightarrow> freshWrites t u \<Longrightarrow> freshWrites s u"
  unfolding freshWrites_def by (metis order_le_less_trans order_trans)

lemma applyPut_simps [simp]:
  "currentRevision (fst (applyPut k v r s)) = currentRevision s"
  "sameWatchers s (fst (applyPut k v r s))"
  "facts (fst (applyPut k v r s)) j = (if j = k then Some (EvFact (snd (applyPut k v r s))) else facts s j)"
  "Key (EvFact (snd (applyPut k v r s))) = k" "Value (EvFact (snd (applyPut k v r s))) = v"
  "Revision (EvFact (snd (applyPut k v r s))) = r"
  "EvType (snd (applyPut k v r s)) = EventPut" "EvPrev (snd (applyPut k v r s)) = facts s k"
  by (simp_all add: applyPut_def Let_def sameWatchers_def)

lemma removeFact_simps [simp]:
  "currentRevision (fst (removeFact k f r s)) = currentRevision s"
  "sameWatchers s (fst (removeFact k f r s))"
  "facts (fst (removeFact k f r s)) j = (if j = k then None else facts s j)"
  "Key (EvFact (snd (removeFact k f r s))) = k"
  "Revision (EvFact (snd (removeFact k f r s))) = r"
  "EvType (snd (removeFact k f r s)) = EventDelete" "EvPrev (snd (removeFact k f r s)) = Some f"
  by (simp_all add: removeFact_def sameWatchers_def)

text \<open>One operation of a transaction.\<close>

definition executeOperation :: "Op \<Rightarrow> int \<Rightarrow> MemoryStore \<Rightarrow> MemoryStore \<times> Event option" where
  "executeOperation op r s =
     (case OpKind op of OpPut \<Rightarrow> executePutOperation op r s | OpDelete \<Rightarrow> executeDeleteOperation op r s)"

lemma executeOperation_cases [consumes 1, case_names put delete noop]:
  assumes "executeOperation op r s = (s', ev)"
  obtains (put) "OpKind op = OpPut" "opWouldMutate (facts s) op"
      "s' = fst (applyPut (OpKey op) (OpValue op) r s)"
      "ev = Some (snd (applyPut (OpKey op) (OpValue op) r s))"
    | (delete) f where "OpKind op = OpDelete" "opWouldMutate (facts s) op" "facts s (OpKey op) = Some f"
      "s' = fst (removeFact (OpKey op) f r s)" "ev = Some (snd (removeFact (OpKey op) f r s))"
    | (noop) "\<not> opWouldMutate (facts s) op" "s' = s" "ev = None"
  using assms
  by (cases "OpKind op"; cases "facts s (OpKey op)")
     (auto simp: executeOperation_def executePutOperation_def executeDeleteOperation_def
        opWouldMutate_def split_beta split: if_splits)

lemma executeTransactionOperations_Cons:
  "executeTransactionOperations (op # ops) r s =
     (let (s1, ev) = executeOperation op r s; (s2, evs) = executeTransactionOperations ops r s1
      in (s2, (case ev of None \<Rightarrow> evs | Some e \<Rightarrow> e # evs)))"
  by (simp add: executeOperation_def)

declare executeTransactionOperations.simps(2) [simp del]

lemma executeOperation_frame:
  assumes "executeOperation op r s = (s', ev)"
  shows "currentRevision s' = currentRevision s \<and> sameWatchers s s' \<and>
    (\<forall>k f. facts s' k = Some f \<longrightarrow> facts s k = Some f \<or> Revision f = r)"
  using assms by (cases rule: executeOperation_cases) auto

lemma executeOperation_dataInv:
  assumes "executeOperation op r s = (s', ev)" and "dataInv s" and "0 < r" and "r = currentRevision s"
  shows "dataInv s'"
  using assms(1)
proof (cases rule: executeOperation_cases)
  case put
  with assms show ?thesis by (auto intro!: dataInv_applyPut dest: dataInv_factD)
qed (use assms in \<open>auto intro: dataInv_removeFact\<close>)

lemma exec_frame:
  assumes "executeTransactionOperations ops r s = (s', evs)"
  shows "currentRevision s' = currentRevision s \<and> sameWatchers s s' \<and>
    (\<forall>k f. facts s' k = Some f \<longrightarrow> facts s k = Some f \<or> Revision f = r)"
  using assms
proof (induction ops arbitrary: s evs)
  case (Cons op ops)
  obtain s1 ev where s1: "executeOperation op r s = (s1, ev)" by (metis prod.exhaust)
  obtain s2 evs' where s2: "executeTransactionOperations ops r s1 = (s2, evs')" by (metis prod.exhaust)
  have eq: "s2 = s'" using Cons.prems s1 s2 by (simp add: executeTransactionOperations_Cons)
  from Cons.IH [OF s2 [unfolded eq]] executeOperation_frame [OF s1] show ?case
    by (metis sameWatchers_trans)
qed simp

lemma exec_dataInv:
  assumes "executeTransactionOperations ops r s = (s', evs)" and "dataInv s" and "0 < r"
    and "r = currentRevision s"
  shows "dataInv s'"
  using assms
proof (induction ops arbitrary: s evs)
  case (Cons op ops)
  obtain s1 ev where s1: "executeOperation op r s = (s1, ev)" by (metis prod.exhaust)
  obtain s2 evs' where s2: "executeTransactionOperations ops r s1 = (s2, evs')" by (metis prod.exhaust)
  have eq: "s2 = s'" using Cons.prems s1 s2 by (simp add: executeTransactionOperations_Cons)
  from Cons.IH [OF s2 [unfolded eq]] executeOperation_frame [OF s1] executeOperation_dataInv [OF s1] Cons.prems
  show ?case by simp
qed simp

lemma exec_noop:
  "\<not> transactionWouldMutateState ops (facts s) \<Longrightarrow> executeTransactionOperations ops r s = (s, [])"
proof (induction ops)
  case (Cons op ops)
  obtain s1 ev where s1: "executeOperation op r s = (s1, ev)" by (metis prod.exhaust)
  from Cons.prems have "\<not> opWouldMutate (facts s) op" by (auto split: if_splits)
  with s1 have "s1 = s \<and> ev = None" by (cases rule: executeOperation_cases) auto
  with Cons s1 show ?case by (auto simp: executeTransactionOperations_Cons split: if_splits)
qed simp

text \<open>The three data sections: each keeps the data invariant, touches no watcher, and writes only
  at a fresh revision.\<close>

lemma PutData_eq:
  "PutData k v s =
     (if \<exists>f. facts s k = Some f \<and> Value f = v then (s, Revision (the (facts s k)), [])
      else let r = currentRevision s + 1; (s', ev) = applyPut k v r (s\<lparr>currentRevision := r\<rparr>)
           in (s', r, [ev]))"
  by (auto simp: PutData_def split: option.splits)

lemma bump_simps [simp]:
  "facts (s\<lparr>currentRevision := r\<rparr>) = facts s" "sameWatchers s (s\<lparr>currentRevision := r\<rparr>)"
  by (simp_all add: sameWatchers_def)

lemma dataInv_bump: "dataInv s \<Longrightarrow> currentRevision s \<le> r \<Longrightarrow> dataInv (s\<lparr>currentRevision := r\<rparr>)"
  by (rule dataInv_cong [of _ s]) simp_all

lemma sameWatchers_bump:
  "sameWatchers (s\<lparr>currentRevision := r\<rparr>) s' \<longleftrightarrow> sameWatchers s s'"
  by (simp add: sameWatchers_def)

lemma dataInv_nonneg: "dataInv s \<Longrightarrow> 0 \<le> currentRevision s"
  by (simp add: dataInv_def)

lemma PutData_step:
  assumes "PutData k v s = (s', r, evs)" and "dataInv s"
  shows "dataInv s' \<and> sameWatchers s s' \<and> freshWrites s s'"
proof (cases "\<exists>f. facts s k = Some f \<and> Value f = v")
  case True
  with assms show ?thesis by (auto simp: PutData_eq)
next
  case False
  let ?r = "currentRevision s + 1"
  let ?s = "s\<lparr>currentRevision := ?r\<rparr>"
  from False assms(1) have s': "s' = fst (applyPut k v ?r ?s)"
    unfolding PutData_eq if_not_P [OF False] by (auto simp: split_beta Let_def)
  have "dataInv s'"
    unfolding s' using assms(2) dataInv_nonneg [OF assms(2)] dataInv_factD [OF assms(2)]
    by (intro dataInv_applyPut dataInv_bump) fastforce+
  moreover have "sameWatchers s s'"
    using applyPut_simps(2) [of ?s k v ?r] unfolding s' sameWatchers_bump .
  ultimately show ?thesis by (auto simp: s' freshWrites_def)
qed

lemma DeleteData_step:
  assumes "DeleteData k s = (s', res, evs)" and "dataInv s"
  shows "dataInv s' \<and> sameWatchers s s' \<and> freshWrites s s'"
proof (cases "facts s k")
  case None
  with assms show ?thesis by (simp add: DeleteData_def)
next
  case (Some f)
  let ?r = "currentRevision s + 1"
  let ?s = "s\<lparr>currentRevision := ?r\<rparr>"
  from Some assms(1) have s': "s' = fst (removeFact k f ?r ?s)"
    by (simp add: DeleteData_def split_beta Let_def)
  have "sameWatchers s s'" using removeFact_simps(2) [of ?s k f ?r] unfolding s' sameWatchers_bump .
  then show ?thesis
    using assms(2) dataInv_removeFact [OF dataInv_bump [OF assms(2), of ?r], of k f ?r]
    by (auto simp: s' freshWrites_def)
qed

lemma TransactionData_step:
  assumes "TransactionData cmps succ fail s = (s', met, evs)" and "dataInv s"
  shows "dataInv s' \<and> sameWatchers s s' \<and> freshWrites s s'"
proof -
  define ops where "ops = (if evaluateTransactionPreconditions cmps (facts s) then succ else fail)"
  show ?thesis
  proof (cases "transactionWouldMutateState ops (facts s)")
    case False
    with assms(1) exec_noop [OF False] show ?thesis
      using assms(2) by (simp add: TransactionData_def ops_def [symmetric] Let_def)
  next
    case True
    let ?r = "currentRevision s + 1"
    let ?s = "s\<lparr>currentRevision := ?r\<rparr>"
    from assms(1) True have ex: "executeTransactionOperations ops ?r ?s = (s', evs)"
      by (auto simp: TransactionData_def ops_def [symmetric] Let_def split: prod.splits)
    have "dataInv s'"
      using exec_dataInv [OF ex dataInv_bump [OF assms(2)]] dataInv_nonneg [OF assms(2)] by simp
    then show ?thesis
      using exec_frame [OF ex] by (fastforce simp: sameWatchers_bump freshWrites_def)
  qed
qed

subsection \<open>Interleaved runs\<close>

text \<open>The state of a run: the store, and per thread the events it has committed but not yet
  broadcast. A thread's data section and each of its broadcasts are separate steps, because they
  hold different locks; the check for a closed store comes before the lock, so a data section may
  also run after \<open>Close\<close>.\<close>

type_synonym memState = "MemoryStore \<times> Event list list"

inductive mem_step :: "memState \<Rightarrow> memState \<Rightarrow> bool" where
  put: "PutData k v s = (s', r, evs) \<Longrightarrow> mem_step (s, P) (s', P @ [evs])"
| delete: "DeleteData k s = (s', res, evs) \<Longrightarrow> mem_step (s, P) (s', P @ [evs])"
| transaction: "TransactionData cmps succ fail s = (s', met, evs) \<Longrightarrow> mem_step (s, P) (s', P @ [evs])"
| broadcast: "i < length P \<Longrightarrow> P ! i = ev # evs \<Longrightarrow> mem_step (s, P) (broadcastEvent ev s, P[i := evs])"
| lease: "GrantLease ttl s = (l, s') \<Longrightarrow> mem_step (s, P) (s', P)"
| watch: "WatchData k opts s = (ref, s') \<Longrightarrow> mem_step (s, P) (s', P)"
| cancel: "mem_step (s, P) (removeWatcher ref s, P)"
| close: "mem_step (s, P) (Close s, P)"
| receive: "receive ref s = (res, s') \<Longrightarrow> mem_step (s, P) (s', P)"

inductive mem_reachable :: "memState \<Rightarrow> bool" where
  start: "mem_reachable (NewMemoryStore, [])"
| step: "mem_reachable st \<Longrightarrow> mem_step st st' \<Longrightarrow> mem_reachable st'"

inductive mem_steps :: "memState \<Rightarrow> memState \<Rightarrow> bool" where
  none: "mem_steps st st"
| more: "mem_steps st st' \<Longrightarrow> mem_step st' st'' \<Longrightarrow> mem_steps st st''"

lemma WatchData_frame:
  "WatchData k opts s = (ref, s') \<Longrightarrow>
     facts s' = facts s \<and> keyIndex s' = keyIndex s \<and> currentRevision s' = currentRevision s"
  by (auto simp: WatchData_def Let_def split: if_splits option.splits)

lemma fold_trySend_closed [simp]: "chClosed (fold (\<lambda>ev c. fst (trySend ev c)) evs ch) = chClosed ch"
  by (induction evs arbitrary: ch) simp_all

lemma chanInv_addWatcher:
  assumes "chanInv s" and "\<not> chClosed c" and "eventChannel w = length (channels s)"
  shows "chanInv (s\<lparr>channels := channels s @ [c], activeWatchers := activeWatchers s @ [w]\<rparr>)"
  using assms by (auto simp: chanInv_def nth_append)

lemma chanInv_addChannel: "chanInv s \<Longrightarrow> chanInv (s\<lparr>channels := channels s @ [c]\<rparr>)"
  by (auto simp: chanInv_def nth_append)

lemma chanInv_WatchData: "chanInv s \<Longrightarrow> WatchData k opts s = (ref, s') \<Longrightarrow> chanInv s'"
  by (auto simp: WatchData_def Let_def intro: chanInv_addWatcher chanInv_addChannel
      split: if_splits option.splits)

lemma closeChannel_frame [simp]:
  "facts (closeChannel ref s) = facts s" "keyIndex (closeChannel ref s) = keyIndex s"
  "currentRevision (closeChannel ref s) = currentRevision s"
  "activeWatchers (closeChannel ref s) = activeWatchers s"
  "isClosed (closeChannel ref s) = isClosed s"
  "length (channels (closeChannel ref s)) = length (channels s)"
  by (simp_all add: closeChannel_def)

lemma removeFirstWatcher_channels:
  "map eventChannel (removeFirstWatcher ref ws) = remove1 ref (map eventChannel ws)"
  by (induction ws) auto

lemma removeWatcher_frame:
  "facts (removeWatcher ref s) = facts s" "keyIndex (removeWatcher ref s) = keyIndex s"
  "currentRevision (removeWatcher ref s) = currentRevision s"
  by (simp_all add: removeWatcher_def)

lemma chanInv_removeWatcher:
  assumes "chanInv s"
  shows "chanInv (removeWatcher ref s)"
proof (cases "ref \<in> set (map eventChannel (activeWatchers s))")
  case True
  then have ex: "\<exists>w\<in>set (activeWatchers s). eventChannel w = ref" by auto
  let ?cs = "map eventChannel (activeWatchers s)"
  have d: "distinct ?cs" using assms by (simp add: chanInv_def)
  have "map eventChannel (activeWatchers (removeWatcher ref s)) = remove1 ref ?cs"
    using ex by (simp add: removeWatcher_def removeFirstWatcher_channels)
  with assms True d ex show ?thesis
    unfolding chanInv_def
    by (auto simp: removeWatcher_def closeChannel_def simp del: set_map)
next
  case False
  then have "removeWatcher ref s = s" by (auto simp: removeWatcher_def)
  with assms show ?thesis by simp
qed

lemma closeAll_frame:
  "facts (fold (\<lambda>w. closeChannel (eventChannel w)) ws s) = facts s"
  "keyIndex (fold (\<lambda>w. closeChannel (eventChannel w)) ws s) = keyIndex s"
  "currentRevision (fold (\<lambda>w. closeChannel (eventChannel w)) ws s) = currentRevision s"
  by (induction ws arbitrary: s) simp_all

lemma closeAll_no_panic:
  "distinct (map eventChannel ws) \<Longrightarrow> \<forall>w\<in>set ws. \<not> chClosed (channels s ! eventChannel w) \<Longrightarrow>
     panicked (fold (\<lambda>w. closeChannel (eventChannel w)) ws s) = panicked s"
proof (induction ws arbitrary: s)
  case (Cons w ws)
  have "\<not> chClosed (channels (closeChannel (eventChannel w) s) ! eventChannel v)" if "v \<in> set ws" for v
  proof -
    from that Cons.prems(1) have "eventChannel w \<noteq> eventChannel v" by (auto simp: image_iff)
    with that Cons.prems(2) show ?thesis by (simp add: closeChannel_def)
  qed
  then have "\<forall>v\<in>set ws. \<not> chClosed (channels (closeChannel (eventChannel w) s) ! eventChannel v)"
    by blast
  moreover have "panicked (closeChannel (eventChannel w) s) = panicked s"
    using Cons.prems by (simp add: closeChannel_def)
  ultimately show ?case using Cons by simp
qed simp

lemma chanInv_Close: "chanInv s \<Longrightarrow> chanInv (Close s)"
  using closeAll_no_panic [of "activeWatchers s" "s\<lparr>isClosed := True\<rparr>"]
  by (auto simp: chanInv_def Close_def)

lemma Close_frame: "facts (Close s) = facts s" "keyIndex (Close s) = keyIndex s"
  "currentRevision (Close s) = currentRevision s"
  by (simp_all add: Close_def closeAll_frame)

lemma receive_frame:
  "receive ref s = (res, s') \<Longrightarrow>
     facts s' = facts s \<and> keyIndex s' = keyIndex s \<and> currentRevision s' = currentRevision s"
  by (auto simp: receive_def split: list.splits)

lemma chanInv_receive: "chanInv s \<Longrightarrow> receive ref s = (res, s') \<Longrightarrow> chanInv s'"
proof -
  assume inv: "chanInv s" and r: "receive ref s = (res, s')"
  have closed: "chClosed ((channels s)[ref := (channels s ! ref)\<lparr>chBuf := es\<rparr>] ! c) = chClosed (channels s ! c)"
    for es c
    by (cases "c = ref"; cases "ref < length (channels s)") (simp_all add: list_update_beyond)
  from inv r show ?thesis
    by (cases "chBuf (channels s ! ref)") (auto simp: receive_def chanInv_def closed)
qed

lemma mem_step_inv:
  assumes "mem_step st st'" and "dataInv (fst st)"
  shows "dataInv (fst st') \<and> (chanInv (fst st) \<longrightarrow> chanInv (fst st')) \<and> freshWrites (fst st) (fst st')"
  using assms
proof (induction rule: mem_step.induct)
  case (put k v s s' r evs P)
  then show ?case using PutData_step [of k v s] by (auto intro: sameWatchers_chanInv)
next
  case (delete k s s' res evs P)
  then show ?case using DeleteData_step [of k s] by (auto intro: sameWatchers_chanInv)
next
  case (transaction cmps succ fail s s' met evs P)
  then show ?case using TransactionData_step [of cmps succ fail s] by (auto intro: sameWatchers_chanInv)
next
  case (broadcast i P ev evs s)
  then show ?case by (auto simp: freshWrites_def intro: chanInv_broadcastEvent)
next
  case (lease ttl s l s' P)
  then show ?case
    by (auto simp: GrantLease_def freshWrites_def dataInv_bump intro: chanInv_cong [rotated 3])
next
  case (watch k opts s ref s' P)
  then show ?case using WatchData_frame [of k opts s ref s']
    by (auto simp: freshWrites_def intro: chanInv_WatchData dataInv_cong [of _ s])
next
  case (cancel s P ref)
  then show ?case
    by (auto simp: freshWrites_def removeWatcher_frame intro: chanInv_removeWatcher dataInv_cong [of _ s])
next
  case (close s P)
  then show ?case
    by (auto simp: freshWrites_def Close_frame intro: chanInv_Close dataInv_cong [of _ s])
next
  case (receive ref s res s' P)
  then show ?case using receive_frame [of ref s res s']
    by (auto simp: freshWrites_def intro: chanInv_receive dataInv_cong [of _ s])
qed

lemma mem_reachable_inv: "mem_reachable st \<Longrightarrow> dataInv (fst st) \<and> chanInv (fst st)"
proof (induction rule: mem_reachable.induct)
  case (step st st')
  then show ?case using mem_step_inv by blast
qed (simp add: dataInv_new chanInv_new)

lemma mem_steps_inv:
  assumes "mem_steps st st'" and "dataInv (fst st)"
  shows "dataInv (fst st') \<and> freshWrites (fst st) (fst st')"
  using assms
proof (induction rule: mem_steps.induct)
  case (more st st' st'')
  then show ?case using mem_step_inv freshWrites_trans by blast
qed simp

lemma reachable_steps: "mem_reachable st \<Longrightarrow> mem_steps st st' \<Longrightarrow> mem_reachable st'"
  by (rotate_tac 1, induction rule: mem_steps.induct) (auto intro: mem_reachable.step)

subsection \<open>What the operations compute\<close>

text \<open>The abstract store: a map from keys to values, and one operation on it.\<close>

definition storeValues :: "MemoryStore \<Rightarrow> string \<rightharpoonup> string" where
  "storeValues s = (\<lambda>k. map_option Value (facts s k))"

definition specOp :: "Op \<Rightarrow> (string \<rightharpoonup> string) \<Rightarrow> (string \<rightharpoonup> string)" where
  "specOp op m = m(OpKey op := (case OpKind op of OpPut \<Rightarrow> Some (OpValue op) | OpDelete \<Rightarrow> None))"

definition preconditionsHold :: "Compare list \<Rightarrow> (string \<rightharpoonup> Fact) \<Rightarrow> bool" where
  "preconditionsHold cs m \<longleftrightarrow>
     (\<forall>c\<in>set cs. if CmpRevision c = 0 then m (CmpKey c) = None
                  else map_option Revision (m (CmpKey c)) = Some (CmpRevision c))"

text \<open>What a consumer of the event stream does with an event to keep its own copy of the facts.\<close>

definition applyEvent :: "Event \<Rightarrow> (string \<rightharpoonup> Fact) \<Rightarrow> (string \<rightharpoonup> Fact)" where
  "applyEvent ev m =
     (case EvType ev of
        EventPut \<Rightarrow> m(Key (EvFact ev) \<mapsto> EvFact ev)
      | EventDelete \<Rightarrow> m(Key (EvFact ev) := None)
      | _ \<Rightarrow> m)"

lemma evaluateTransactionPreconditions_iff:
  "evaluateTransactionPreconditions cs m \<longleftrightarrow> preconditionsHold cs m"
  by (induction cs) (auto simp: preconditionsHold_def split: option.splits)

lemma executeOperation_values:
  assumes "executeOperation op r s = (s', ev)"
  shows "storeValues s' = specOp op (storeValues s)"
  using assms
proof (cases rule: executeOperation_cases)
  case noop
  then show ?thesis
    by (auto simp: storeValues_def specOp_def opWouldMutate_def fun_eq_iff split: OpType.splits option.splits)
qed (auto simp: storeValues_def specOp_def)

lemma executeOperation_events:
  "executeOperation op r s = (s', ev) \<Longrightarrow>
     facts s' = (case ev of None \<Rightarrow> facts s | Some e \<Rightarrow> applyEvent e (facts s)) \<and>
     (\<forall>e. ev = Some e \<longrightarrow> Revision (EvFact e) = r \<and> EvType e \<in> {EventPut, EventDelete})"
  by (cases rule: executeOperation_cases) (auto simp: applyEvent_def)

lemma exec_values_events:
  assumes "executeTransactionOperations ops r s = (s', evs)"
  shows "storeValues s' = fold specOp ops (storeValues s) \<and> facts s' = fold applyEvent evs (facts s) \<and>
    (\<forall>e\<in>set evs. Revision (EvFact e) = r \<and> EvType e \<in> {EventPut, EventDelete})"
  using assms
proof (induction ops arbitrary: s evs)
  case (Cons op ops)
  obtain s1 ev where s1: "executeOperation op r s = (s1, ev)" by (metis prod.exhaust)
  obtain s2 evs' where s2: "executeTransactionOperations ops r s1 = (s2, evs')" by (metis prod.exhaust)
  have eq: "s2 = s'" and evs: "evs = (case ev of None \<Rightarrow> evs' | Some e \<Rightarrow> e # evs')"
    using Cons.prems s1 s2 by (simp_all add: executeTransactionOperations_Cons)
  from Cons.IH [OF s2 [unfolded eq]] executeOperation_values [OF s1] executeOperation_events [OF s1]
  show ?case by (auto simp: evs split: option.splits)
qed simp

text \<open>The three data sections once more: the events they hand to the broadcast are the change.\<close>

lemma PutData_events:
  "PutData k v s = (s', r, evs) \<Longrightarrow>
     facts s' = fold applyEvent evs (facts s) \<and> storeValues s' = (storeValues s)(k \<mapsto> v) \<and>
     (\<exists>f. facts s' k = Some f \<and> Value f = v \<and> Revision f = r) \<and>
     (\<forall>e\<in>set evs. Revision (EvFact e) = currentRevision s' \<and> currentRevision s < currentRevision s')"
  unfolding PutData_eq
  by (auto simp: split_beta Let_def applyEvent_def storeValues_def fun_eq_iff split: if_splits)

lemma PutData_frame:
  "PutData k v s = (s', r, evs) \<Longrightarrow> isClosed s' = isClosed s \<and>
     (\<forall>j. j \<noteq> k \<longrightarrow> facts s' j = facts s j) \<and> currentRevision s' \<le> currentRevision s + 1"
  unfolding PutData_eq by (auto simp: split_beta Let_def applyPut_def split: if_splits)

lemma PutData_closed: "PutData k v s = (s', r, evs) \<Longrightarrow> isClosed s' = isClosed s"
  using PutData_frame by blast

lemma PutData_dom: "PutData k v s = (s', r, evs) \<Longrightarrow> dom (facts s') = insert k (dom (facts s))"
  unfolding PutData_eq by (auto simp: split_beta Let_def applyPut_def split: if_splits)

lemma reachable_put:
  "mem_reachable (s, P) \<Longrightarrow> PutData k v s = (s', r, evs) \<Longrightarrow> mem_reachable (s', P @ [evs])"
  by (rule mem_reachable.step [OF _ mem_step.put])

lemma NewMemoryStore_simps [simp]:
  "facts NewMemoryStore = Map.empty" "isClosed NewMemoryStore = False" "currentRevision NewMemoryStore = 0"
  by (simp_all add: NewMemoryStore_def)

lemma DeleteData_events:
  "DeleteData k s = (s', res, evs) \<Longrightarrow>
     facts s' = fold applyEvent evs (facts s) \<and> storeValues s' = (storeValues s)(k := None) \<and>
     (\<forall>e\<in>set evs. Revision (EvFact e) = currentRevision s' \<and> currentRevision s < currentRevision s')"
  by (auto simp: DeleteData_def split_beta Let_def applyEvent_def storeValues_def fun_eq_iff split: option.splits)

lemma TransactionData_events:
  assumes "TransactionData cmps succ fail s = (s', met, evs)"
  shows "met = preconditionsHold cmps (facts s) \<and>
    storeValues s' = fold specOp (if met then succ else fail) (storeValues s) \<and>
    facts s' = fold applyEvent evs (facts s) \<and>
    (\<forall>e\<in>set evs. Revision (EvFact e) = currentRevision s' \<and> currentRevision s < currentRevision s')"
proof -
  define ops where "ops = (if evaluateTransactionPreconditions cmps (facts s) then succ else fail)"
  have met: "met = preconditionsHold cmps (facts s)" and ops: "ops = (if met then succ else fail)"
    using assms by (simp_all add: TransactionData_def ops_def Let_def split_beta
        evaluateTransactionPreconditions_iff)
  show ?thesis
  proof (cases "transactionWouldMutateState ops (facts s)")
    case False
    from exec_noop [OF False, of 0] False assms have "s' = s" "evs = []"
      by (simp_all add: TransactionData_def ops_def [symmetric] Let_def)
    with exec_values_events [OF exec_noop [OF False, of 0]] met ops show ?thesis by simp
  next
    case True
    let ?r = "currentRevision s + 1"
    let ?s = "s\<lparr>currentRevision := ?r\<rparr>"
    from assms True have ex: "executeTransactionOperations ops ?r ?s = (s', evs)"
      by (auto simp: TransactionData_def ops_def [symmetric] Let_def split: prod.splits)
    have "storeValues ?s = storeValues s" by (simp add: storeValues_def)
    with exec_values_events [OF ex] exec_frame [OF ex] met ops show ?thesis by auto
  qed
qed

lemma collectFactPointers_exact:
  assumes "dataInv s"
  shows "map Key (collectFactPointers p s) =
      sorted_list_of_set {k \<in> dom (facts s). k \<noteq> [] \<and> prefix p k}"
    and "\<forall>f\<in>set (collectFactPointers p s). facts s (Key f) = Some f"
proof -
  from assms have ix: "trie.indexes (keyIndex s) (dom (facts s))" by (simp add: dataInv_def)
  have keys: "KeysWithPrefix p (keyIndex s) = sorted_list_of_set {k \<in> dom (facts s). k \<noteq> [] \<and> prefix p k}"
    using trie.keys_eq [OF ix] by simp
  have "\<exists>f. facts s k = Some f \<and> Key f = k" if "k \<in> set (KeysWithPrefix p (keyIndex s))" for k
    using that trie.keys_set [OF ix] dataInv_factD [OF assms] by auto
  then have f: "facts s k = Some (the (facts s k)) \<and> Key (the (facts s k)) = k"
    if "k \<in> set (KeysWithPrefix p (keyIndex s))" for k
    using that by fastforce
  have c: "collectFactPointers p s = map (\<lambda>k. the (facts s k)) (KeysWithPrefix p (keyIndex s))"
    unfolding collectFactPointers_def
  proof (rule map_cong [OF refl])
    fix k
    assume "k \<in> set (KeysWithPrefix p (keyIndex s))"
    with f have "facts s k = Some (the (facts s k))" by simp
    then show "(case facts s k of None \<Rightarrow> zeroFact | Some f \<Rightarrow> f) = the (facts s k)"
      by (metis option.simps(5))
  qed
  show "map Key (collectFactPointers p s) =
      sorted_list_of_set {k \<in> dom (facts s). k \<noteq> [] \<and> prefix p k}"
    unfolding c keys [symmetric] using f by (auto intro: map_idI)
  show "\<forall>f\<in>set (collectFactPointers p s). facts s (Key f) = Some f"
    unfolding c using f by auto
qed

lemma TransactionData_revisions:
  assumes "TransactionData cmps succ fail s = (s', met, evs)"
  shows "currentRevision s' \<in> {currentRevision s, currentRevision s + 1} \<and>
    (\<forall>k. facts s' k \<noteq> facts s k \<longrightarrow>
       currentRevision s' = currentRevision s + 1 \<and>
       (\<forall>f. facts s' k = Some f \<longrightarrow> Revision f = currentRevision s'))"
proof -
  define ops where "ops = (if evaluateTransactionPreconditions cmps (facts s) then succ else fail)"
  show ?thesis
  proof (cases "transactionWouldMutateState ops (facts s)")
    case False
    from exec_noop [OF False, of 0] False assms have "s' = s"
      by (simp add: TransactionData_def ops_def [symmetric] Let_def)
    then show ?thesis by simp
  next
    case True
    let ?r = "currentRevision s + 1"
    from assms True have ex: "executeTransactionOperations ops ?r (s\<lparr>currentRevision := ?r\<rparr>) = (s', evs)"
      by (auto simp: TransactionData_def ops_def [symmetric] Let_def split: prod.splits)
    from exec_frame [OF ex] show ?thesis by fastforce
  qed
qed

subsection \<open>Properties\<close>

text \<open>C3. In every state that any interleaving of writers, broadcasts, watches, cancellations,
  receives and \<open>Close\<close> can reach: the index holds exactly the keys of the facts; every fact is stored under its own key with
  \<open>0 < CreateRevision \<le> Revision \<le> currentRevision\<close>; every active watcher owns an open channel
  of its own; and no send on a closed channel and no second close has happened.\<close>

theorem mem_reachable_safe:
  assumes "mem_reachable (s, P)"
  shows "dataInv s \<and> chanInv s \<and> \<not> panicked s"
  using mem_reachable_inv [OF assms] by (simp add: chanInv_def)

theorem mem_reachable_safe_witness:
  "\<exists>s. mem_reachable (s, [[]]) \<and> facts s ''a'' \<noteq> None \<and> dataInv s \<and> chanInv s \<and> \<not> panicked s"
proof -
  define s1 where "s1 = snd (WatchData ''a'' \<lparr>WatchPrefix = True, StartRevision = 0\<rparr> NewMemoryStore)"
  obtain s2 r evs where put: "PutData ''a'' ''1'' s1 = (s2, r, evs)" by (metis prod.exhaust)
  then obtain ev where evs: "evs = [ev]"
    by (auto simp: PutData_def s1_def WatchData_def NewMemoryStore_def split_beta Let_def)
  have "mem_reachable (s1, [])"
    using mem_reachable.step [OF mem_reachable.start mem_step.watch [where s' = s1]]
    by (metis prod.collapse s1_def)
  then have "mem_reachable (s2, [[ev]])"
    using mem_reachable.step [OF _ mem_step.put [OF put, of "[]"]] evs by simp
  then have "mem_reachable (broadcastEvent ev s2, [[]])"
    using mem_reachable.step [OF _ mem_step.broadcast [of 0 "[[ev]]" ev "[]" s2]] by simp
  with mem_reachable_safe PutData_events [OF put] show ?thesis
    by (intro exI [of _ "broadcastEvent ev s2"]) auto
qed

text \<open>C30. \<open>Scan\<close> of an open store returns exactly the stored facts whose (non-empty) key has the
  prefix, in ascending key order, whatever interleaving of operations led to the state.\<close>

theorem Scan_exact:
  assumes "mem_reachable (s, P)" and "\<not> isClosed s"
  shows "\<exists>fs. Scan p s = Inr fs \<and>
    map Key fs = sorted_list_of_set {k \<in> dom (facts s). k \<noteq> [] \<and> prefix p k} \<and>
    (\<forall>f\<in>set fs. facts s (Key f) = Some f)"
  using collectFactPointers_exact mem_reachable_inv [OF assms(1)] assms(2) by (simp add: Scan_def)

theorem Scan_exact_witness:
  "\<exists>s fs. dom (facts s) = {''b'', ''ab'', ''aa''} \<and> Scan ''a'' s = Inr fs \<and> map Key fs = [''aa'', ''ab'']"
proof -
  obtain s1 r1 e1 where p1: "PutData ''b'' ''1'' NewMemoryStore = (s1, r1, e1)" by (metis prod.exhaust)
  obtain s2 r2 e2 where p2: "PutData ''ab'' ''1'' s1 = (s2, r2, e2)" by (metis prod.exhaust)
  obtain s r3 e3 where p3: "PutData ''aa'' ''1'' s2 = (s, r3, e3)" by (metis prod.exhaust)
  note reach = reachable_put [OF reachable_put [OF reachable_put [OF mem_reachable.start p1] p2] p3]
  have dom: "dom (facts s) = {''b'', ''ab'', ''aa''}"
    using PutData_dom [OF p1] PutData_dom [OF p2] PutData_dom [OF p3] by auto
  have closed: "\<not> isClosed s"
    using PutData_closed [OF p1] PutData_closed [OF p2] PutData_closed [OF p3] by simp
  have "{k \<in> {''b'', ''ab'', ''aa''}. k \<noteq> [] \<and> prefix ''a'' k} = set [''aa'', ''ab'']" by auto
  then have "sorted_list_of_set {k \<in> dom (facts s). k \<noteq> [] \<and> prefix ''a'' k} = [''aa'', ''ab'']"
    unfolding dom by (simp only: sorted_list_of_set.idem_if_sorted_distinct) simp
  with Scan_exact [OF reach closed, of "''a''"] dom show ?thesis by metis
qed

text \<open>C2. A revision identifies a version: if a key holds a fact and at any later moment, after
  any steps of any threads, holds a fact with the same revision, it is the same fact. Hence
  comparing revisions detects every intermediate change, deletion and re-creation included.\<close>

theorem revision_identifies_fact:
  assumes "mem_reachable st" and "mem_steps st st'"
    and "facts (fst st) k = Some f" and "facts (fst st') k = Some g" and "Revision g = Revision f"
  shows "g = f"
proof -
  from mem_reachable_inv [OF assms(1)] have inv: "dataInv (fst st)" by simp
  from mem_steps_inv [OF assms(2) inv] assms(4)
  have "facts (fst st) k = Some g \<or> currentRevision (fst st) < Revision g"
    by (auto simp: freshWrites_def)
  moreover have "\<not> currentRevision (fst st) < Revision g"
    using dataInv_factD [OF inv assms(3)] unfolding assms(5) by linarith
  ultimately show ?thesis unfolding assms(3) by simp
qed

theorem revision_identifies_fact_witness:
  "\<exists>st st' f. mem_reachable st \<and> mem_steps st st' \<and> st \<noteq> st' \<and>
     facts (fst st) ''a'' = Some f \<and> facts (fst st') ''a'' = Some f"
proof -
  obtain s1 r1 e1 where p1: "PutData ''a'' ''1'' NewMemoryStore = (s1, r1, e1)" by (metis prod.exhaust)
  obtain s2 r2 e2 where p2: "PutData ''b'' ''1'' s1 = (s2, r2, e2)" by (metis prod.exhaust)
  have r: "mem_reachable (s1, [e1])" using reachable_put [OF mem_reachable.start p1] by simp
  have st: "mem_steps (s1, [e1]) (s2, [e1, e2])"
    using mem_steps.more [OF mem_steps.none mem_step.put [OF p2, of "[e1]"]] by simp
  obtain f where f: "facts s1 ''a'' = Some f" using PutData_events [OF p1] by auto
  have "facts s2 ''a'' = facts s1 ''a''" using PutData_frame [OF p2] by simp
  with f obtain g where g: "facts s2 ''a'' = Some g" and same: "Revision g = Revision f" by simp
  from revision_identifies_fact [OF r st, of "''a''" f g] f g same have "g = f" by simp
  with r st f g show ?thesis by (intro exI [of _ "(s1, [e1])"] exI [of _ "(s2, [e1, e2])"] exI) auto
qed



text \<open>C33. \<open>Put\<close> and \<open>Get\<close> round trip: after a successful \<open>Put\<close> the key reads back with the value and
  the revision that was returned, every other fact is unchanged, the store's revision moves by
  at most one, and repeating the same \<open>Put\<close> returns the same revision and changes nothing.\<close>

theorem Put_Get_idempotent:
  assumes "Put k v s = (Inr r, s')"
  shows "(\<exists>f. Get k s' = Inr f \<and> Value f = v \<and> Revision f = r) \<and>
    (\<forall>j. j \<noteq> k \<longrightarrow> Get j s' = Get j s) \<and>
    currentRevision s' \<le> currentRevision s + 1 \<and>
    Put k v s' = (Inr r, s')"
proof -
  from assms have open_s: "\<not> isClosed s" by (auto simp: Put_def split: if_splits)
  obtain t evs where t: "PutData k v s = (t, r, evs)" and s': "s' = broadcastAll evs t"
    using assms open_s by (auto simp: Put_def split: prod.splits)
  from PutData_events [OF t] obtain f where f: "facts s' k = Some f" "Value f = v" "Revision f = r"
    unfolding s' by auto
  have closed: "isClosed s' = isClosed s"
    using PutData_closed [OF t] by (simp add: s')
  have others: "facts s' j = facts s j" if "j \<noteq> k" for j
    using PutData_frame [OF t] that by (simp add: s')
  have rev: "currentRevision s' \<le> currentRevision s + 1"
    using PutData_frame [OF t] by (simp add: s')
  have "PutData k v s' = (s', r, [])" using f by (simp add: PutData_def)
  with f closed open_s others rev show ?thesis by (auto simp: Get_def Put_def)
qed

theorem Put_Get_idempotent_witness:
  "\<exists>s' f. Put ''a'' ''1'' NewMemoryStore = (Inr 1, s') \<and> Get ''a'' s' = Inr f \<and> Value f = ''1''"
proof -
  obtain s' where s': "Put ''a'' ''1'' NewMemoryStore = (Inr 1, s')"
    by (simp add: Put_def PutData_def NewMemoryStore_def split_beta Let_def)
  from Put_Get_idempotent [OF s'] s' show ?thesis by auto
qed

end
