(* ===== verification/Watch_Stream.thy ===== *)
theory Watch_Stream
  imports Memory_Store
begin

text \<open>
  What a watcher sees: the delivery of events over a bounded channel with its overflow marker, the
  ring buffer of recent events as a window on the log of broadcasts, and the replay of that window
  to a watcher that resumes from a revision.
\<close>

subsection \<open>Delivery over a bounded channel\<close>

text \<open>A run of one watcher: the store delivers events, the consumer receives. The third component
  is what the consumer has received so far.\<close>

datatype chanAct = Deliver Event | Receive

fun chanStep :: "chanAct \<Rightarrow> factWatcher \<times> EventChan \<times> Event list \<Rightarrow> factWatcher \<times> EventChan \<times> Event list" where
  "chanStep (Deliver ev) (w, ch, got) = (let (w', ch') = deliver ev w ch in (w', ch', got))"
| "chanStep Receive (w, ch, got) =
     (case chBuf ch of [] \<Rightarrow> (w, ch, got) | e # es \<Rightarrow> (w, ch\<lparr>chBuf := es\<rparr>, got @ [e]))"

definition delivered :: "chanAct list \<Rightarrow> Event list" where
  "delivered acts = concat (map (\<lambda>a. case a of Deliver ev \<Rightarrow> [ev] | Receive \<Rightarrow> []) acts)"

definition isMarker :: "Event \<Rightarrow> bool" where
  "isMarker ev \<longleftrightarrow> EvType ev = EventOverflow"

text \<open>The part of a stream after its last marker.\<close>

definition afterMarker :: "Event list \<Rightarrow> Event list" where
  "afterMarker es = rev (takeWhile (\<lambda>e. \<not> isMarker e) (rev es))"

lemma afterMarker_snoc: "afterMarker (es @ [e]) = (if isMarker e then [] else afterMarker es @ [e])"
  by (simp add: afterMarker_def)

lemma afterMarker_none: "\<forall>e\<in>set es. \<not> isMarker e \<Longrightarrow> afterMarker es = es"
  by (simp add: afterMarker_def takeWhile_eq_all_conv [THEN iffD2])

lemma isMarker_zeroEvent [simp]: "isMarker (zeroEvent EventOverflow)"
  by (simp add: isMarker_def zeroEvent_def)

lemma delivered_snoc [simp]:
  "delivered (acts @ [Deliver ev]) = delivered acts @ [ev]" "delivered (acts @ [Receive]) = delivered acts"
  by (simp_all add: delivered_def)

text \<open>The run invariant: the data events of the stream are a subsequence of what was delivered,
  and while no loss is pending the events after the last marker are its most recent ones.\<close>

definition streamInv :: "Event list \<Rightarrow> factWatcher \<times> EventChan \<times> Event list \<Rightarrow> bool" where
  "streamInv evs st \<longleftrightarrow>
     (case st of (w, ch, got) \<Rightarrow>
        let stream = got @ chBuf ch
        in length (chBuf ch) \<le> chCap ch \<and>
           subseq (filter (\<lambda>e. \<not> isMarker e) stream) evs \<and>
           (\<not> overflowDetected w \<longrightarrow> suffix (afterMarker stream) evs \<and>
              (filter isMarker stream = [] \<longrightarrow> stream = evs)))"

lemma subseq_snoc: "subseq xs ys \<Longrightarrow> subseq (xs @ [e]) (ys @ [e])" "subseq xs ys \<Longrightarrow> subseq xs (ys @ [e])"
  by (auto intro: list_emb_append_mono subseq_order.trans)

lemma streamInv_deliver:
  assumes "streamInv evs (w, ch, got)" and "\<not> isMarker ev"
  shows "streamInv (evs @ [ev]) (chanStep (Deliver ev) (w, ch, got))"
  using assms
  by (auto simp: streamInv_def deliver_def trySend_def Let_def afterMarker_snoc subseq_snoc
      afterMarker_none simp flip: append_assoc split: if_splits)

lemma streamInv_receive: "streamInv evs (w, ch, got) \<Longrightarrow> streamInv evs (chanStep Receive (w, ch, got))"
  by (auto simp: streamInv_def Let_def split: list.splits)

lemma streamInv_run:
  "\<forall>ev\<in>set (delivered acts). \<not> isMarker ev \<Longrightarrow>
     streamInv [] st0 \<Longrightarrow> streamInv (delivered acts) (fold chanStep acts st0)"
proof (induction acts rule: rev_induct)
  case (snoc a acts)
  obtain w ch got where st: "fold chanStep acts st0 = (w, ch, got)" by (metis prod.exhaust)
  show ?case
  proof (cases a)
    case (Deliver ev)
    with snoc st streamInv_deliver [of "delivered acts" w ch got ev] show ?thesis by auto
  next
    case Receive
    with snoc st streamInv_receive [of "delivered acts" w ch got] show ?thesis by auto
  qed
qed (simp add: delivered_def)

definition freshWatch :: "string \<Rightarrow> bool \<Rightarrow> nat \<Rightarrow> factWatcher \<times> EventChan \<times> Event list" where
  "freshWatch pat byPrefix n =
     (\<lparr>keyPattern = pat, matchByPrefix = byPrefix, eventChannel = 0, overflowDetected = False\<rparr>,
      \<lparr>chCap = n, chBuf = [], chClosed = False\<rparr>, [])"

lemma streamInv_fresh: "streamInv [] (freshWatch pat byPrefix n)"
  by (simp add: streamInv_def freshWatch_def afterMarker_def)

subsection \<open>The ring buffer as a window on the log\<close>

abbreviation evRev :: "Event \<Rightarrow> int" where
  "evRev ev \<equiv> Revision (EvFact ev)"

definition historyOf :: "nat \<Rightarrow> Event list \<Rightarrow> eventHistoryBuffer" where
  "historyOf n log = fold (\<lambda>ev. historyAppend (evRev ev) ev) log (newEventHistoryBuffer n)"

definition lastN :: "nat \<Rightarrow> 'a list \<Rightarrow> 'a list" where
  "lastN n xs = drop (length xs - n) xs"

definition ringInv :: "nat \<Rightarrow> Event list \<Rightarrow> eventHistoryBuffer \<Rightarrow> bool" where
  "ringInv n log b \<longleftrightarrow>
     length (entries b) = n \<and> entryCount b = min n (length log) \<and> writeIndex b = length log mod n \<and>
     (\<forall>j<length log. length log \<le> j + n \<longrightarrow>
        entries b ! (j mod n) = \<lparr>heRevision = evRev (log ! j), heEvent = log ! j\<rparr>)"

lemma mod_window_distinct:
  fixes i j n :: nat
  assumes "i < j" and "j < i + n"
  shows "i mod n \<noteq> j mod n"
proof
  assume "i mod n = j mod n"
  then have "j mod n = i mod n" by simp
  with assms(1) have "n dvd j - i" by (subst mod_eq_dvd_iff_nat [symmetric]) simp_all
  with assms show False using nat_dvd_not_less [of "j - i" n] by simp
qed

lemma ringInv_append:
  assumes "ringInv n log b" and "0 < n"
  shows "ringInv n (log @ [ev]) (historyAppend (evRev ev) ev b)"
proof -
  let ?m = "length log"
  have "entries (historyAppend (evRev ev) ev b) ! (j mod n) =
      \<lparr>heRevision = evRev ((log @ [ev]) ! j), heEvent = (log @ [ev]) ! j\<rparr>"
    if j: "j < Suc ?m" "Suc ?m \<le> j + n" for j
  proof (cases "j = ?m")
    case True
    with assms show ?thesis by (simp add: ringInv_def historyAppend_def)
  next
    case False
    with j have "j < ?m" by simp
    with j have "j mod n \<noteq> ?m mod n" by (intro mod_window_distinct) auto
    with \<open>j < ?m\<close> j assms show ?thesis by (simp add: ringInv_def historyAppend_def nth_append)
  qed
  with assms show ?thesis
    by (auto simp: ringInv_def historyAppend_def mod_Suc_eq)
qed

lemma ringInv_historyOf: "0 < n \<Longrightarrow> ringInv n log (historyOf n log)"
proof (induction log rule: rev_induct)
  case Nil
  then show ?case by (simp add: ringInv_def historyOf_def newEventHistoryBuffer_def)
next
  case (snoc ev log)
  then show ?case using ringInv_append [of n log "historyOf n log" ev] by (simp add: historyOf_def)
qed

lemma ring_window:
  assumes "ringInv n log b" and "0 < n"
  defines "oldest \<equiv> if entryCount b = length (entries b) then writeIndex b else 0"
  shows "map (\<lambda>i. entries b ! ((oldest + i) mod length (entries b))) [0..<entryCount b] =
    map (\<lambda>ev. \<lparr>heRevision = evRev ev, heEvent = ev\<rparr>) (lastN n log)"
proof (rule nth_equalityI)
  show "length (map (\<lambda>i. entries b ! ((oldest + i) mod length (entries b))) [0..<entryCount b]) =
    length (map (\<lambda>ev. \<lparr>heRevision = evRev ev, heEvent = ev\<rparr>) (lastN n log))"
    using assms by (simp add: ringInv_def lastN_def)
next
  fix i
  assume "i < length (map (\<lambda>i. entries b ! ((oldest + i) mod length (entries b))) [0..<entryCount b])"
  then have i: "i < n" "i < length log" using assms(1) by (simp_all add: ringInv_def)
  let ?j = "length log - n + i"
  have j: "?j < length log" "length log \<le> ?j + n" using i by auto
  have "(oldest + i) mod n = ?j mod n"
  proof (cases "n \<le> length log")
    case True
    with assms(1) have "oldest = length log mod n" by (simp add: oldest_def ringInv_def)
    moreover have "length log mod n = (length log - n) mod n" using True by (simp add: le_mod_geq)
    ultimately show ?thesis by (simp add: mod_add_left_eq)
  next
    case False
    with assms(1) show ?thesis by (auto simp: oldest_def ringInv_def)
  qed
  with j i assms(1) show "map (\<lambda>i. entries b ! ((oldest + i) mod length (entries b))) [0..<entryCount b] ! i =
      map (\<lambda>ev. \<lparr>heRevision = evRev ev, heEvent = ev\<rparr>) (lastN n log) ! i"
    by (simp add: ringInv_def lastN_def)
qed

lemma eventsFromRevision_window:
  assumes "0 < n"
  shows "eventsFromRevision r (historyOf n log) =
    (case lastN n log of
       [] \<Rightarrow> Some []
     | oldest # _ \<Rightarrow> if r < evRev oldest then None
                     else Some (filter (\<lambda>ev. r \<le> evRev ev) (lastN n log)))"
proof -
  let ?b = "historyOf n log"
  let ?e = "\<lambda>ev. \<lparr>heRevision = evRev ev, heEvent = ev\<rparr>"
  define o' where "o' = (if entryCount ?b = length (entries ?b) then writeIndex ?b else 0)"
  note inv = ringInv_historyOf [OF assms, of log]
  note win = ring_window [OF inv assms, folded o'_def]
  show ?thesis
  proof (cases "lastN n log")
    case Nil
    with assms have "log = []" by (simp add: lastN_def) (metis diff_less leD length_greater_0_conv)
    with inv Nil show ?thesis by (simp add: eventsFromRevision_def ringInv_def)
  next
    case (Cons a rest)
    have len: "entryCount ?b \<noteq> 0" "0 < length (entries ?b)"
      using inv Cons assms by (auto simp: ringInv_def lastN_def)
    have "o' < length (entries ?b)" using inv assms len by (auto simp: o'_def ringInv_def)
    moreover have "entries ?b ! ((o' + 0) mod length (entries ?b)) = ?e a"
      using arg_cong [OF win, of hd] Cons len by (simp add: hd_map)
    ultimately have "heRevision (entries ?b ! o') = evRev a" by simp
    with len Cons show ?thesis
      unfolding eventsFromRevision_def Let_def o'_def [symmetric] win
      by (simp add: filter_map comp_def)
  qed
qed

subsection \<open>Serial runs\<close>

text \<open>A client that issues one operation after another: each operation broadcasts before the next
  one starts. The log collects the broadcast events.\<close>

datatype memCmd = CPut string string | CDelete string | CTransaction "Compare list" "Op list" "Op list"
  | CGrantLease int | CWatch string WatchOption | CCancel nat | CReceive nat

fun runCmd :: "memCmd \<Rightarrow> MemoryStore \<times> Event list \<Rightarrow> MemoryStore \<times> Event list" where
  "runCmd (CPut k v) (s, log) = (snd (Put k v s), log @ snd (snd (PutData k v s)))"
| "runCmd (CDelete k) (s, log) = (snd (Delete k s), log @ snd (snd (DeleteData k s)))"
| "runCmd (CTransaction c a b) (s, log) =
     (snd (Transaction c a b s),
      log @ (if length c + length a + length b > memoryStoreTransactionOperationLimit then []
             else snd (snd (TransactionData c a b s))))"
| "runCmd (CGrantLease ttl) (s, log) = (snd (GrantLease ttl s), log)"
| "runCmd (CWatch k opts) (s, log) = (snd (Watch k opts s), log)"
| "runCmd (CCancel ref) (s, log) = (removeWatcher ref s, log)"
| "runCmd (CReceive ref) (s, log) = (snd (receive ref s), log)"

definition logInv :: "MemoryStore \<times> Event list \<Rightarrow> bool" where
  "logInv st \<longleftrightarrow>
     (case st of (s, log) \<Rightarrow>
        \<not> isClosed s \<and> facts s = fold applyEvent log Map.empty \<and>
        eventHistory s = historyOf defaultEventHistoryCapacity log \<and>
        sorted (map evRev log) \<and> (\<forall>ev\<in>set log. evRev ev \<le> currentRevision s))"

lemma historyOf_append: "historyOf n (log @ evs) = fold (\<lambda>ev. historyAppend (evRev ev) ev) evs (historyOf n log)"
  by (simp add: historyOf_def)

lemma broadcastAll_history:
  "eventHistory (broadcastAll evs s) = fold (\<lambda>ev. historyAppend (evRev ev) ev) evs (eventHistory s)"
  by (induction evs arbitrary: s) (simp_all add: broadcastEvent_def split_beta)

text \<open>One data section followed by its broadcasts.\<close>

lemma logInv_section:
  assumes "logInv (s, log)" and "sameWatchers s t" and "currentRevision s \<le> currentRevision t"
    and "facts t = fold applyEvent evs (facts s)"
    and "\<forall>e\<in>set evs. evRev e = currentRevision t \<and> currentRevision s < currentRevision t"
  shows "logInv (broadcastAll evs t, log @ evs)"
proof -
  have "sorted (map evRev evs)" using assms(5) by (induction evs) auto
  moreover have "evRev a \<le> evRev e" if "a \<in> set log" "e \<in> set evs" for a e
    using that assms(1,5) by (fastforce simp: logInv_def)
  ultimately have "sorted (map evRev (log @ evs))" using assms(1) by (auto simp: sorted_append logInv_def)
  moreover have "eventHistory t = eventHistory s" "isClosed t = isClosed s"
    using assms(2) by (simp_all add: sameWatchers_def)
  moreover have "\<forall>ev\<in>set (log @ evs). evRev ev \<le> currentRevision t"
    using assms(1,3,5) by (auto simp: logInv_def)
  ultimately show ?thesis
    using assms(1,4) by (simp add: logInv_def historyOf_append broadcastAll_history)
qed

lemma logInv_frame:
  "logInv (s, log) \<Longrightarrow> facts t = facts s \<Longrightarrow> isClosed t = isClosed s \<Longrightarrow> eventHistory t = eventHistory s \<Longrightarrow>
     currentRevision s \<le> currentRevision t \<Longrightarrow> logInv (t, log)"
  by (fastforce simp: logInv_def)

lemma Watch_rest: "eventHistory (snd (Watch k opts s)) = eventHistory s \<and> isClosed (snd (Watch k opts s)) = isClosed s
    \<and> facts (snd (Watch k opts s)) = facts s \<and> currentRevision (snd (Watch k opts s)) = currentRevision s"
  by (auto simp: Watch_def WatchData_def Let_def split: option.splits)

lemma runCmd_inv:
  assumes "logInv st" and "dataInv (fst st)"
  shows "logInv (runCmd c st) \<and> dataInv (fst (runCmd c st))"
proof -
  obtain s log where st: "st = (s, log)" by (cases st)
  from assms st have L: "logInv (s, log)" and D: "dataInv s" by simp_all
  have open_s: "\<not> isClosed s" using L by (simp add: logInv_def)
  note bc = dataInv_cong [of "broadcastAll evs t" t for evs t, simplified]
  show ?thesis
  proof (cases c)
    case (CPut k v)
    obtain t r evs where t: "PutData k v s = (t, r, evs)" by (metis prod.exhaust)
    from PutData_step [OF t D] PutData_events [OF t] logInv_section [OF L, of t evs] open_s show ?thesis
      by (simp add: CPut st Put_def t freshWrites_def bc)
  next
    case (CDelete k)
    obtain t r evs where t: "DeleteData k s = (t, r, evs)" by (metis prod.exhaust)
    from DeleteData_step [OF t D] DeleteData_events [OF t] logInv_section [OF L, of t evs] open_s show ?thesis
      by (simp add: CDelete st Delete_def t freshWrites_def bc)
  next
    case (CTransaction cs a b)
    obtain t r evs where t: "TransactionData cs a b s = (t, r, evs)" by (metis prod.exhaust)
    from TransactionData_step [OF t D] TransactionData_events [OF t] logInv_section [OF L, of t evs] open_s L D
    show ?thesis
      by (simp add: CTransaction st Transaction_def t freshWrites_def bc Let_def)
  next
    case (CGrantLease ttl)
    with L D show ?thesis
      by (auto simp: st GrantLease_def dataInv_bump intro: logInv_frame)
  next
    case (CWatch k opts)
    have "keyIndex (snd (Watch k opts s)) = keyIndex s"
      by (auto simp: Watch_def WatchData_def Let_def split: option.splits)
    with CWatch L D Watch_rest [of k opts s] show ?thesis
      by (auto simp: st intro: logInv_frame dataInv_cong [of _ s])
  next
    case (CCancel ref)
    have "eventHistory (removeWatcher ref s) = eventHistory s" "isClosed (removeWatcher ref s) = isClosed s"
      by (simp_all add: removeWatcher_def closeChannel_def)
    with CCancel L D show ?thesis
      by (auto simp: st removeWatcher_frame intro: logInv_frame dataInv_cong [of _ s])
  next
    case (CReceive ref)
    have "eventHistory (snd (receive ref s)) = eventHistory s" "isClosed (snd (receive ref s)) = isClosed s"
      by (simp_all add: receive_def split: list.splits)
    with CReceive L D receive_frame [of ref s "fst (receive ref s)" "snd (receive ref s)"] show ?thesis
      by (auto simp: st intro: logInv_frame dataInv_cong [of _ s])
  qed
qed

lemma runCmds_inv: "logInv (fold runCmd cs (NewMemoryStore, [])) \<and> dataInv (fst (fold runCmd cs (NewMemoryStore, [])))"
proof (induction cs rule: rev_induct)
  case Nil
  then show ?case
    by (simp add: logInv_def dataInv_new) (simp add: NewMemoryStore_def historyOf_def)
next
  case (snoc c cs)
  then show ?case using runCmd_inv by simp
qed

lemma filter_lastN:
  assumes "sorted (map evRev log)" and "lastN n log = oldest # rest"
    and "evRev oldest < r \<or> length log \<le> n"
  shows "filter (\<lambda>ev. r \<le> evRev ev) (lastN n log) = filter (\<lambda>ev. r \<le> evRev ev) log"
proof (cases "length log \<le> n")
  case False
  let ?d = "take (length log - n) log"
  have log: "log = ?d @ oldest # rest" using assms(2) unfolding lastN_def by (metis append_take_drop_id)
  then have "evRev ev \<le> evRev oldest" if "ev \<in> set ?d" for ev
    using assms(1) that by (metis (no_types, lifting) imageI list.set_intros(1) list.set_map map_append sorted_append)
  with assms(3) False have "filter (\<lambda>ev. r \<le> evRev ev) ?d = []" by (fastforce simp: filter_empty_conv)
  then show ?thesis using log assms(2) by (metis append_Nil filter_append)
qed (simp add: lastN_def)

text \<open>The log only grows, by events of revisions the store had not reached before.\<close>

lemma runCmd_grows:
  assumes "dataInv s" and "\<not> isClosed s" and "runCmd c (s, log) = (t, log')"
  shows "currentRevision s \<le> currentRevision t \<and>
    (\<exists>new. log' = log @ new \<and> (\<forall>ev\<in>set new. currentRevision s < evRev ev))"
proof (cases c)
  case (CPut k v)
  obtain u r evs where u: "PutData k v s = (u, r, evs)" by (metis prod.exhaust)
  from PutData_step [OF u assms(1)] PutData_events [OF u] assms(2,3) show ?thesis
    by (auto simp: CPut Put_def u freshWrites_def)
next
  case (CDelete k)
  obtain u r evs where u: "DeleteData k s = (u, r, evs)" by (metis prod.exhaust)
  from DeleteData_step [OF u assms(1)] DeleteData_events [OF u] assms(2,3) show ?thesis
    by (auto simp: CDelete Delete_def u freshWrites_def)
next
  case (CTransaction cs a b)
  obtain u r evs where u: "TransactionData cs a b s = (u, r, evs)" by (metis prod.exhaust)
  from TransactionData_step [OF u assms(1)] TransactionData_events [OF u] assms(2,3) show ?thesis
    by (auto simp: CTransaction Transaction_def u freshWrites_def Let_def split: if_splits)
next
  case (CReceive ref)
  with assms(3) receive_frame [of ref s "fst (receive ref s)" "snd (receive ref s)"] show ?thesis by auto
qed (use assms(3) Watch_rest removeWatcher_frame in \<open>auto simp: GrantLease_def\<close>)

lemma runCmds_grow:
  assumes "logInv (s, log)" and "dataInv s" and "fold runCmd cs (s, log) = (t, log')"
  shows "currentRevision s \<le> currentRevision t \<and>
    (\<exists>new. log' = log @ new \<and> (\<forall>ev\<in>set new. currentRevision s < evRev ev))"
  using assms
proof (induction cs arbitrary: s log)
  case (Cons c cs)
  obtain u ulog where u: "runCmd c (s, log) = (u, ulog)" by (metis prod.exhaust)
  have inv: "logInv (u, ulog)" "dataInv u" using runCmd_inv [of "(s, log)" c] Cons.prems u by simp_all
  have "\<not> isClosed s" using Cons.prems(1) by (simp add: logInv_def)
  note g = runCmd_grows [OF Cons.prems(2) this u]
  from Cons.IH [OF inv] Cons.prems(3) u have
    "currentRevision u \<le> currentRevision t \<and>
     (\<exists>new. log' = ulog @ new \<and> (\<forall>ev\<in>set new. currentRevision u < evRev ev))"
    by simp
  with g show ?case by (force intro: order_trans)
qed simp

subsection \<open>Properties\<close>

text \<open>C4. Delivery never loses an event silently. In any run of deliveries and receives on a fresh
  watcher, the data events the consumer has received or still finds in its channel are a
  subsequence of the delivered events, the channel never exceeds its capacity, and as long as no
  loss is pending the events after the last overflow marker are the most recent deliveries without
  a gap (all of them when there is no marker).\<close>

theorem delivery_lossless_or_marked:
  assumes "\<forall>ev\<in>set (delivered acts). EvType ev \<noteq> EventOverflow"
    and "fold chanStep acts (freshWatch pat byPrefix n) = (w, ch, got)"
  shows "length (chBuf ch) \<le> n \<and>
    subseq (filter (\<lambda>e. EvType e \<noteq> EventOverflow) (got @ chBuf ch)) (delivered acts) \<and>
    (\<not> overflowDetected w \<longrightarrow>
       suffix (afterMarker (got @ chBuf ch)) (delivered acts) \<and>
       ((\<forall>e\<in>set (got @ chBuf ch). EvType e \<noteq> EventOverflow) \<longrightarrow> got @ chBuf ch = delivered acts))"
proof -
  have "chCap (fst (snd (fold chanStep acts st))) = chCap (fst (snd st))" for st
  proof (induction acts arbitrary: st)
    case (Cons a acts)
    obtain w ch got where "st = (w, ch, got)" by (cases st)
    then have "chCap (fst (snd (chanStep a st))) = chCap (fst (snd st))"
      by (cases a) (auto simp: split_beta split: list.splits)
    with Cons show ?case by simp
  qed simp
  then have "chCap ch = n" using assms(2) by (metis EventChan.select_convs(1) freshWatch_def fst_conv snd_conv)
  moreover have "streamInv (delivered acts) (w, ch, got)"
    using streamInv_run [OF _ streamInv_fresh, of acts pat byPrefix n] assms by (simp add: isMarker_def)
  ultimately show ?thesis by (simp add: streamInv_def isMarker_def filter_empty_conv Let_def)
qed

theorem delivery_lossless_or_marked_witness:
  "\<exists>w ch got. fold chanStep [Deliver (zeroEvent EventPut), Receive] (freshWatch ''a'' True 1) = (w, ch, got) \<and>
     \<not> overflowDetected w \<and> got @ chBuf ch = [zeroEvent EventPut]"
proof -
  let ?e = "zeroEvent EventPut"
  obtain w ch got where run: "fold chanStep [Deliver ?e, Receive] (freshWatch ''a'' True 1) = (w, ch, got)"
    by (metis prod.exhaust)
  then have "\<not> overflowDetected w \<and> (\<forall>e\<in>set (got @ chBuf ch). EvType e \<noteq> EventOverflow)"
    by (auto simp: freshWatch_def deliver_def trySend_def zeroEvent_def)
  with delivery_lossless_or_marked [OF _ run] run show ?thesis
    by (auto simp: delivered_def zeroEvent_def)
qed



text \<open>C35. The buffer may answer with part of a transaction: when exactly the first of two events of
  one revision has been evicted, a replay from that revision is accepted and starts with the
  second event, so the first is missing although the caller is told that nothing was compacted.\<close>

theorem replay_may_split_transaction:
  assumes "evRev a = evRev b"
  shows "eventsFromRevision (evRev a) (historyOf (Suc (length rest)) (a # b # rest)) =
    Some (b # filter (\<lambda>ev. evRev a \<le> evRev ev) rest)"
  using assms by (simp add: eventsFromRevision_window lastN_def)

theorem replay_may_split_transaction_witness:
  "let a = \<lparr>EvType = EventPut, EvFact = zeroFact\<lparr>Key := ''a'', Revision := 7\<rparr>, EvPrev = None\<rparr>;
       b = \<lparr>EvType = EventPut, EvFact = zeroFact\<lparr>Key := ''b'', Revision := 7\<rparr>, EvPrev = None\<rparr>
   in eventsFromRevision 7 (historyOf 1 [a, b]) = Some [b]"
  using replay_may_split_transaction
    [of "\<lparr>EvType = EventPut, EvFact = zeroFact\<lparr>Key := ''a'', Revision := 7\<rparr>, EvPrev = None\<rparr>"
        "\<lparr>EvType = EventPut, EvFact = zeroFact\<lparr>Key := ''b'', Revision := 7\<rparr>, EvPrev = None\<rparr>" "[]"]
  by (simp add: Let_def)

text \<open>A full channel drops every further replayed event.\<close>

lemma replay_fold:
  "length (chBuf ch) \<le> chCap ch \<Longrightarrow>
     chBuf (fold (\<lambda>ev c. fst (trySend ev c)) evs ch) = take (chCap ch) (chBuf ch @ evs)"
proof (induction evs arbitrary: ch)
  case (Cons ev evs)
  show ?case
  proof (cases "length (chBuf ch) < chCap ch")
    case True
    then have "trySend ev ch = (ch\<lparr>chBuf := chBuf ch @ [ev]\<rparr>, True)" by (simp add: trySend_def)
    with Cons.IH [of "ch\<lparr>chBuf := chBuf ch @ [ev]\<rparr>"] True show ?thesis by simp
  next
    case False
    with Cons show ?thesis by (simp add: trySend_def)
  qed
qed simp

text \<open>C34. A watch that resumes from a revision the history still answers for gets the replayed
  matching events up to its channel's capacity, in order; the events beyond the capacity are
  dropped, and the new watcher starts with no overflow pending, so no marker will report them.\<close>

theorem WatchData_replay:
  assumes "0 < StartRevision opts"
    and "eventsFromRevision (StartRevision opts) (eventHistory s) = Some evs"
    and "WatchData k opts s = (ref, s')"
  shows "chBuf (channels s' ! ref) =
      take (watchChannelBufferSize s) (filter (\<lambda>ev. matchesWatchPattern ev k (WatchPrefix opts)) evs) \<and>
    last (activeWatchers s') =
      \<lparr>keyPattern = k, matchByPrefix = WatchPrefix opts, eventChannel = ref, overflowDetected = False\<rparr>"
proof -
  have m: "watchMatches k opts = (\<lambda>ev. matchesWatchPattern ev k (WatchPrefix opts))"
    by (simp add: watchMatches_def fun_eq_iff)
  from assms show ?thesis by (auto simp: WatchData_def Let_def replay_fold m)
qed

theorem WatchData_replay_witness:
  "\<exists>s s' ref. WatchData ''a'' \<lparr>WatchPrefix = True, StartRevision = 1\<rparr> s = (ref, s') \<and>
     (\<exists>e1 e2. eventsFromRevision 1 (eventHistory s) = Some [e1, e2] \<and> chBuf (channels s' ! ref) = [e1])"
proof -
  let ?e = "\<lambda>v r. \<lparr>EvType = EventPut, EvFact = zeroFact\<lparr>Key := ''a'', Value := v, Revision := r\<rparr>, EvPrev = None\<rparr> :: Event"
  let ?o = "\<lparr>WatchPrefix = True, StartRevision = 1\<rparr> :: WatchOption"
  define s where "s = NewMemoryStore\<lparr>eventHistory := historyOf 2 [?e ''x'' 1, ?e ''y'' 2], watchChannelBufferSize := 1\<rparr>"
  obtain ref s' where w: "WatchData ''a'' ?o s = (ref, s')" by (metis prod.exhaust)
  have ev: "eventsFromRevision (StartRevision ?o) (eventHistory s) = Some [?e ''x'' 1, ?e ''y'' 2]"
    by (simp add: s_def eventsFromRevision_window lastN_def)
  have "watchChannelBufferSize s = 1" by (simp add: s_def)
  with WatchData_replay [OF _ ev w] have "chBuf (channels s' ! ref) = [?e ''x'' 1]"
    by (simp add: matchesWatchPattern_def)
  with w ev show ?thesis by (metis WatchOption.select_convs(2))
qed

text \<open>C36. Broadcasts of concurrent writers may overtake each other: there is a reachable state with
  nothing left to broadcast in which a watcher's channel holds both changes of one key in reverse
  order, so that applying the stream leaves the consumer with a fact the store no longer has.\<close>

theorem broadcast_order_can_invert:
  "\<exists>s P w. mem_reachable (s, P) \<and> concat P = [] \<and> activeWatchers s = [w] \<and> \<not> overflowDetected w \<and>
     map evRev (chBuf (channels s ! eventChannel w)) = [2, 1] \<and>
     fold applyEvent (chBuf (channels s ! eventChannel w)) Map.empty ''a'' \<noteq> facts s ''a''"
proof -
  obtain ref s0 where w: "WatchData ''a'' \<lparr>WatchPrefix = False, StartRevision = 0\<rparr> NewMemoryStore = (ref, s0)"
    by (metis prod.exhaust)
  have s0: "facts s0 = Map.empty" "currentRevision s0 = 0"
    "activeWatchers s0 = [\<lparr>keyPattern = ''a'', matchByPrefix = False, eventChannel = 0, overflowDetected = False\<rparr>]"
    "channels s0 = [\<lparr>chCap = 256, chBuf = [], chClosed = False\<rparr>]"
    using w by (auto simp: WatchData_def NewMemoryStore_def defaultWatchChannelBufferSize_def)
  define e1 where "e1 = snd (applyPut ''a'' ''1'' 1 (s0\<lparr>currentRevision := 1\<rparr>))"
  define s1 where "s1 = fst (applyPut ''a'' ''1'' 1 (s0\<lparr>currentRevision := 1\<rparr>))"
  have p1: "PutData ''a'' ''1'' s0 = (s1, 1, [e1])" by (simp add: PutData_def s0 s1_def e1_def split_beta)
  have s1: "facts s1 ''a'' = Some (EvFact e1)" "currentRevision s1 = 1" "Value (EvFact e1) = ''1''"
    by (simp_all add: s1_def e1_def)
  define e2 where "e2 = snd (applyPut ''a'' ''2'' 2 (s1\<lparr>currentRevision := 2\<rparr>))"
  define s2 where "s2 = fst (applyPut ''a'' ''2'' 2 (s1\<lparr>currentRevision := 2\<rparr>))"
  have p2: "PutData ''a'' ''2'' s1 = (s2, 2, [e2])" by (simp add: PutData_def s1 s2_def e2_def split_beta)
  define s where "s = broadcastEvent e1 (broadcastEvent e2 s2)"
  have "mem_reachable (s0, [])"
    by (rule mem_reachable.step [OF mem_reachable.start mem_step.watch [OF w]])
  then have "mem_reachable (s2, [[e1], [e2]])" using reachable_put [OF reachable_put [OF _ p1, of "[]"] p2] by simp
  then have "mem_reachable (broadcastEvent e2 s2, [[e1], []])"
    using mem_reachable.step [OF _ mem_step.broadcast [of 1 "[[e1], [e2]]" e2 "[]" s2]] by simp
  then have reach: "mem_reachable (s, [[], []])"
    using mem_reachable.step [OF _ mem_step.broadcast [of 0 "[[e1], []]" e1 "[]" "broadcastEvent e2 s2"]]
    by (simp add: s_def)
  have s2: "activeWatchers s2 = activeWatchers s0" "channels s2 = channels s0"
    using PutData_step [OF p1] PutData_step [OF p2]
    by (simp_all add: s2_def s1_def applyPut_def Let_def)
  have "activeWatchers s = activeWatchers s0 \<and> chBuf (channels s ! 0) = [e2, e1]"
    using s0 s2 by (simp add: s_def broadcastEvent_def deliver_def trySend_def matchesWatchPattern_def
        split_beta e1_def e2_def)
  moreover have "facts s ''a'' = Some (EvFact e2)" by (simp add: s_def s2_def e2_def)
  moreover have "EvFact e1 \<noteq> EvFact e2" and "evRev e1 = 1" "evRev e2 = 2"
    by (auto simp: e1_def e2_def dest: arg_cong [of _ _ Revision])
  moreover have "EvType e1 = EventPut" "Key (EvFact e1) = ''a''" by (simp_all add: e1_def)
  ultimately show ?thesis
    using reach s0(3)
    by (intro exI [of _ s] exI [of _ "[[], []]"] exI [of _ "hd (activeWatchers s0)"]) (simp add: applyEvent_def)
qed

end
