(* ===== verification/Prefix_Search.thy ===== *)
theory Prefix_Search
  imports Memory_Store
begin

text \<open>
  Binary search over sorted facts (\<open>store/prefix_search.go\<close>): \<open>sort.Search\<close> of the standard library,
  \<open>SortFacts\<close>, \<open>FindPrefixRange\<close> and \<open>FactsWithPrefix\<close>. The controllers and the scheduler read all
  their inputs through \<open>FactsWithPrefix\<close>, so its equivalence with a plain filter is what lets the
  other theories reason about it.
\<close>

text \<open>The loop of \<open>sort.Search\<close> on the interval from \<open>i\<close> to \<open>j\<close>.\<close>

function sortSearch :: "(nat \<Rightarrow> bool) \<Rightarrow> nat \<Rightarrow> nat \<Rightarrow> nat" where
  "sortSearch f i j =
     (if i < j then let h = (i + j) div 2 in if \<not> f h then sortSearch f (h + 1) j else sortSearch f i h
      else i)"
  by pat_completeness auto
termination
  by (relation "measure (\<lambda>(f, i, j). j - i)") auto

declare sortSearch.simps [simp del]

definition SortFacts :: "Fact list \<Rightarrow> Fact list" where
  "SortFacts fs = sort_key Key fs"

text \<open>The loop that walks forward to the end of the range.\<close>

function prefixRangeEnd :: "Fact list \<Rightarrow> string \<Rightarrow> nat \<Rightarrow> nat" where
  "prefixRangeEnd fs p e =
     (if e < length fs \<and> HasPrefix (Key (fs ! e)) p then prefixRangeEnd fs p (e + 1) else e)"
  by pat_completeness auto
termination
  by (relation "measure (\<lambda>(fs, p, e). length fs - e)") auto

declare prefixRangeEnd.simps [simp del]

definition FindPrefixRange :: "Fact list \<Rightarrow> string \<Rightarrow> nat \<times> nat" where
  "FindPrefixRange fs p =
     (if fs = [] \<or> p = [] then (0, 0)
      else let startIndex = sortSearch (\<lambda>i. Key (fs ! i) \<ge> p) 0 (length fs)
           in if startIndex \<ge> length fs \<or> \<not> HasPrefix (Key (fs ! startIndex)) p then (0, 0)
              else (startIndex, prefixRangeEnd fs p startIndex))"

definition FactsWithPrefix :: "Fact list \<Rightarrow> string \<Rightarrow> Fact list" where
  "FactsWithPrefix fs p =
     (let (startIndex, endIndex) = FindPrefixRange fs p
      in if startIndex = endIndex then [] else take (endIndex - startIndex) (drop startIndex fs))"

subsection \<open>Correctness of the search\<close>

lemma sortSearch_least:
  assumes "i \<le> j" and "\<And>a b. i \<le> a \<Longrightarrow> a \<le> b \<Longrightarrow> b < j \<Longrightarrow> f a \<Longrightarrow> f b"
  shows "i \<le> sortSearch f i j \<and> sortSearch f i j \<le> j \<and>
    (\<forall>k. i \<le> k \<and> k < sortSearch f i j \<longrightarrow> \<not> f k) \<and>
    (sortSearch f i j < j \<longrightarrow> f (sortSearch f i j))"
  using assms
proof (induction f i j rule: sortSearch.induct)
  case (1 f i j)
  show ?case
  proof (cases "i < j")
    case True
    define h where "h = (i + j) div 2"
    have h: "i \<le> h" "h < j" using True by (auto simp: h_def)
    show ?thesis
    proof (cases "f h")
      case False
      have eq: "sortSearch f i j = sortSearch f (h + 1) j"
        using True False by (subst sortSearch.simps) (simp add: h_def Let_def)
      have low: "\<not> f k" if "i \<le> k" "k \<le> h" for k using False "1.prems"(2) [OF that h(2)] by blast
      have ih: "h + 1 \<le> sortSearch f (h + 1) j \<and> sortSearch f (h + 1) j \<le> j \<and>
        (\<forall>k. h + 1 \<le> k \<and> k < sortSearch f (h + 1) j \<longrightarrow> \<not> f k) \<and>
        (sortSearch f (h + 1) j < j \<longrightarrow> f (sortSearch f (h + 1) j))"
      proof (rule "1.IH"(1) [OF True h_def False])
        show "f b" if "h + 1 \<le> a" "a \<le> b" "b < j" "f a" for a b
          by (rule "1.prems"(2) [OF _ that(2,3,4)]) (use that(1) h in simp)
      qed (use h in simp)
      have "\<not> f k" if "i \<le> k" "k < sortSearch f (h + 1) j" for k
        using low [of k] ih that by (cases "k \<le> h") auto
      with ih h show ?thesis unfolding eq by auto
    next
      case fh: True
      have eq: "sortSearch f i j = sortSearch f i h"
        using True fh by (subst sortSearch.simps) (simp add: h_def Let_def)
      have ih: "i \<le> sortSearch f i h \<and> sortSearch f i h \<le> h \<and>
        (\<forall>k. i \<le> k \<and> k < sortSearch f i h \<longrightarrow> \<not> f k) \<and>
        (sortSearch f i h < h \<longrightarrow> f (sortSearch f i h))"
      proof (rule "1.IH"(2) [OF True h_def])
        show "f b" if "i \<le> a" "a \<le> b" "b < h" "f a" for a b
          by (rule "1.prems"(2) [OF that(1,2) _ that(4)]) (use that(3) h in simp)
      qed (use h fh in simp_all)
      have "f (sortSearch f i h)" using ih fh by (cases "sortSearch f i h < h") auto
      with ih h show ?thesis unfolding eq by auto
    qed
  next
    case False
    with "1.prems"(1) have "i = j" "sortSearch f i j = i" by (simp_all add: sortSearch.simps)
    then show ?thesis by auto
  qed
qed

lemma prefixRangeEnd_takeWhile:
  "e \<le> length fs \<Longrightarrow>
     prefixRangeEnd fs p e = e + length (takeWhile (\<lambda>f. HasPrefix (Key f) p) (drop e fs))"
proof (induction fs p e rule: prefixRangeEnd.induct)
  case (1 fs p e)
  show ?case
  proof (cases "e < length fs \<and> HasPrefix (Key (fs ! e)) p")
    case True
    then have d: "drop e fs = fs ! e # drop (Suc e) fs" by (simp add: Cons_nth_drop_Suc)
    from True have "prefixRangeEnd fs p e = prefixRangeEnd fs p (e + 1)"
      by (subst prefixRangeEnd.simps) simp
    also have "\<dots> = e + 1 + length (takeWhile (\<lambda>f. HasPrefix (Key f) p) (drop (e + 1) fs))"
      using True 1 by simp
    finally show ?thesis using True by (simp add: d)
  next
    case False
    then have "takeWhile (\<lambda>f. HasPrefix (Key f) p) (drop e fs) = []"
      by (cases "e < length fs") (auto simp: Cons_nth_drop_Suc [symmetric])
    with False show ?thesis by (subst prefixRangeEnd.simps) auto
  qed
qed

text \<open>In a sorted list the keys with the prefix are one interval that starts at the first key not
  below the prefix.\<close>

lemma filter_prefix_interval:
  assumes "sorted (map Key fs)" and "m \<le> length fs"
    and "\<And>k. k < m \<Longrightarrow> \<not> p \<le> Key (fs ! k)" and "m < length fs \<Longrightarrow> p \<le> Key (fs ! m)"
  shows "filter (\<lambda>f. HasPrefix (Key f) p) fs = takeWhile (\<lambda>f. HasPrefix (Key f) p) (drop m fs)"
proof -
  let ?P = "\<lambda>f. HasPrefix (Key f) p"
  have "filter ?P (take m fs) = []"
    using assms(2,3) prefix_le by (fastforce simp: filter_empty_conv in_set_conv_nth)
  moreover have "filter ?P ds = takeWhile ?P ds"
    if "sorted (map Key ds)" "\<forall>f\<in>set ds. p \<le> Key f" for ds
    using that
  proof (induction ds)
    case (Cons d ds)
    show ?case
    proof (cases "?P d")
      case True
      with Cons show ?thesis by simp
    next
      case False
      have "\<not> ?P f" if "f \<in> set ds" for f
        using prefix_interval [of p p "Key f" "Key d"] False Cons.prems that by auto
      with False show ?thesis by (simp add: filter_empty_conv)
    qed
  qed simp
  moreover have "sorted (map Key (drop m fs))"
    using assms(1) by (simp add: drop_map [symmetric] sorted_wrt_drop)
  moreover have "\<forall>f\<in>set (drop m fs). p \<le> Key f"
  proof
    fix f
    assume "f \<in> set (drop m fs)"
    then obtain i where i: "i < length (drop m fs)" "f = drop m fs ! i" by (auto simp: in_set_conv_nth)
    then have "Key (fs ! m) \<le> Key f"
      using sorted_nth_mono [OF assms(1), of m "m + i"] by simp
    moreover have "p \<le> Key (fs ! m)" using assms(4) i by simp
    ultimately show "p \<le> Key f" by simp
  qed
  ultimately show ?thesis by (metis append_Nil append_take_drop_id filter_append)
qed

lemma FactsWithPrefix_filter:
  assumes "sorted (map Key fs)" and "p \<noteq> []"
  shows "FactsWithPrefix fs p = filter (\<lambda>f. HasPrefix (Key f) p) fs"
proof (cases "fs = []")
  case False
  let ?P = "\<lambda>f. HasPrefix (Key f) p"
  define m where "m = sortSearch (\<lambda>i. Key (fs ! i) \<ge> p) 0 (length fs)"
  have mono: "p \<le> Key (fs ! b)" if "p \<le> Key (fs ! a)" "a \<le> b" "b < length fs" for a b
    using sorted_nth_mono [OF assms(1), of a b] that by auto
  have m: "m \<le> length fs" "\<And>k. k < m \<Longrightarrow> \<not> p \<le> Key (fs ! k)" "m < length fs \<Longrightarrow> p \<le> Key (fs ! m)"
    using sortSearch_least [of 0 "length fs" "\<lambda>i. Key (fs ! i) \<ge> p"] mono unfolding m_def by blast+
  note flt = filter_prefix_interval [OF assms(1) m]
  show ?thesis
  proof (cases "m \<ge> length fs \<or> \<not> ?P (fs ! m)")
    case True
    then have "FactsWithPrefix fs p = []"
      by (simp add: FactsWithPrefix_def FindPrefixRange_def m_def [symmetric] Let_def)
    moreover have "takeWhile ?P (drop m fs) = []"
      using True by (cases "m < length fs") (auto simp: Cons_nth_drop_Suc [symmetric])
    ultimately show ?thesis using flt by simp
  next
    case lt: False
    have "takeWhile ?P (drop m fs) = take (length (takeWhile ?P (drop m fs))) (drop m fs)"
      by (rule takeWhile_eq_take)
    with lt False assms(2) flt show ?thesis
      by (simp add: FactsWithPrefix_def FindPrefixRange_def m_def [symmetric] Let_def
          prefixRangeEnd_takeWhile)
  qed
qed (simp add: FactsWithPrefix_def FindPrefixRange_def)

lemma SortFacts_sorted [simp]: "sorted (map Key (SortFacts fs))" "mset (SortFacts fs) = mset fs"
  by (simp_all add: SortFacts_def)

subsection \<open>Property\<close>

text \<open>C32. Binary search equals filtering: on facts sorted by key and for a non-empty prefix,
  \<open>FactsWithPrefix\<close> returns exactly the facts whose key has the prefix, in order; for the empty
  prefix it returns nothing.\<close>

theorem FactsWithPrefix_exact:
  assumes "sorted (map Key fs)"
  shows "FactsWithPrefix fs p = (if p = [] then [] else filter (\<lambda>f. HasPrefix (Key f) p) fs)"
  using FactsWithPrefix_filter [OF assms] by (simp add: FactsWithPrefix_def FindPrefixRange_def)

theorem FactsWithPrefix_exact_witness:
  "map Key (FactsWithPrefix [zeroFact\<lparr>Key := ''a''\<rparr>, zeroFact\<lparr>Key := ''b/1''\<rparr>, zeroFact\<lparr>Key := ''b/2''\<rparr>, zeroFact\<lparr>Key := ''c''\<rparr>] ''b/'')
     = [''b/1'', ''b/2'']"
proof -
  let ?fs = "[zeroFact\<lparr>Key := ''a''\<rparr>, zeroFact\<lparr>Key := ''b/1''\<rparr>, zeroFact\<lparr>Key := ''b/2''\<rparr>, zeroFact\<lparr>Key := ''c''\<rparr>]"
  have "sorted (map Key ?fs)" by (simp add: less_eq_char_def)
  from FactsWithPrefix_exact [OF this, of "''b/''"] show ?thesis by simp
qed

lemma FactsWithPrefix_mem:
  assumes "sorted (map Key fs)" and "p \<noteq> []"
  shows "f \<in> set (FactsWithPrefix fs p) \<longleftrightarrow> f \<in> set fs \<and> HasPrefix (Key f) p"
  using FactsWithPrefix_filter [OF assms] by auto

end
