(* ===== verification/Go_Strconv.thy ===== *)
theory Go_Strconv
  imports Go_Prelude
begin

text \<open>
  Decimal integers: \<open>strconv.ParseInt(s, 10, 64)\<close>, \<open>strconv.Atoi\<close> and \<open>strconv.Itoa\<close> of the standard
  library. A parse returns the value together with its error, because some callers use the value
  and ignore the error.
\<close>

datatype NumError = ErrSyntax | ErrRange

definition isDigit :: "char \<Rightarrow> bool" where
  "isDigit c \<longleftrightarrow> 48 \<le> (of_char c :: nat) \<and> (of_char c :: nat) \<le> 57"

definition digitVal :: "char \<Rightarrow> int" where
  "digitVal c = of_char c - 48"

definition digitChar :: "int \<Rightarrow> char" where
  "digitChar d = char_of (nat d + 48)"

text \<open>The loop of \<open>ParseUint\<close> in base 10 for 64 bits: it stops at the first character that is not a
  digit or at the first digit that overflows, whichever comes first.\<close>

fun parseUintLoop :: "string \<Rightarrow> int \<Rightarrow> int \<times> NumError option" where
  "parseUintLoop [] n = (n, None)"
| "parseUintLoop (c # cs) n =
     (if \<not> isDigit c then (0, Some ErrSyntax)
      else if n \<ge> (2 ^ 64 - 1) div 10 + 1 then (2 ^ 64 - 1, Some ErrRange)
      else if n * 10 + digitVal c > 2 ^ 64 - 1 then (2 ^ 64 - 1, Some ErrRange)
      else parseUintLoop cs (n * 10 + digitVal c))"

definition ParseUint :: "string \<Rightarrow> int \<times> NumError option" where
  "ParseUint s = (if s = [] then (0, Some ErrSyntax) else parseUintLoop s 0)"

definition ParseInt :: "string \<Rightarrow> int \<times> NumError option" where
  "ParseInt s =
     (if s = [] then (0, Some ErrSyntax)
      else let neg = (hd s = CHR ''-'');
               s' = (if hd s = CHR ''+'' \<or> neg then tl s else s);
               (un, err) = ParseUint s'
           in if err = Some ErrSyntax then (0, Some ErrSyntax)
              else if \<not> neg \<and> un \<ge> 2 ^ 63 then (2 ^ 63 - 1, Some ErrRange)
              else if neg \<and> un > 2 ^ 63 then (- (2 ^ 63), Some ErrRange)
              else (if neg then - un else un, None))"

definition Atoi :: "string \<Rightarrow> int \<times> NumError option" where
  "Atoi s = ParseInt s"

fun utoa :: "nat \<Rightarrow> string" where
  "utoa n = (if n < 10 then [digitChar (int n)] else utoa (n div 10) @ [digitChar (int (n mod 10))])"

declare utoa.simps [simp del]

definition Itoa :: "int \<Rightarrow> string" where
  "Itoa n = (if n < 0 then CHR ''-'' # utoa (nat (- n)) else utoa (nat n))"

subsection \<open>Bounds and the round trip\<close>

lemma digitVal_nat: "digitVal c = int (of_char c :: nat) - 48"
  by (simp add: digitVal_def of_nat_of_char)

lemma digitVal_bounds: "isDigit c \<Longrightarrow> 0 \<le> digitVal c \<and> digitVal c \<le> 9"
  by (simp add: isDigit_def digitVal_nat)

lemma of_char_digitChar: "0 \<le> d \<Longrightarrow> d \<le> 9 \<Longrightarrow> (of_char (digitChar d) :: nat) = nat d + 48"
  by (simp add: digitChar_def)

lemma digitChar_simps [simp]:
  assumes "0 \<le> d" and "d \<le> 9"
  shows "isDigit (digitChar d)" "digitVal (digitChar d) = d"
proof -
  show "isDigit (digitChar d)" using assms by (simp add: isDigit_def of_char_digitChar)
  show "digitVal (digitChar d) = d" using assms by (simp add: digitVal_nat of_char_digitChar)
qed

lemma parseUintLoop_nonneg: "0 \<le> n \<Longrightarrow> 0 \<le> fst (parseUintLoop s n)"
proof (induction s n rule: parseUintLoop.induct)
  case (2 c cs n)
  then show ?case using digitVal_bounds [of c] by (cases "isDigit c") auto
qed simp

text \<open>Parsing a digit string that ends with one more digit.\<close>

lemma parseUintLoop_snoc:
  assumes "parseUintLoop s n = (m, None)" and "isDigit c" and "m * 10 + digitVal c \<le> 2 ^ 64 - 1"
  shows "parseUintLoop (s @ [c]) n = (m * 10 + digitVal c, None)"
  using assms
proof (induction s n rule: parseUintLoop.induct)
  case (1 n)
  then show ?case using digitVal_bounds [of c] by auto
next
  case (2 c' cs n)
  then show ?case by (auto split: if_splits)
qed

lemma utoa_nonempty: "utoa n \<noteq> []"
  by (subst utoa.simps) simp

lemma parseUintLoop_utoa: "int n \<le> 2 ^ 64 - 1 \<Longrightarrow> parseUintLoop (utoa n) 0 = (int n, None)"
proof (induction n rule: utoa.induct)
  case (1 n)
  show ?case
  proof (cases "n < 10")
    case True
    then show ?thesis by (subst utoa.simps) simp
  next
    case False
    have "int (n div 10) \<le> 2 ^ 64 - 1" using 1 by linarith
    from "1.IH" [OF False this] have ih: "parseUintLoop (utoa (n div 10)) 0 = (int (n div 10), None)" .
    have v: "int (n div 10) * 10 + int (n mod 10) = int n" by (simp add: zdiv_int zmod_int)
    have "utoa n = utoa (n div 10) @ [digitChar (int (n mod 10))]" using False by (subst utoa.simps) simp
    with parseUintLoop_snoc [OF ih, of "digitChar (int (n mod 10))"] v 1 show ?thesis by simp
  qed
qed

lemma utoa_hd: "isDigit (hd (utoa n))"
proof (induction n rule: utoa.induct)
  case (1 n)
  then show ?case by (subst utoa.simps) (auto simp: utoa_nonempty)
qed

lemma not_sign: "isDigit c \<Longrightarrow> c \<noteq> CHR ''-'' \<and> c \<noteq> CHR ''+''"
  by (auto simp: isDigit_def)

lemma ParseInt_Itoa: "in64 n \<Longrightarrow> ParseInt (Itoa n) = (n, None)"
proof (cases "n < 0")
  case True
  assume "in64 n"
  with True have "parseUintLoop (utoa (nat (- n))) 0 = (- n, None)"
    using parseUintLoop_utoa [of "nat (- n)"] by (simp add: in64_def)
  with True \<open>in64 n\<close> show ?thesis
    by (simp add: Itoa_def ParseInt_def ParseUint_def utoa_nonempty in64_def)
next
  case False
  assume "in64 n"
  with False have "parseUintLoop (utoa (nat n)) 0 = (n, None)"
    using parseUintLoop_utoa [of "nat n"] by (simp add: in64_def)
  with False \<open>in64 n\<close> not_sign [OF utoa_hd, of "nat n"] show ?thesis
    by (simp add: Itoa_def ParseInt_def ParseUint_def utoa_nonempty in64_def)
qed

lemma in64_ParseInt: "in64 (fst (ParseInt s))"
proof -
  have "0 \<le> fst (ParseUint t)" for t by (simp add: ParseUint_def parseUintLoop_nonneg)
  from this [of s] this [of "tl s"] show ?thesis
    by (auto simp: ParseInt_def in64_def split_beta Let_def)
qed
text \<open>A code equation for \<open>Itoa\<close> on binary integers, so that evaluation does not go through unary
  natural numbers.\<close>

function utoaInt :: "int \<Rightarrow> string" where
  "utoaInt n = (if n < 10 then [digitChar n] else utoaInt (n div 10) @ [digitChar (n mod 10)])"
  by pat_completeness auto
termination by (relation "measure nat") auto

declare utoaInt.simps [simp del]

lemma utoa_utoaInt: "utoa n = utoaInt (int n)"
proof (induction n rule: less_induct)
  case (less n)
  show ?case
  proof (cases "n < 10")
    case False
    then have "utoa (n div 10) = utoaInt (int (n div 10))" by (intro less.IH) simp
    then show ?thesis using False by (simp add: utoa.simps [of n] utoaInt.simps [of "int n"] zdiv_int zmod_int)
  qed (simp add: utoa.simps [of n] utoaInt.simps [of "int n"])
qed

lemma Itoa_code [code]: "Itoa n = (if n < 0 then CHR ''-'' # utoaInt (- n) else utoaInt n)"
  by (simp add: Itoa_def utoa_utoaInt)

end
