(* ===== verification/Fact_Keys.thy ===== *)
theory Fact_Keys
  imports Memory_Store
begin

text \<open>
  Keys of the fact store (\<open>types/keys.go\<close>) and the changes that controllers emit
  (\<open>controllers/controller.go\<close>): the prefixes and key constructors that the modelled components use.
\<close>

subsection \<open>Prefixes\<close>

definition PrefixDesired :: string where "PrefixDesired = ''desired''"
definition PrefixObserved :: string where "PrefixObserved = ''observed''"
definition PrefixPlacement :: string where "PrefixPlacement = ''placement''"
definition PrefixDerived :: string where "PrefixDerived = ''derived''"

definition ScanDesiredServices :: string where "ScanDesiredServices = PrefixDesired @ ''/service/''"
definition ScanObservedNodes :: string where "ScanObservedNodes = PrefixObserved @ ''/node/''"
definition ScanObservedInstances :: string where "ScanObservedInstances = PrefixObserved @ ''/instance/''"
definition ScanPlacements :: string where "ScanPlacements = PrefixPlacement @ ''/instance/''"
definition ScanObservedVolumes :: string where "ScanObservedVolumes = PrefixObserved @ ''/volume/''"
definition ScanDerivedSchedulerUnplaced :: string where
  "ScanDerivedSchedulerUnplaced = PrefixDerived @ ''/scheduler/unplaced/''"
definition ScanDesiredGroups :: string where "ScanDesiredGroups = PrefixDesired @ ''/group/''"

subsection \<open>Key constructors\<close>

definition KeyPlacementInstance :: "string \<Rightarrow> string" where
  "KeyPlacementInstance instanceID = PrefixPlacement @ ''/instance/'' @ instanceID"

definition KeyPlacementNodeInstance :: "string \<Rightarrow> string \<Rightarrow> string" where
  "KeyPlacementNodeInstance nodeID instanceID = PrefixPlacement @ ''/node/'' @ nodeID @ ''/'' @ instanceID"

definition KeyDerivedInstanceControllerStopped :: "string \<Rightarrow> string" where
  "KeyDerivedInstanceControllerStopped instanceID =
     PrefixDerived @ ''/instance/'' @ instanceID @ ''/controller_stopped''"

definition KeyDerivedSchedulerUnplacedReason :: "string \<Rightarrow> string" where
  "KeyDerivedSchedulerUnplacedReason instanceID =
     PrefixDerived @ ''/scheduler/unplaced/'' @ instanceID @ ''/reason''"

definition KeyDerivedSchedulerUnplacedRequirements :: "string \<Rightarrow> string" where
  "KeyDerivedSchedulerUnplacedRequirements instanceID =
     PrefixDerived @ ''/scheduler/unplaced/'' @ instanceID @ ''/requirements''"

lemmas prefix_defs = PrefixDesired_def PrefixObserved_def PrefixPlacement_def PrefixDerived_def

lemmas scan_defs = ScanDesiredServices_def ScanObservedNodes_def ScanObservedInstances_def
  ScanPlacements_def ScanObservedVolumes_def ScanDerivedSchedulerUnplaced_def ScanDesiredGroups_def prefix_defs

lemmas key_defs = KeyPlacementInstance_def KeyPlacementNodeInstance_def
  KeyDerivedInstanceControllerStopped_def KeyDerivedSchedulerUnplacedReason_def
  KeyDerivedSchedulerUnplacedRequirements_def prefix_defs

subsection \<open>Changes\<close>

record Change =
  chType :: OpType
  chKey :: string
  chValue :: string
  chGroup :: string

definition putChange :: "string \<Rightarrow> string \<Rightarrow> string \<Rightarrow> Change" where
  "putChange g k v = \<lparr>chType = OpPut, chKey = k, chValue = v, chGroup = g\<rparr>"

definition deleteChange :: "string \<Rightarrow> string \<Rightarrow> Change" where
  "deleteChange g k = \<lparr>chType = OpDelete, chKey = k, chValue = [], chGroup = g\<rparr>"

definition groupedChanges :: "string \<Rightarrow> Change list \<Rightarrow> Change list" where
  "groupedChanges groupID changes = map (\<lambda>c. c\<lparr>chGroup := groupID\<rparr>) changes"

lemma putChange_simps [simp]:
  "chType (putChange g k v) = OpPut" "chKey (putChange g k v) = k" "chValue (putChange g k v) = v"
  "chGroup (putChange g k v) = g"
  by (simp_all add: putChange_def)

lemma deleteChange_simps [simp]:
  "chType (deleteChange g k) = OpDelete" "chKey (deleteChange g k) = k" "chValue (deleteChange g k) = []"
  "chGroup (deleteChange g k) = g"
  by (simp_all add: deleteChange_def)

end
