(* ===== verification/Go_Heap.thy ===== *)
theory Go_Heap
  imports Main "HOL-Library.Multiset"
begin

text \<open>
  The binary heap of the standard library's \<open>container/heap\<close>: \<open>Init\<close>, \<open>Fix\<close> and \<open>Remove\<close> with their
  loops \<open>up\<close> and \<open>down\<close>, over the two operations \<open>Less\<close> and \<open>Swap\<close> of \<open>heap.Interface\<close> and the state
  they act on. The locale states what \<open>heap.Interface\<close> asks of its implementer, with a list of keys
  as the abstract content, and derives that every operation leaves a heap.
\<close>

abbreviation par :: "nat \<Rightarrow> nat" where
  "par j \<equiv> (j - 1) div 2"

function heapDownLoop :: "('s \<Rightarrow> nat \<Rightarrow> nat \<Rightarrow> bool) \<Rightarrow> (nat \<Rightarrow> nat \<Rightarrow> 's \<Rightarrow> 's) \<Rightarrow> nat \<Rightarrow> nat \<Rightarrow> 's \<Rightarrow> 's \<times> nat" where
  "heapDownLoop lt sw n i s =
     (let j1 = 2 * i + 1
      in if j1 \<ge> n then (s, i)
         else let j2 = j1 + 1;
                  j = (if j2 < n \<and> lt s j2 j1 then j2 else j1)
              in if \<not> lt s j i then (s, i) else heapDownLoop lt sw n j (sw i j s))"
  by pat_completeness auto
termination
  by (relation "measure (\<lambda>(lt, sw, n, i, s). n - i)") (auto split: if_splits)

declare heapDownLoop.simps [simp del]

definition heapDown :: "('s \<Rightarrow> nat \<Rightarrow> nat \<Rightarrow> bool) \<Rightarrow> (nat \<Rightarrow> nat \<Rightarrow> 's \<Rightarrow> 's) \<Rightarrow> nat \<Rightarrow> nat \<Rightarrow> 's \<Rightarrow> 's \<times> bool" where
  "heapDown lt sw i0 n s = (let (s', i) = heapDownLoop lt sw n i0 s in (s', i > i0))"

function heapUp :: "('s \<Rightarrow> nat \<Rightarrow> nat \<Rightarrow> bool) \<Rightarrow> (nat \<Rightarrow> nat \<Rightarrow> 's \<Rightarrow> 's) \<Rightarrow> nat \<Rightarrow> 's \<Rightarrow> 's" where
  "heapUp lt sw j s =
     (let i = par j in if i = j \<or> \<not> lt s j i then s else heapUp lt sw i (sw i j s))"
  by pat_completeness auto
termination
  by (relation "measure (\<lambda>(lt, sw, j, s). j)") auto

declare heapUp.simps [simp del]

fun heapInitLoop :: "('s \<Rightarrow> nat \<Rightarrow> nat \<Rightarrow> bool) \<Rightarrow> (nat \<Rightarrow> nat \<Rightarrow> 's \<Rightarrow> 's) \<Rightarrow> nat \<Rightarrow> nat \<Rightarrow> 's \<Rightarrow> 's" where
  "heapInitLoop lt sw n 0 s = s"
| "heapInitLoop lt sw n (Suc i) s = heapInitLoop lt sw n i (fst (heapDown lt sw i n s))"

definition heapInit :: "('s \<Rightarrow> nat \<Rightarrow> nat \<Rightarrow> bool) \<Rightarrow> (nat \<Rightarrow> nat \<Rightarrow> 's \<Rightarrow> 's) \<Rightarrow> nat \<Rightarrow> 's \<Rightarrow> 's" where
  "heapInit lt sw n s = heapInitLoop lt sw n (n div 2) s"

definition heapFix :: "('s \<Rightarrow> nat \<Rightarrow> nat \<Rightarrow> bool) \<Rightarrow> (nat \<Rightarrow> nat \<Rightarrow> 's \<Rightarrow> 's) \<Rightarrow> nat \<Rightarrow> nat \<Rightarrow> 's \<Rightarrow> 's" where
  "heapFix lt sw n i s =
     (let (s', moved) = heapDown lt sw i n s in if moved then s' else heapUp lt sw i s')"

text \<open>\<open>Remove\<close> up to its final \<open>Pop\<close>, on a heap of \<open>len\<close> elements.\<close>

definition heapRemovePrep :: "('s \<Rightarrow> nat \<Rightarrow> nat \<Rightarrow> bool) \<Rightarrow> (nat \<Rightarrow> nat \<Rightarrow> 's \<Rightarrow> 's) \<Rightarrow> nat \<Rightarrow> nat \<Rightarrow> 's \<Rightarrow> 's" where
  "heapRemovePrep lt sw len i s =
     (let n = len - 1 in if n \<noteq> i then heapFix lt sw n i (sw i n s) else s)"

subsection \<open>The heap order on lists\<close>

definition heapFrom :: "nat \<Rightarrow> nat \<Rightarrow> 'k::linorder list \<Rightarrow> bool" where
  "heapFrom k n xs \<longleftrightarrow> (\<forall>c<n. 0 < c \<and> k \<le> par c \<longrightarrow> xs ! par c \<le> xs ! c)"

abbreviation isHeap :: "'k::linorder list \<Rightarrow> bool" where
  "isHeap xs \<equiv> heapFrom 0 (length xs) xs"

text \<open>The heap order with a hole: nothing is known of the children of \<open>i\<close>, except that they are
  not below the parent of \<open>i\<close>.\<close>

definition heapExcept :: "nat \<Rightarrow> nat \<Rightarrow> nat \<Rightarrow> 'k::linorder list \<Rightarrow> bool" where
  "heapExcept k n i xs \<longleftrightarrow>
     (\<forall>c<n. 0 < c \<and> k \<le> par c \<and> par c \<noteq> i \<longrightarrow> xs ! par c \<le> xs ! c) \<and>
     (\<forall>c<n. 0 < c \<and> par c = i \<and> 0 < i \<and> k \<le> par i \<longrightarrow> xs ! par i \<le> xs ! c)"

text \<open>The heap order with one element \<open>i\<close> out of place.\<close>

definition heapHole :: "nat \<Rightarrow> nat \<Rightarrow> 'k::linorder list \<Rightarrow> bool" where
  "heapHole n i xs \<longleftrightarrow>
     (\<forall>c<n. 0 < c \<and> par c \<noteq> i \<and> c \<noteq> i \<longrightarrow> xs ! par c \<le> xs ! c) \<and>
     (\<forall>c<n. 0 < c \<and> par c = i \<and> 0 < i \<longrightarrow> xs ! par i \<le> xs ! c)"

definition heapUpInv :: "nat \<Rightarrow> nat \<Rightarrow> 'k::linorder list \<Rightarrow> bool" where
  "heapUpInv n j xs \<longleftrightarrow>
     (\<forall>c<n. 0 < c \<and> c \<noteq> j \<longrightarrow> xs ! par c \<le> xs ! c) \<and>
     (\<forall>c<n. 0 < c \<and> par c = j \<and> 0 < j \<longrightarrow> xs ! par j \<le> xs ! c)"

definition swapAt :: "nat \<Rightarrow> nat \<Rightarrow> 'k list \<Rightarrow> 'k list" where
  "swapAt i j xs = xs[i := xs ! j, j := xs ! i]"

lemma length_swapAt [simp]: "length (swapAt i j xs) = length xs"
  by (simp add: swapAt_def)

lemma nth_swapAt:
  "i < length xs \<Longrightarrow> j < length xs \<Longrightarrow> c < length xs \<Longrightarrow>
     swapAt i j xs ! c = (if c = i then xs ! j else if c = j then xs ! i else xs ! c)"
  by (auto simp: swapAt_def nth_list_update)

lemma mset_swapAt [simp]: "i < length xs \<Longrightarrow> j < length xs \<Longrightarrow> mset (swapAt i j xs) = mset xs"
  by (simp add: swapAt_def mset_swap)

lemma par_eq: "0 < c \<Longrightarrow> par c = i \<longleftrightarrow> c = 2 * i + 1 \<or> c = 2 * i + 2"
  by auto

lemma par_less: "0 < c \<Longrightarrow> par c < c"
  by auto

lemma heapHole_heap: "heapFrom 0 n xs \<Longrightarrow> i < n \<Longrightarrow> heapHole n i xs"
  unfolding heapHole_def heapFrom_def by (auto intro: order_trans)

lemma heapHole_root: "heapFrom 0 n xs \<Longrightarrow> heapHole n 0 (xs[0 := x])"
  unfolding heapHole_def heapFrom_def by auto

lemma heapExcept_swap:
  assumes "heapExcept k n i xs" and "n \<le> length xs" and "j < n" and "0 < j" and "par j = i"
    and "xs ! j \<le> xs ! i" and "\<And>c. c < n \<Longrightarrow> 0 < c \<Longrightarrow> par c = i \<Longrightarrow> xs ! j \<le> xs ! c"
    and "k \<le> i"
  shows "heapExcept k n j (swapAt i j xs)"
proof -
  let ?ys = "swapAt i j xs"
  have ij: "i < j" using assms(4,5) par_less [of j] by simp
  have ys: "?ys ! c = (if c = i then xs ! j else if c = j then xs ! i else xs ! c)" if "c < n" for c
    using nth_swapAt [of i xs j c] that assms(2,3) ij by simp
  have rel: "xs ! par c \<le> xs ! c" if "c < n" "0 < c" "k \<le> par c" "par c \<noteq> i" for c
    using assms(1) that by (simp add: heapExcept_def)
  have gp: "xs ! par i \<le> xs ! c" if "c < n" "0 < c" "par c = i" "0 < i" "k \<le> par i" for c
    using assms(1) that by (simp add: heapExcept_def)
  show ?thesis
    unfolding heapExcept_def
  proof (intro conjI allI impI)
    fix c
    assume c: "c < n" "0 < c \<and> k \<le> par c \<and> par c \<noteq> j"
    then have "par c < n" using par_less [of c] by simp
    show "?ys ! par c \<le> ?ys ! c"
    proof (cases "par c = i")
      case True
      with c ys [OF c(1)] ys [OF \<open>par c < n\<close>] assms(6,7) show ?thesis by (cases "c = j") auto
    next
      case False
      show ?thesis
      proof (cases "c = i")
        case True
        with False c gp [of j] assms(3,4,5) ys [OF c(1)] ys [OF \<open>par c < n\<close>] show ?thesis by auto
      next
        case ci: False
        with False c assms(5) have "c \<noteq> j" by auto
        with ci False c rel [of c] ys [OF c(1)] ys [OF \<open>par c < n\<close>] show ?thesis by auto
      qed
    qed
  next
    fix c
    assume c: "c < n" "0 < c \<and> par c = j \<and> 0 < j \<and> k \<le> par j"
    then have "c \<noteq> i" "c \<noteq> j" using ij par_less [of c] by auto
    moreover have "xs ! j \<le> xs ! c" using rel [of c] c ij assms(8) by simp
    ultimately show "?ys ! par j \<le> ?ys ! c"
      using ys [OF c(1)] ys [of i] ij assms(3,5) by simp
  qed
qed

lemma heapUpInv_swap:
  assumes "heapUpInv n j xs" and "n \<le> length xs" and "j < n" and "0 < j" and "xs ! j \<le> xs ! par j"
  shows "heapUpInv n (par j) (swapAt (par j) j xs)"
proof -
  let ?i = "par j" and ?ys = "swapAt (par j) j xs"
  have ij: "?i < j" using assms(4) par_less by simp
  have ys: "?ys ! c = (if c = ?i then xs ! j else if c = j then xs ! ?i else xs ! c)" if "c < n" for c
    using nth_swapAt [of ?i xs j c] that assms(2,3) ij by simp
  have rel: "xs ! par c \<le> xs ! c" if "c < n" "0 < c" "c \<noteq> j" for c
    using assms(1) that by (simp add: heapUpInv_def)
  have gp: "xs ! ?i \<le> xs ! c" if "c < n" "0 < c" "par c = j" for c
    using assms(1,4) that by (simp add: heapUpInv_def)
  show ?thesis
    unfolding heapUpInv_def
  proof (intro conjI allI impI)
    fix c
    assume c: "c < n" "0 < c \<and> c \<noteq> ?i"
    then have pc: "par c < n" "par c < c" using par_less [of c] by simp_all
    consider "c = j" | "c \<noteq> j" "par c = ?i" | "c \<noteq> j" "par c = j" | "c \<noteq> j" "par c \<noteq> ?i" "par c \<noteq> j" by blast
    then show "?ys ! par c \<le> ?ys ! c"
    proof cases
      case 1
      then show ?thesis using ys [of j] ys [of ?i] assms(3,5) ij by simp
    next
      case 2
      then show ?thesis using ys [OF c(1)] ys [of ?i] rel [of c] c assms(3,5) ij by auto
    next
      case 3
      then show ?thesis using ys [OF c(1)] ys [of j] gp [of c] c assms(3) ij by auto
    next
      case 4
      then show ?thesis using ys [OF c(1)] ys [OF pc(1)] rel [of c] c by simp
    qed
  next
    fix c
    assume c: "c < n" "0 < c \<and> par c = ?i \<and> 0 < ?i"
    then have gi: "xs ! par ?i \<le> xs ! ?i" using rel [of ?i] assms(3) ij by auto
    have pi: "par ?i < ?i" using c par_less by blast
    then have "?ys ! par ?i = xs ! par ?i" using ys [of "par ?i"] assms(3) ij by simp
    moreover have "xs ! ?i \<le> xs ! c" if "c \<noteq> j" using rel [of c] c that by simp
    moreover have "c \<noteq> ?i" using c par_less [of c] by auto
    ultimately show "?ys ! par ?i \<le> ?ys ! c"
      using ys [OF c(1)] gi by (cases "c = j") auto
  qed
qed

subsection \<open>What swaps preserve, the operations preserve\<close>

text \<open>The operations change the state only through \<open>Swap\<close> on indices below the bound they are given.\<close>

definition swapStable :: "nat \<Rightarrow> (nat \<Rightarrow> nat \<Rightarrow> 's \<Rightarrow> 's) \<Rightarrow> ('s \<Rightarrow> bool) \<Rightarrow> bool" where
  "swapStable n sw P \<longleftrightarrow> (\<forall>i<n. \<forall>j<n. \<forall>s. P s \<longrightarrow> P (sw i j s))"

lemma swapStableD: "swapStable n sw P \<Longrightarrow> i < n \<Longrightarrow> j < n \<Longrightarrow> P s \<Longrightarrow> P (sw i j s)"
  by (simp add: swapStable_def)

lemma swapStable_mono: "swapStable n sw P \<Longrightarrow> m \<le> n \<Longrightarrow> swapStable m sw P"
  by (simp add: swapStable_def)

lemma downLoop_pres:
  "swapStable n sw P \<Longrightarrow> P s \<Longrightarrow> i < n \<Longrightarrow> P (fst (heapDownLoop lt sw n i s))"
proof (induction lt sw n i s rule: heapDownLoop.induct)
  case (1 lt sw n i s)
  let ?j1 = "2 * i + 1"
  define j where "j = (if ?j1 + 1 < n \<and> lt s (?j1 + 1) ?j1 then ?j1 + 1 else ?j1)"
  show ?case
  proof (cases "n \<le> ?j1 \<or> \<not> lt s j i")
    case True
    then show ?thesis using "1.prems"(2) by (subst heapDownLoop.simps) (auto simp: Let_def j_def)
  next
    case False
    then have j: "j < n" by (auto simp: j_def)
    have "P (fst (heapDownLoop lt sw n j (sw i j s)))"
      using "1.IH" [OF refl _ refl j_def _ "1.prems"(1) swapStableD [OF "1.prems"(1,3) j "1.prems"(2)] j] False
      by simp
    then show ?thesis using False by (subst heapDownLoop.simps) (auto simp: Let_def j_def)
  qed
qed

lemma down_pres: "swapStable n sw P \<Longrightarrow> P s \<Longrightarrow> i < n \<Longrightarrow> P (fst (heapDown lt sw i n s))"
  using downLoop_pres [of n sw P s i lt] by (simp add: heapDown_def split_beta)

lemma up_pres: "swapStable n sw P \<Longrightarrow> P s \<Longrightarrow> j < n \<Longrightarrow> P (heapUp lt sw j s)"
proof (induction lt sw j s rule: heapUp.induct)
  case (1 lt sw j s)
  show ?case
  proof (cases "par j = j \<or> \<not> lt s j (par j)")
    case True
    then show ?thesis using "1.prems"(2) by (subst heapUp.simps) (auto simp: Let_def)
  next
    case False
    have i: "par j < n" using "1.prems"(3) by auto
    have "P (heapUp lt sw (par j) (sw (par j) j s))"
      using "1.IH" [OF refl False "1.prems"(1) swapStableD [OF "1.prems"(1) i "1.prems"(3,2)] i] .
    then show ?thesis using False by (subst heapUp.simps) (auto simp: Let_def)
  qed
qed

lemma fix_pres: "swapStable n sw P \<Longrightarrow> P s \<Longrightarrow> i < n \<Longrightarrow> P (heapFix lt sw n i s)"
  using down_pres [of n sw P s i lt] up_pres [of n sw P _ i lt] by (simp add: heapFix_def split_beta)

lemma initLoop_pres: "swapStable n sw P \<Longrightarrow> P s \<Longrightarrow> k \<le> n \<Longrightarrow> P (heapInitLoop lt sw n k s)"
proof (induction k arbitrary: s)
  case (Suc k)
  then have "P (fst (heapDown lt sw k n s))" by (auto intro: down_pres)
  with Suc show ?case by simp
qed simp

lemma init_pres: "swapStable n sw P \<Longrightarrow> P s \<Longrightarrow> P (heapInit lt sw n s)"
  by (simp add: heapInit_def initLoop_pres)

lemma removePrep_pres:
  assumes "swapStable len sw P" and "P s" and "i < len"
  shows "P (heapRemovePrep lt sw len i s)"
proof -
  have "P (sw i (len - 1) s)" using assms by (auto intro: swapStableD)
  moreover have "swapStable (len - 1) sw P" using assms(1) by (rule swapStable_mono) simp
  ultimately show ?thesis using assms by (auto simp: heapRemovePrep_def Let_def intro: fix_pres)
qed

subsection \<open>The interface\<close>

locale heap_interface =
  fixes lt :: "'s \<Rightarrow> nat \<Rightarrow> nat \<Rightarrow> bool"
    and sw :: "nat \<Rightarrow> nat \<Rightarrow> 's \<Rightarrow> 's"
    and keys :: "'s \<Rightarrow> 'k::linorder list"
  assumes less_keys: "i < length (keys s) \<Longrightarrow> j < length (keys s) \<Longrightarrow> lt s i j \<longleftrightarrow> keys s ! i < keys s ! j"
    and keys_swap: "i < length (keys s) \<Longrightarrow> j < length (keys s) \<Longrightarrow> keys (sw i j s) = swapAt i j (keys s)"
begin

lemma downLoop_heap:
  assumes "heapExcept k n i (keys s)" and "n \<le> length (keys s)" and "k \<le> i" and "i < n"
    and "heapDownLoop lt sw n i s = (s', i')"
  shows "heapFrom k n (keys s') \<and> length (keys s') = length (keys s) \<and> mset (keys s') = mset (keys s) \<and>
    i \<le> i' \<and> (\<forall>c<length (keys s). n \<le> c \<longrightarrow> keys s' ! c = keys s ! c) \<and> (i' = i \<longrightarrow> s' = s)"
  using assms
proof (induction "n - i" arbitrary: i s rule: less_induct)
  case less
  note eq = less.prems(5) [unfolded heapDownLoop.simps [of lt sw n i s] Let_def]
  let ?j1 = "2 * i + 1"
  define j where "j = (if ?j1 + 1 < n \<and> lt s (?j1 + 1) ?j1 then ?j1 + 1 else ?j1)"
  show ?case
  proof (cases "n \<le> ?j1 \<or> \<not> lt s j i")
    case True
    with eq have "s' = s" "i' = i" by (auto simp: j_def split: if_splits)
    moreover have "heapFrom k n (keys s)"
      unfolding heapFrom_def
    proof (intro allI impI)
      fix c
      assume c: "c < n" "0 < c \<and> k \<le> par c"
      show "keys s ! par c \<le> keys s ! c"
      proof (cases "par c = i")
        case pc: True
        then have "c = ?j1 \<or> c = ?j1 + 1" using c par_eq [of c i] by auto
        moreover from this c True have "\<not> lt s j i" "j < n" by (auto simp: j_def)
        ultimately show ?thesis
          using pc c less.prems(2,4) less_keys [where s = s] by (auto simp: j_def not_less split: if_splits)
      next
        case False
        with less.prems(1) c show ?thesis by (simp add: heapExcept_def)
      qed
    qed
    ultimately show ?thesis by simp
  next
    case False
    then have j: "j < n" "0 < j" "par j = i" "i < j" "lt s j i" by (auto simp: j_def)
    have len: "i < length (keys s)" "j < length (keys s)" using j less.prems(2,4) by simp_all
    have min: "keys s ! j \<le> keys s ! c" if "c < n" "0 < c" "par c = i" for c
    proof -
      from that have "c = ?j1 \<or> c = ?j1 + 1" using par_eq [of c i] by auto
      then show ?thesis
        using that less.prems(2) less_keys [where s = s] by (auto simp: j_def not_less)
    qed
    have sw: "keys (sw i j s) = swapAt i j (keys s)" by (rule keys_swap [OF len])
    have rec: "heapDownLoop lt sw n j (sw i j s) = (s', i')"
      using eq False by (auto simp: j_def split: if_splits)
    have ex: "heapExcept k n j (keys (sw i j s))"
      unfolding sw using less.prems j min less_keys [OF len(2,1)]
      by (intro heapExcept_swap) auto
    have "heapFrom k n (keys s') \<and> length (keys s') = length (keys (sw i j s)) \<and>
      mset (keys s') = mset (keys (sw i j s)) \<and> j \<le> i' \<and>
      (\<forall>c<length (keys (sw i j s)). n \<le> c \<longrightarrow> keys s' ! c = keys (sw i j s) ! c) \<and> (i' = j \<longrightarrow> s' = sw i j s)"
      by (rule less.hyps [OF _ ex _ _ _ rec]) (use j less.prems sw in auto)
    then show ?thesis
      using sw len j less.prems(2) by (auto simp: nth_swapAt)
  qed
qed

lemma down_heap:
  assumes "heapExcept k n i (keys s)" and "n \<le> length (keys s)" and "k \<le> i" and "i < n"
    and "heapDown lt sw i n s = (s', moved)"
  shows "heapFrom k n (keys s') \<and> length (keys s') = length (keys s) \<and> mset (keys s') = mset (keys s) \<and>
    (\<forall>c<length (keys s). n \<le> c \<longrightarrow> keys s' ! c = keys s ! c) \<and> (\<not> moved \<longrightarrow> s' = s)"
proof -
  obtain i' where "heapDownLoop lt sw n i s = (s', i')" "moved \<longleftrightarrow> i' > i"
    using assms(5) by (auto simp: heapDown_def split: prod.splits)
  with downLoop_heap [OF assms(1-4)] show ?thesis by fastforce
qed

lemma up_heap:
  assumes "heapUpInv n j (keys s)" and "n \<le> length (keys s)" and "j < n"
  shows "heapFrom 0 n (keys (heapUp lt sw j s)) \<and> length (keys (heapUp lt sw j s)) = length (keys s) \<and>
    mset (keys (heapUp lt sw j s)) = mset (keys s) \<and>
    (\<forall>c<length (keys s). n \<le> c \<longrightarrow> keys (heapUp lt sw j s) ! c = keys s ! c)"
  using assms
proof (induction j arbitrary: s rule: less_induct)
  case (less j)
  have len: "j < length (keys s)" "par j < length (keys s)" using less.prems by auto
  show ?case
  proof (cases "par j = j \<or> \<not> lt s j (par j)")
    case True
    have "keys s ! par c \<le> keys s ! c" if "c < n" "0 < c" for c
    proof (cases "c = j")
      case cj: True
      with that have "par j \<noteq> j" using par_less [of j] by simp
      with True less_keys [OF len] cj show ?thesis by (simp add: not_less)
    next
      case False
      with that less.prems(1) show ?thesis by (simp add: heapUpInv_def)
    qed
    moreover have "heapUp lt sw j s = s" using True by (subst heapUp.simps) (auto simp: Let_def)
    ultimately show ?thesis by (simp add: heapFrom_def)
  next
    case False
    then have j: "0 < j" "par j < j" by auto
    have sw: "keys (sw (par j) j s) = swapAt (par j) j (keys s)" by (rule keys_swap [OF len(2,1)])
    have "heapUpInv n (par j) (keys (sw (par j) j s))"
      unfolding sw using less.prems j less_keys [OF len] False by (intro heapUpInv_swap) auto
    note ih = less.IH [OF j(2) this]
    have "heapUp lt sw j s = heapUp lt sw (par j) (sw (par j) j s)"
      using False by (subst heapUp.simps) (auto simp: Let_def)
    with ih sw len j less.prems(2,3) show ?thesis by (auto simp: nth_swapAt)
  qed
qed

text \<open>\<open>Fix\<close> repairs a heap in which only the element at \<open>i\<close> may be out of place.\<close>

lemma fix_heap:
  assumes hole: "heapHole n i (keys s)" and len: "n \<le> length (keys s)" and i: "i < n"
  shows "heapFrom 0 n (keys (heapFix lt sw n i s)) \<and> length (keys (heapFix lt sw n i s)) = length (keys s) \<and>
    mset (keys (heapFix lt sw n i s)) = mset (keys s) \<and>
    (\<forall>c<length (keys s). n \<le> c \<longrightarrow> keys (heapFix lt sw n i s) ! c = keys s ! c)"
proof -
  have rel1: "keys s ! par c \<le> keys s ! c" if "c < n" "0 < c" "par c \<noteq> i" "c \<noteq> i" for c
    using hole that by (simp add: heapHole_def)
  have rel2: "keys s ! par i \<le> keys s ! c" if "c < n" "0 < c" "par c = i" "0 < i" for c
    using hole that by (simp add: heapHole_def)
  obtain s1 moved where d: "heapDown lt sw i n s = (s1, moved)" by (metis prod.exhaust)
  have fx: "heapFix lt sw n i s = (if moved then s1 else heapUp lt sw i s1)" by (simp add: heapFix_def d)
  have leni: "i < length (keys s)" "par i < length (keys s)" using len i by auto
  show ?thesis
  proof (cases "i = 0 \<or> keys s ! par i \<le> keys s ! i")
    case True
    have rel: "keys s ! par c \<le> keys s ! c" if "c < n" "0 < c" "par c \<noteq> i" for c
      using rel1 [of c] True that by (cases "c = i") auto
    have ex: "heapExcept 0 n i (keys s)" unfolding heapExcept_def using rel rel2 by auto
    note dh = down_heap [OF ex len _ i d]
    show ?thesis
    proof (cases moved)
      case True
      with dh fx show ?thesis by simp
    next
      case nm: False
      with dh have s1: "s1 = s" and hp: "heapFrom 0 n (keys s)" by auto
      have "heapUp lt sw i s = s"
        using True less_keys [OF leni] by (subst heapUp.simps) (auto simp: Let_def)
      with nm fx s1 hp show ?thesis by simp
    qed
  next
    case False
    then have out: "0 < i" "keys s ! i < keys s ! par i" by auto
    have stay: "\<not> lt s c i" if "c < n" "0 < c" "par c = i" for c
      using rel2 [OF that] out less_keys [of c s i] that len leni by auto
    have "heapDownLoop lt sw n i s = (s, i)"
      using stay [of "2 * i + 1"] stay [of "2 * i + 2"] by (subst heapDownLoop.simps) (auto simp: Let_def)
    with d have s1: "s1 = s" "\<not> moved" by (auto simp: heapDown_def)
    have "keys s ! par c \<le> keys s ! c" if "c < n" "0 < c" "c \<noteq> i" for c
      using rel1 [of c] rel2 [of c] out that by (cases "par c = i") auto
    then have "heapUpInv n i (keys s)" unfolding heapUpInv_def using rel2 by auto
    from up_heap [OF this len i] s1 fx show ?thesis by simp
  qed
qed

lemma initLoop_heap:
  assumes "heapFrom k n (keys s)" and "n = length (keys s)" and "k \<le> n div 2"
  shows "heapFrom 0 n (keys (heapInitLoop lt sw n k s)) \<and>
    length (keys (heapInitLoop lt sw n k s)) = n \<and> mset (keys (heapInitLoop lt sw n k s)) = mset (keys s)"
  using assms
proof (induction k arbitrary: s)
  case (Suc k)
  obtain s1 moved where d: "heapDown lt sw k n s = (s1, moved)" by (metis prod.exhaust)
  have "heapExcept k n k (keys s)"
    using Suc.prems(1) par_less by (auto simp: heapExcept_def heapFrom_def not_less_eq_eq le_Suc_eq)
  from down_heap [OF this _ _ _ d] Suc.prems have
    "heapFrom k n (keys s1)" "length (keys s1) = n" "mset (keys s1) = mset (keys s)" by auto
  with Suc.IH [of s1] Suc.prems d show ?case by simp
qed simp

lemma init_heap:
  "isHeap (keys (heapInit lt sw (length (keys s)) s)) \<and>
   length (keys (heapInit lt sw (length (keys s)) s)) = length (keys s) \<and>
   mset (keys (heapInit lt sw (length (keys s)) s)) = mset (keys s)"
proof -
  let ?n = "length (keys s)"
  have "heapFrom (?n div 2) ?n (keys s)" by (auto simp: heapFrom_def)
  from initLoop_heap [OF this] show ?thesis by (simp add: heapInit_def)
qed

lemma removePrep_heap:
  assumes "heapHole (length (keys s)) i (keys s)" and "i < length (keys s)"
  shows "length (keys (heapRemovePrep lt sw (length (keys s)) i s)) = length (keys s) \<and>
    heapFrom 0 (length (keys s) - 1) (keys (heapRemovePrep lt sw (length (keys s)) i s)) \<and>
    mset (keys (heapRemovePrep lt sw (length (keys s)) i s)) = mset (keys s) \<and>
    keys (heapRemovePrep lt sw (length (keys s)) i s) ! (length (keys s) - 1) = keys s ! i"
proof (cases "length (keys s) - 1 = i")
  case True
  have "keys s ! par c \<le> keys s ! c" if "c < i" "0 < c" for c
    using assms that par_less [of c] by (simp add: heapHole_def)
  with True assms(2) show ?thesis by (simp add: heapRemovePrep_def heapFrom_def)
next
  case False
  let ?n = "length (keys s) - 1"
  let ?t = "sw i ?n s"
  have n: "i < ?n" "?n < length (keys s)" using assms(2) False by auto
  have t: "keys ?t = swapAt i ?n (keys s)" using keys_swap n by simp
  have nth: "keys ?t ! c = (if c = i then keys s ! ?n else keys s ! c)" if "c < ?n" for c
    unfolding t using nth_swapAt [of i "keys s" ?n c] that n by simp
  have "heapFrom 0 ?n (keys (heapFix lt sw ?n i ?t)) \<and> length (keys (heapFix lt sw ?n i ?t)) = length (keys ?t) \<and>
    mset (keys (heapFix lt sw ?n i ?t)) = mset (keys ?t) \<and>
    (\<forall>c<length (keys ?t). ?n \<le> c \<longrightarrow> keys (heapFix lt sw ?n i ?t) ! c = keys ?t ! c)"
  proof (rule fix_heap)
    have rel: "keys s ! par c \<le> keys s ! c" if "c < length (keys s)" "0 < c" "par c \<noteq> i" "c \<noteq> i" for c
      using assms(1) that by (simp add: heapHole_def)
    have gp: "keys s ! par i \<le> keys s ! c" if "c < length (keys s)" "0 < c" "par c = i" "0 < i" for c
      using assms(1) that by (simp add: heapHole_def)
    have "keys ?t ! par c \<le> keys ?t ! c" if "c < ?n" "0 < c" "par c \<noteq> i" "c \<noteq> i" for c
      using that nth [of c] nth [of "par c"] rel [of c] par_less [of c] by simp
    moreover have "keys ?t ! par i \<le> keys ?t ! c" if "c < ?n" "0 < c" "par c = i" "0 < i" for c
      using that nth [of c] nth [of "par i"] gp [of c] par_less [of i] par_less [of c] n by auto
    ultimately show "heapHole ?n i (keys ?t)" by (simp add: heapHole_def)
  qed (use t n in auto)
  moreover have "keys ?t ! ?n = keys s ! i" unfolding t using nth_swapAt [of i "keys s" ?n ?n] n by simp
  moreover have "length (keys ?t) = length (keys s)" "mset (keys ?t) = mset (keys s)"
    unfolding t using n by simp_all
  ultimately show ?thesis
    using n False by (simp add: heapRemovePrep_def Let_def)
qed

text \<open>The root of a heap is a minimum.\<close>

lemma root_min: "isHeap (keys s) \<Longrightarrow> c < length (keys s) \<Longrightarrow> keys s ! 0 \<le> keys s ! c"
proof (induction c rule: less_induct)
  case (less c)
  show ?case
  proof (cases "c = 0")
    case False
    then have "par c < c" by auto
    with less have "keys s ! 0 \<le> keys s ! par c" by simp
    also have "\<dots> \<le> keys s ! c" using less.prems False by (simp add: heapFrom_def)
    finally show ?thesis .
  qed simp
qed

end

end
