(* ===== verification/Node_Heap.thy ===== *)
theory Node_Heap
  imports Go_Prelude Go_Heap
begin

text \<open>
  The candidate heap of the scheduler (\<open>scheduler/node_heap.go\<close>) and the capacity cache around it
  (\<open>scheduler/cache.go\<close>). The Go heap is a slice of pointers to entries, and the cache's lookup map
  points to the same entries; here the entries live in an arena and both hold indices into it, so
  the bookkeeping of \<open>heapIndex\<close> is modelled as it is.
\<close>

subsection \<open>Data\<close>

record candidateNode =
  cnId :: string
  availCPU :: int
  availMemory :: int
  cnArchitecture :: string
  cnZone :: string
  cnLabels :: "string \<rightharpoonup> string"
  cnRestrictions :: "(string \<times> string) list"

record nodeHeapEntry =
  heNode :: candidateNode
  serviceInstanceCount :: int
  loadScore :: int
  preferRank :: int
  heapIndex :: int

record nodeSelectionHeap =
  arena :: "nodeHeapEntry list"
  heapData :: "nat list"

abbreviation entryAt :: "nodeSelectionHeap \<Rightarrow> nat \<Rightarrow> nodeHeapEntry" where
  "entryAt h p \<equiv> arena h ! (heapData h ! p)"

subsection \<open>The heap interface\<close>

definition heapLen :: "nodeSelectionHeap \<Rightarrow> nat" where
  "heapLen h = length (heapData h)"

definition entryLess :: "nodeHeapEntry \<Rightarrow> nodeHeapEntry \<Rightarrow> bool" where
  "entryLess a b =
     (if serviceInstanceCount a \<noteq> serviceInstanceCount b then serviceInstanceCount a < serviceInstanceCount b
      else if loadScore a \<noteq> loadScore b then loadScore a < loadScore b
      else if preferRank a \<noteq> preferRank b then preferRank a < preferRank b
      else cnId (heNode a) < cnId (heNode b))"

definition heapLess :: "nodeSelectionHeap \<Rightarrow> nat \<Rightarrow> nat \<Rightarrow> bool" where
  "heapLess h a b = entryLess (entryAt h a) (entryAt h b)"

definition setHeapIndex :: "nat \<Rightarrow> int \<Rightarrow> nodeHeapEntry list \<Rightarrow> nodeHeapEntry list" where
  "setHeapIndex r i es = es[r := (es ! r)\<lparr>heapIndex := i\<rparr>]"

definition heapSwap :: "nat \<Rightarrow> nat \<Rightarrow> nodeSelectionHeap \<Rightarrow> nodeSelectionHeap" where
  "heapSwap a b h =
     (let d = swapAt a b (heapData h)
      in h\<lparr>heapData := d, arena := setHeapIndex (d ! b) (int b) (setHeapIndex (d ! a) (int a) (arena h))\<rparr>)"

definition heapPush :: "nodeHeapEntry \<Rightarrow> nodeSelectionHeap \<Rightarrow> nodeSelectionHeap" where
  "heapPush e h = h\<lparr>arena := arena h @ [e\<lparr>heapIndex := int (heapLen h)\<rparr>], heapData := heapData h @ [length (arena h)]\<rparr>"

definition heapPop :: "nodeSelectionHeap \<Rightarrow> nodeSelectionHeap" where
  "heapPop h =
     h\<lparr>heapData := butlast (heapData h), arena := setHeapIndex (last (heapData h)) (-1) (arena h)\<rparr>"

text \<open>\<open>heap.Remove\<close>; the entry it returns is not used by its callers.\<close>

definition heapRemove :: "nat \<Rightarrow> nodeSelectionHeap \<Rightarrow> nodeSelectionHeap" where
  "heapRemove i h = heapPop (heapRemovePrep heapLess heapSwap (heapLen h) i h)"

subsection \<open>Building the heap\<close>

definition hasCapacity :: "int \<Rightarrow> int \<Rightarrow> candidateNode \<Rightarrow> bool" where
  "hasCapacity reqCPU reqMemory c \<longleftrightarrow>
     \<not> (reqCPU > 0 \<and> availCPU c < reqCPU) \<and> \<not> (reqMemory > 0 \<and> availMemory c < reqMemory)"

definition buildEntries :: "candidateNode list \<Rightarrow> (string \<Rightarrow> int) \<Rightarrow> (string \<Rightarrow> int) \<Rightarrow> int \<Rightarrow> int \<Rightarrow> nodeHeapEntry list" where
  "buildEntries candidates load perNode reqCPU reqMemory =
     map (\<lambda>(i, c). \<lparr>heNode = c, serviceInstanceCount = perNode (cnId c), loadScore = load (cnId c),
                    preferRank = int i, heapIndex = 0\<rparr>)
       (filter (\<lambda>(i, c). hasCapacity reqCPU reqMemory c) (enumerate 0 candidates))"

definition buildLookup :: "nodeHeapEntry list \<Rightarrow> string \<rightharpoonup> nat" where
  "buildLookup es = fold (\<lambda>(r, e) m. m(cnId (heNode e) \<mapsto> r)) (enumerate 0 es) Map.empty"

definition buildNodeHeap :: "candidateNode list \<Rightarrow> (string \<Rightarrow> int) \<Rightarrow> (string \<Rightarrow> int) \<Rightarrow> int \<Rightarrow> int \<Rightarrow>
    nodeSelectionHeap \<times> (string \<rightharpoonup> nat)" where
  "buildNodeHeap candidates load perNode reqCPU reqMemory =
     (let es = buildEntries candidates load perNode reqCPU reqMemory;
          h = \<lparr>arena = es, heapData = [0..<length es]\<rparr>
      in (heapInit heapLess heapSwap (heapLen h) h, buildLookup es))"

definition selectFromHeap :: "nodeSelectionHeap \<Rightarrow> string" where
  "selectFromHeap h = (if heapLen h = 0 then [] else cnId (heNode (entryAt h 0)))"

subsection \<open>The capacity cache\<close>

record NodeCapacityCache =
  cacheHeap :: nodeSelectionHeap
  lookupMap :: "string \<rightharpoonup> nat"
  minimumCPU :: int
  minimumMemory :: int

definition NewNodeCapacityCache :: "candidateNode list \<Rightarrow> (string \<Rightarrow> int) \<Rightarrow> (string \<Rightarrow> int) \<Rightarrow> int \<Rightarrow> int \<Rightarrow> NodeCapacityCache" where
  "NewNodeCapacityCache candidates load perNode reqCPU reqMemory =
     (let (h, lookup) = buildNodeHeap candidates load perNode reqCPU reqMemory
      in \<lparr>cacheHeap = h, lookupMap = lookup, minimumCPU = reqCPU, minimumMemory = reqMemory\<rparr>)"

definition BestNode :: "NodeCapacityCache \<Rightarrow> string" where
  "BestNode cache = (if heapLen (cacheHeap cache) = 0 then [] else cnId (heNode (entryAt (cacheHeap cache) 0)))"

definition zoneOf :: "candidateNode \<Rightarrow> string" where
  "zoneOf c = (if cnZone c = [] then ''_default'' else cnZone c)"

definition BestNodeInZones :: "string list \<Rightarrow> NodeCapacityCache \<Rightarrow> string" where
  "BestNodeInZones acceptableZones cache =
     (let h = cacheHeap cache
      in if heapLen h = 0 then []
         else if acceptableZones = [] then cnId (heNode (entryAt h 0))
         else case find (\<lambda>r. zoneOf (heNode (arena h ! r)) \<in> set acceptableZones) (heapData h) of
                Some r \<Rightarrow> cnId (heNode (arena h ! r))
              | None \<Rightarrow> cnId (heNode (entryAt h 0)))"

definition chargeEntry :: "int \<Rightarrow> int \<Rightarrow> nodeHeapEntry \<Rightarrow> nodeHeapEntry" where
  "chargeEntry cpuCost memoryCost e =
     e\<lparr>heNode := (heNode e)\<lparr>availCPU := sub64 (availCPU (heNode e)) cpuCost,
                           availMemory := sub64 (availMemory (heNode e)) memoryCost\<rparr>,
       loadScore := loadScore e + 1, serviceInstanceCount := serviceInstanceCount e + 1\<rparr>"

definition RecordPlacement :: "string \<Rightarrow> int \<Rightarrow> int \<Rightarrow> NodeCapacityCache \<Rightarrow> NodeCapacityCache" where
  "RecordPlacement nodeID cpuCost memoryCost cache =
     (case lookupMap cache nodeID of
        None \<Rightarrow> cache
      | Some r \<Rightarrow>
          let h = cacheHeap cache
          in if heapIndex (arena h ! r) < 0 then cache
             else let e = chargeEntry cpuCost memoryCost (arena h ! r);
                      h1 = h\<lparr>arena := (arena h)[r := e]\<rparr>;
                      exhausted = (minimumCPU cache > 0 \<and> availCPU (heNode e) < minimumCPU cache) \<or>
                                  (minimumMemory cache > 0 \<and> availMemory (heNode e) < minimumMemory cache)
                  in cache\<lparr>cacheHeap :=
                       if exhausted then heapRemove (nat (heapIndex e)) h1
                       else heapFix heapLess heapSwap (heapLen h1) (nat (heapIndex e)) h1\<rparr>)"

definition RemoveNode :: "string \<Rightarrow> NodeCapacityCache \<Rightarrow> NodeCapacityCache" where
  "RemoveNode nodeID cache =
     (case lookupMap cache nodeID of
        None \<Rightarrow> cache
      | Some r \<Rightarrow>
          let h = cacheHeap cache
          in if heapIndex (arena h ! r) < 0 then cache
             else cache\<lparr>cacheHeap := heapRemove (nat (heapIndex (arena h ! r))) h\<rparr>)"

definition cacheLen :: "NodeCapacityCache \<Rightarrow> nat" where
  "cacheLen cache = heapLen (cacheHeap cache)"

subsection \<open>The heap is an instance of the heap interface\<close>

definition entryKey :: "nodeHeapEntry \<Rightarrow> int \<times> int \<times> int \<times> string" where
  "entryKey e = (serviceInstanceCount e, loadScore e, preferRank e, cnId (heNode e))"

definition heapKeys :: "nodeSelectionHeap \<Rightarrow> (int \<times> int \<times> int \<times> string) list" where
  "heapKeys h = map (\<lambda>r. entryKey (arena h ! r)) (heapData h)"

lemma entryLess_key: "entryLess a b \<longleftrightarrow> entryKey a < entryKey b"
  by (auto simp: entryLess_def entryKey_def less_prod_def)

lemma length_heapKeys [simp]: "length (heapKeys h) = heapLen h"
  by (simp add: heapKeys_def heapLen_def)

lemma nth_heapKeys: "p < heapLen h \<Longrightarrow> heapKeys h ! p = entryKey (entryAt h p)"
  by (simp add: heapKeys_def heapLen_def)

lemma heapLen_swap [simp]: "heapLen (heapSwap a b h) = heapLen h"
  by (simp add: heapLen_def heapSwap_def Let_def)

text \<open>A swap touches nothing of an entry but its \<open>heapIndex\<close>.\<close>

lemma setHeapIndex_nth:
  "setHeapIndex r i es ! q = (if q = r \<and> r < length es then (es ! q)\<lparr>heapIndex := i\<rparr> else es ! q)"
  by (auto simp: setHeapIndex_def nth_list_update list_update_beyond not_less)

lemma setHeapIndex_length [simp]: "length (setHeapIndex r i es) = length es"
  by (simp add: setHeapIndex_def)

lemma entryKey_index [simp]: "entryKey (e\<lparr>heapIndex := i\<rparr>) = entryKey e"
  by (simp add: entryKey_def)

lemma own_index: "\<exists>i. (e::nodeHeapEntry) = e\<lparr>heapIndex := i\<rparr>"
  by (rule exI [of _ "heapIndex e"]) simp

lemma arena_swap:
  "arena (heapSwap a b h) ! r = (arena h ! r)\<lparr>heapIndex := heapIndex (arena (heapSwap a b h) ! r)\<rparr>"
  by (simp add: heapSwap_def Let_def setHeapIndex_nth)

lemma heapKeys_swap:
  assumes "i < length (heapKeys h)" and "j < length (heapKeys h)"
  shows "heapKeys (heapSwap i j h) = swapAt i j (heapKeys h)"
proof -
  have "entryKey (arena (heapSwap i j h) ! r) = entryKey (arena h ! r)" for r
    by (subst arena_swap) simp
  then show ?thesis
    using assms by (simp add: heapKeys_def heapSwap_def Let_def swapAt_def map_update heapLen_def)
qed

interpretation nh: heap_interface heapLess heapSwap heapKeys
  by standard (simp_all add: heapLess_def entryLess_key nth_heapKeys heapKeys_swap)

subsection \<open>Bookkeeping of positions\<close>

text \<open>Entries leave the heap with index \<open>-1\<close>. An entry inside has its position as index, or \<open>0\<close> when
  it was never swapped: \<open>buildNodeHeap\<close> does not set the index and \<open>Init\<close> sets it only when it swaps.\<close>

definition heapOk :: "nodeSelectionHeap \<Rightarrow> bool" where
  "heapOk h \<longleftrightarrow>
     distinct (heapData h) \<and> (\<forall>r\<in>set (heapData h). r < length (arena h)) \<and>
     (\<forall>p<heapLen h. heapIndex (entryAt h p) \<in> {int p, 0}) \<and>
     (\<forall>r<length (arena h). r \<notin> set (heapData h) \<longrightarrow> heapIndex (arena h ! r) = -1)"

definition sameCore :: "nodeSelectionHeap \<Rightarrow> nodeSelectionHeap \<Rightarrow> bool" where
  "sameCore h h' \<longleftrightarrow>
     length (arena h') = length (arena h) \<and> mset (heapData h') = mset (heapData h) \<and>
     (\<forall>r. \<exists>i. arena h' ! r = (arena h ! r)\<lparr>heapIndex := i\<rparr>)"

definition indexRight :: "nat \<Rightarrow> nodeSelectionHeap \<Rightarrow> bool" where
  "indexRight r h \<longleftrightarrow> (\<forall>p<heapLen h. heapData h ! p = r \<longrightarrow> heapIndex (arena h ! r) = int p)"

lemma sameCore_refl [simp]: "sameCore h h"
  unfolding sameCore_def by (metis nodeHeapEntry.surjective nodeHeapEntry.update_convs(5))

lemma sameCore_trans: "sameCore g h \<Longrightarrow> sameCore h k \<Longrightarrow> sameCore g k"
  unfolding sameCore_def by (metis nodeHeapEntry.select_convs nodeHeapEntry.update_convs(5) nodeHeapEntry.surjective)

lemma sameCore_nth:
  assumes "sameCore h h'"
  shows "heNode (arena h' ! r) = heNode (arena h ! r)" "entryKey (arena h' ! r) = entryKey (arena h ! r)"
    "loadScore (arena h' ! r) = loadScore (arena h ! r)"
    "serviceInstanceCount (arena h' ! r) = serviceInstanceCount (arena h ! r)"
    "preferRank (arena h' ! r) = preferRank (arena h ! r)"
proof -
  from assms obtain i where "arena h' ! r = (arena h ! r)\<lparr>heapIndex := i\<rparr>" unfolding sameCore_def by blast
  then show "heNode (arena h' ! r) = heNode (arena h ! r)" "entryKey (arena h' ! r) = entryKey (arena h ! r)"
    "loadScore (arena h' ! r) = loadScore (arena h ! r)"
    "serviceInstanceCount (arena h' ! r) = serviceInstanceCount (arena h ! r)"
    "preferRank (arena h' ! r) = preferRank (arena h ! r)"
    by simp_all
qed

lemma sameCore_len: "sameCore h h' \<Longrightarrow> heapLen h' = heapLen h \<and> set (heapData h') = set (heapData h)"
  unfolding sameCore_def heapLen_def by (metis mset_eq_setD size_mset)

lemma sameCore_swap:
  assumes "a < heapLen h" and "b < heapLen h"
  shows "sameCore h (heapSwap a b h)"
proof -
  have "mset (heapData (heapSwap a b h)) = mset (heapData h)"
    using assms by (simp add: heapSwap_def Let_def heapLen_def)
  moreover have "length (arena (heapSwap a b h)) = length (arena h)" by (simp add: heapSwap_def Let_def)
  ultimately show ?thesis unfolding sameCore_def using arena_swap by blast
qed

lemma swap_index:
  assumes "heapOk h" and "a < heapLen h" and "b < heapLen h" and "p < heapLen h"
  shows "heapData (heapSwap a b h) ! p = (if p = a then heapData h ! b else if p = b then heapData h ! a else heapData h ! p)"
    and "heapIndex (entryAt (heapSwap a b h) p) =
      (if p = a \<or> p = b then int p else heapIndex (entryAt h p))"
proof -
  show d: "heapData (heapSwap a b h) ! p = (if p = a then heapData h ! b else if p = b then heapData h ! a else heapData h ! p)"
    for p
    using assms by (cases "p < heapLen h") (auto simp: heapSwap_def Let_def nth_swapAt heapLen_def, auto simp: swapAt_def)
  have valid: "heapData h ! q < length (arena h)" if "q < heapLen h" for q
    using assms(1) that by (auto simp: heapOk_def heapLen_def)
  have inj: "heapData h ! q = heapData h ! q' \<longleftrightarrow> q = q'" if "q < heapLen h" "q' < heapLen h" for q q'
    using assms(1) that by (auto simp: heapOk_def heapLen_def nth_eq_iff_index_eq)
  show "heapIndex (entryAt (heapSwap a b h) p) =
      (if p = a \<or> p = b then int p else heapIndex (entryAt h p))"
    unfolding d using assms(2-4) valid inj
    by (auto simp: heapSwap_def Let_def setHeapIndex_nth nth_swapAt heapLen_def)
qed

lemma heapOk_swap:
  assumes "heapOk h" and "a < heapLen h" and "b < heapLen h"
  shows "heapOk (heapSwap a b h)"
proof -
  let ?h = "heapSwap a b h"
  note core = sameCore_swap [OF assms(2,3)]
  have len: "heapLen ?h = heapLen h" "set (heapData ?h) = set (heapData h)" "length (arena ?h) = length (arena h)"
    using sameCore_len [OF core] core by (simp_all add: sameCore_def)
  have "distinct (heapData ?h)"
    using core assms(1) unfolding sameCore_def heapOk_def by (metis mset_eq_imp_distinct_iff)
  moreover have "heapIndex (entryAt ?h p) \<in> {int p, 0}" if "p < heapLen h" for p
    using swap_index(2) [OF assms that] assms(1) that by (auto simp: heapOk_def)
  moreover have "heapIndex (arena ?h ! r) = -1" if "r < length (arena h)" "r \<notin> set (heapData h)" for r
  proof -
    have "swapAt a b (heapData h) ! a \<in> set (heapData h)" "swapAt a b (heapData h) ! b \<in> set (heapData h)"
      using assms(2,3) by (auto simp: nth_swapAt heapLen_def)
    then have "arena ?h ! r = arena h ! r" using that by (auto simp: heapSwap_def Let_def setHeapIndex_nth)
    with assms(1) that show ?thesis by (simp add: heapOk_def)
  qed
  ultimately show ?thesis using assms(1) len by (simp add: heapOk_def)
qed

lemma indexRight_swap:
  assumes "heapOk h" and "a < heapLen h" and "b < heapLen h" and "indexRight r h"
  shows "indexRight r (heapSwap a b h)"
  unfolding indexRight_def
proof (intro allI impI)
  fix p
  assume p: "p < heapLen (heapSwap a b h)" "heapData (heapSwap a b h) ! p = r"
  then have pl: "p < heapLen h" by simp
  have "heapIndex (arena (heapSwap a b h) ! r) = (if p = a \<or> p = b then int p else heapIndex (entryAt h p))"
    using swap_index(2) [OF assms(1-3) pl] p(2) by simp
  moreover have "heapIndex (entryAt h p) = int p" if "p \<noteq> a" "p \<noteq> b"
    using swap_index(1) [OF assms(1-3) pl] that p(2) assms(4) pl by (simp add: indexRight_def)
  ultimately show "heapIndex (arena (heapSwap a b h) ! r) = int p" by simp
qed

text \<open>What every heap operation keeps, relative to the heap \<open>h0\<close> it started from.\<close>

definition heapFrame :: "nodeSelectionHeap \<Rightarrow> nat set \<Rightarrow> nodeSelectionHeap \<Rightarrow> bool" where
  "heapFrame h0 R h \<longleftrightarrow> heapOk h \<and> sameCore h0 h \<and> (\<forall>r\<in>R. indexRight r h)"

lemma heapFrame_stable: "swapStable (heapLen h0) heapSwap (heapFrame h0 R)"
  unfolding swapStable_def heapFrame_def
  using heapOk_swap indexRight_swap sameCore_len sameCore_swap sameCore_trans by metis

lemma heapFrame_fix:
  assumes "heapFrame h R h" and "i < heapLen h"
  shows "heapFrame h R (heapFix heapLess heapSwap (heapLen h) i h)"
  by (rule fix_pres [OF heapFrame_stable assms])

lemma heapFrame_init: "heapOk h \<Longrightarrow> heapFrame h {} (heapInit heapLess heapSwap (heapLen h) h)"
  by (rule init_pres [OF heapFrame_stable]) (simp add: heapFrame_def)

lemma heapFrame_removePrep:
  assumes "heapOk h" and "i < heapLen h"
  shows "heapFrame h {} (heapRemovePrep heapLess heapSwap (heapLen h) i h)"
  by (rule removePrep_pres [OF heapFrame_stable _ assms(2)]) (simp add: heapFrame_def assms(1))

text \<open>The entry to remove ends up last.\<close>

lemma removePrep_last:
  assumes "i < heapLen h"
  shows "heapData (heapRemovePrep heapLess heapSwap (heapLen h) i h) ! (heapLen h - 1) = heapData h ! i"
proof (cases "heapLen h - 1 = i")
  case True
  then show ?thesis by (simp add: heapRemovePrep_def)
next
  case False
  let ?n = "heapLen h - 1"
  let ?P = "\<lambda>g. heapData g ! ?n = heapData h ! i \<and> heapLen g = heapLen h"
  have n: "i < ?n" "?n < heapLen h" using assms False by auto
  have "heapData (heapSwap a b g) ! ?n = heapData g ! ?n" if "a < ?n" "b < ?n" for a b g
    using that by (simp add: heapSwap_def Let_def swapAt_def)
  then have st: "swapStable ?n heapSwap ?P" unfolding swapStable_def by simp
  have "heapData (heapSwap i ?n h) ! ?n = heapData h ! i"
    using nth_swapAt [of i "heapData h" ?n ?n] n by (simp add: heapSwap_def Let_def heapLen_def)
  then have "?P (heapSwap i ?n h)" by simp
  from fix_pres [where P = ?P, OF st this n(1), of heapLess] False show ?thesis
    by (simp add: heapRemovePrep_def Let_def)
qed

lemma heapPop_frame:
  assumes "heapOk h" and "0 < heapLen h"
  shows "heapOk (heapPop h)" and "set (heapData (heapPop h)) = set (heapData h) - {last (heapData h)}"
    and "length (arena (heapPop h)) = length (arena h)"
    and "\<exists>i. arena (heapPop h) ! r = (arena h ! r)\<lparr>heapIndex := i\<rparr>"
    and "heapKeys (heapPop h) = butlast (heapKeys h)"
proof -
  let ?l = "last (heapData h)"
  have ne: "heapData h \<noteq> []" using assms(2) by (auto simp: heapLen_def)
  have d: "heapData h = butlast (heapData h) @ [?l]" using ne by simp
  have dist: "distinct (heapData h)" using assms(1) by (simp add: heapOk_def)
  then have notin: "?l \<notin> set (butlast (heapData h))" using d by (metis distinct_append not_distinct_conv_prefix)
  show st: "set (heapData (heapPop h)) = set (heapData h) - {?l}"
    using notin by (subst d) (auto simp: heapPop_def simp del: append_butlast_last_id)
  show "length (arena (heapPop h)) = length (arena h)" by (simp add: heapPop_def)
  show ar: "\<exists>i. arena (heapPop h) ! r = (arena h ! r)\<lparr>heapIndex := i\<rparr>" for r
    by (auto simp: heapPop_def setHeapIndex_nth own_index)
  have nth: "heapData (heapPop h) ! p = heapData h ! p" "heapData h ! p \<noteq> ?l" if "p < heapLen (heapPop h)" for p
  proof -
    have p: "p < length (butlast (heapData h))" using that by (simp add: heapPop_def heapLen_def)
    then show eq: "heapData (heapPop h) ! p = heapData h ! p" by (simp add: heapPop_def nth_butlast)
    have "butlast (heapData h) ! p \<in> set (butlast (heapData h))" using p by (rule nth_mem)
    then show "heapData h ! p \<noteq> ?l" using notin nth_butlast [OF p] by auto
  qed
  have len: "heapLen (heapPop h) = heapLen h - 1" by (simp add: heapPop_def heapLen_def)
  have "distinct (heapData (heapPop h))" using dist by (simp add: heapPop_def distinct_butlast)
  moreover have "heapIndex (entryAt (heapPop h) p) \<in> {int p, 0}" if "p < heapLen (heapPop h)" for p
    using nth [OF that] that len assms(1) by (auto simp: heapOk_def heapPop_def setHeapIndex_nth)
  moreover have "heapIndex (arena (heapPop h) ! r) = -1" if "r < length (arena h)" "r \<notin> set (heapData h) - {?l}" for r
    using that assms(1) by (auto simp: heapOk_def heapPop_def setHeapIndex_nth)
  ultimately show "heapOk (heapPop h)"
    using assms(1) unfolding heapOk_def st by (simp add: heapPop_def)
  have "entryKey (arena (heapPop h) ! r) = entryKey (arena h ! r)" for r
    using ar [of r] by auto
  then show "heapKeys (heapPop h) = butlast (heapKeys h)"
    by (simp add: heapKeys_def heapPop_def map_butlast)
qed

lemma heapRemove_frame:
  assumes "heapOk h" and "i < heapLen h" and "heapHole (heapLen h) i (heapKeys h)"
  shows "heapOk (heapRemove i h)" and "isHeap (heapKeys (heapRemove i h))"
    and "set (heapData (heapRemove i h)) = set (heapData h) - {heapData h ! i}"
    and "length (arena (heapRemove i h)) = length (arena h)"
    and "\<exists>i'. arena (heapRemove i h) ! r = (arena h ! r)\<lparr>heapIndex := i'\<rparr>"
proof -
  let ?g = "heapRemovePrep heapLess heapSwap (heapLen h) i h"
  have fr: "heapFrame h {} ?g" by (rule heapFrame_removePrep [OF assms(1,2)])
  then have g: "heapOk ?g" "sameCore h ?g" by (simp_all add: heapFrame_def)
  have len: "heapLen ?g = heapLen h" "set (heapData ?g) = set (heapData h)" using sameCore_len [OF g(2)] by simp_all
  have pos: "0 < heapLen ?g" using assms(2) len by simp
  have last: "last (heapData ?g) = heapData h ! i"
    using removePrep_last [OF assms(2)] pos len(1) by (simp add: last_conv_nth heapLen_def)
  note pop = heapPop_frame [OF g(1) pos]
  show "heapOk (heapRemove i h)" using pop(1) by (simp add: heapRemove_def)
  show "set (heapData (heapRemove i h)) = set (heapData h) - {heapData h ! i}"
    using pop(2) len last by (simp add: heapRemove_def)
  show "length (arena (heapRemove i h)) = length (arena h)"
    using pop(3) g(2) by (simp add: heapRemove_def sameCore_def)
  from g(2) obtain j where "arena ?g ! r = (arena h ! r)\<lparr>heapIndex := j\<rparr>" unfolding sameCore_def by blast
  with pop(4) [of r] show "\<exists>i'. arena (heapRemove i h) ! r = (arena h ! r)\<lparr>heapIndex := i'\<rparr>"
    by (auto simp: heapRemove_def)
  have "heapFrom 0 (heapLen h - 1) (heapKeys ?g)" using nh.removePrep_heap [of h i] assms(2,3) by simp
  then show "isHeap (heapKeys (heapRemove i h))"
    using pop(5) len by (auto simp: heapRemove_def heapFrom_def nth_butlast)
qed

subsection \<open>The invariant of the cache\<close>

definition cacheInv :: "NodeCapacityCache \<Rightarrow> bool" where
  "cacheInv c \<longleftrightarrow>
     (let h = cacheHeap c
      in heapOk h \<and> isHeap (heapKeys h) \<and>
         (\<forall>r\<in>set (heapData h). hasCapacity (minimumCPU c) (minimumMemory c) (heNode (arena h ! r))) \<and>
         (\<forall>i r. lookupMap c i = Some r \<longleftrightarrow> r < length (arena h) \<and> cnId (heNode (arena h ! r)) = i))"

lemma cacheInvD:
  assumes "cacheInv c"
  shows "heapOk (cacheHeap c)" "isHeap (heapKeys (cacheHeap c))"
    "r \<in> set (heapData (cacheHeap c)) \<Longrightarrow> hasCapacity (minimumCPU c) (minimumMemory c) (heNode (arena (cacheHeap c) ! r))"
    "lookupMap c i = Some r \<longleftrightarrow> r < length (arena (cacheHeap c)) \<and> cnId (heNode (arena (cacheHeap c) ! r)) = i"
  using assms by (simp_all add: cacheInv_def Let_def)

text \<open>The entries the heap holds, by arena index, and the root.\<close>

abbreviation live :: "NodeCapacityCache \<Rightarrow> nat set" where
  "live c \<equiv> set (heapData (cacheHeap c))"

abbreviation root :: "NodeCapacityCache \<Rightarrow> nat" where
  "root c \<equiv> heapData (cacheHeap c) ! 0"

lemma root_live: "0 < cacheLen c \<Longrightarrow> root c \<in> live c"
  by (simp add: cacheLen_def heapLen_def)

lemma root_lookup:
  assumes "cacheInv c" and "0 < cacheLen c"
  shows "lookupMap c (BestNode c) = Some (root c)" and "heapIndex (arena (cacheHeap c) ! root c) = 0"
proof -
  have "root c < length (arena (cacheHeap c))"
    using cacheInvD(1) [OF assms(1)] root_live [OF assms(2)] by (auto simp: heapOk_def)
  then show "lookupMap c (BestNode c) = Some (root c)"
    using assms by (simp add: cacheInvD(4) BestNode_def cacheLen_def)
  show "heapIndex (arena (cacheHeap c) ! root c) = 0"
    using cacheInvD(1) [OF assms(1)] assms(2) by (force simp: heapOk_def cacheLen_def)
qed

lemma chargeEntry_simps [simp]:
  "heapIndex (chargeEntry x y e) = heapIndex e" "cnId (heNode (chargeEntry x y e)) = cnId (heNode e)"
  "availCPU (heNode (chargeEntry x y e)) = sub64 (availCPU (heNode e)) x"
  "availMemory (heNode (chargeEntry x y e)) = sub64 (availMemory (heNode e)) y"
  by (simp_all add: chargeEntry_def)

text \<open>Charging an entry in place changes no position.\<close>

lemma heapOk_update:
  assumes "heapOk h" and "heapIndex e = heapIndex (arena h ! r)" and "r < length (arena h)"
  shows "heapOk (h\<lparr>arena := (arena h)[r := e]\<rparr>)"
proof -
  have "heapIndex ((arena h)[r := e] ! q) = heapIndex (arena h ! q)" for q
    using assms(2,3) by (simp add: nth_list_update)
  with assms(1) show ?thesis by (simp add: heapOk_def heapLen_def)
qed

lemma heapKeys_update:
  assumes "heapOk h" and "p < heapLen h"
  shows "heapKeys (h\<lparr>arena := (arena h)[heapData h ! p := e]\<rparr>) = (heapKeys h)[p := entryKey e]"
proof (rule nth_equalityI)
  let ?h = "h\<lparr>arena := (arena h)[heapData h ! p := e]\<rparr>"
  show "length (heapKeys ?h) = length ((heapKeys h)[p := entryKey e])" by (simp add: heapLen_def)
  fix q
  assume "q < length (heapKeys ?h)"
  then have q: "q < heapLen h" by (simp add: heapLen_def)
  have "heapData h ! p < length (arena h)" using assms by (auto simp: heapOk_def heapLen_def)
  moreover have "heapData h ! q = heapData h ! p \<longleftrightarrow> q = p"
    using assms q by (auto simp: heapOk_def heapLen_def nth_eq_iff_index_eq)
  ultimately show "heapKeys ?h ! q = (heapKeys h)[p := entryKey e] ! q"
    using q assms(2) nth_heapKeys [of q h] nth_heapKeys [of q ?h]
    by (auto simp: nth_list_update heapLen_def)
qed

definition exhausted :: "NodeCapacityCache \<Rightarrow> nodeHeapEntry \<Rightarrow> bool" where
  "exhausted c e \<longleftrightarrow> \<not> hasCapacity (minimumCPU c) (minimumMemory c) (heNode e)"

text \<open>Recording a placement on the best node: its entry is charged, and it leaves the heap exactly
  when it cannot host another instance.\<close>

lemma RecordPlacement_best:
  fixes c :: NodeCapacityCache and x y :: int
  assumes inv: "cacheInv c" and ne: "0 < cacheLen c"
  defines "e \<equiv> chargeEntry x y (arena (cacheHeap c) ! root c)"
    and "c' \<equiv> RecordPlacement (BestNode c) x y c"
  shows "cacheInv c'" and "live c' = (if exhausted c e then live c - {root c} else live c)"
    and "\<exists>i. arena (cacheHeap c') ! r = (if r = root c then e else arena (cacheHeap c) ! r)\<lparr>heapIndex := i\<rparr>"
    and "length (arena (cacheHeap c')) = length (arena (cacheHeap c))"
    and "lookupMap c' = lookupMap c \<and> minimumCPU c' = minimumCPU c \<and> minimumMemory c' = minimumMemory c"
    and "indexRight (root c) (cacheHeap c')"
proof -
  define h where "h = cacheHeap c"
  define h1 where "h1 = h\<lparr>arena := (arena h)[root c := e]\<rparr>"
  define h2 where "h2 = (if exhausted c e then heapRemove 0 h1 else heapFix heapLess heapSwap (heapLen h1) 0 h1)"
  note rl = root_lookup [OF inv ne]
  note h_inv = cacheInvD(1,2) [OF inv, folded h_def]
  have rv: "root c < length (arena h)" "root c \<in> set (heapData h)" "0 < heapLen h"
    using cacheInvD(1) [OF inv] root_live [OF ne] ne by (auto simp: heapOk_def h_def cacheLen_def)
  have c': "c' = c\<lparr>cacheHeap := h2\<rparr>"
    using rl unfolding c'_def RecordPlacement_def h2_def h1_def h_def e_def exhausted_def hasCapacity_def
    by (auto simp: Let_def)
  have ok1: "heapOk h1" unfolding h1_def
    using h_inv(1) rv by (intro heapOk_update) (simp_all add: e_def h_def)
  have len1: "heapLen h1 = heapLen h" "heapData h1 = heapData h" by (simp_all add: h1_def heapLen_def)
  have arena1: "arena h1 ! r = (if r = root c then e else arena h ! r)" for r
    using rv by (simp add: h1_def nth_list_update)
  have keys1: "heapKeys h1 = (heapKeys h)[0 := entryKey e]"
    unfolding h1_def using heapKeys_update [OF h_inv(1) rv(3)] by (simp add: h_def)
  have hole: "heapHole (heapLen h1) 0 (heapKeys h1)"
    unfolding keys1 len1 using h_inv(2) by (intro heapHole_root) simp
  have right1: "indexRight (root c) h1"
    unfolding indexRight_def
  proof (intro allI impI)
    fix p
    assume "p < heapLen h1" "heapData h1 ! p = root c"
    then have "p = 0" using h_inv(1) rv(3) by (auto simp: len1 h_def heapOk_def heapLen_def nth_eq_iff_index_eq)
    then show "heapIndex (arena h1 ! root c) = int p" using rl(2) rv by (simp add: arena1 e_def)
  qed
  have h2: "heapOk h2 \<and> isHeap (heapKeys h2) \<and> length (arena h2) = length (arena h) \<and>
    set (heapData h2) = (if exhausted c e then set (heapData h) - {root c} else set (heapData h)) \<and>
    (\<forall>r. \<exists>i. arena h2 ! r = (arena h1 ! r)\<lparr>heapIndex := i\<rparr>) \<and> indexRight (root c) h2"
  proof (cases "exhausted c e")
    case True
    have p: "0 < heapLen h1" using rv len1 by simp
    note rf = heapRemove_frame [OF ok1 p hole]
    have d0: "heapData h1 ! 0 = root c" by (simp add: len1 h_def)
    have "root c \<notin> set (heapData (heapRemove 0 h1))" using rf(3) d0 by simp
    then have "indexRight (root c) (heapRemove 0 h1)" unfolding indexRight_def heapLen_def by (metis nth_mem)
    with rf d0 True show ?thesis by (simp add: h2_def len1 h1_def)
  next
    case False
    have p: "0 < heapLen h1" using rv len1 by simp
    have "heapFrame h1 {root c} h1" using ok1 right1 by (simp add: heapFrame_def)
    from heapFrame_fix [OF this p] False have fr: "heapFrame h1 {root c} h2" by (simp add: h2_def)
    have "isHeap (heapKeys h2)"
      using nh.fix_heap [OF hole _ p] False by (simp add: h2_def)
    with fr False sameCore_len [of h1 h2] show ?thesis
      by (auto simp: heapFrame_def sameCore_def len1) (simp add: h1_def)
  qed
  show lk: "lookupMap c' = lookupMap c \<and> minimumCPU c' = minimumCPU c \<and> minimumMemory c' = minimumMemory c"
    by (simp add: c')
  show lv: "live c' = (if exhausted c e then live c - {root c} else live c)" using h2 by (simp add: c' h_def)
  have ar: "\<exists>i. arena h2 ! r = (if r = root c then e else arena h ! r)\<lparr>heapIndex := i\<rparr>" for r
    using h2 unfolding arena1 by blast
  have c'h: "cacheHeap c' = h2" by (simp add: c')
  show "\<exists>i. arena (cacheHeap c') ! r = (if r = root c then e else arena (cacheHeap c) ! r)\<lparr>heapIndex := i\<rparr>"
    for r unfolding c'h h_def [symmetric] by (rule ar [of r, folded h_def])
  show "length (arena (cacheHeap c')) = length (arena (cacheHeap c))" using h2 by (simp add: c' h_def)
  show "indexRight (root c) (cacheHeap c')" using h2 by (simp add: c')
  have node: "heNode (arena h2 ! r) = (if r = root c then heNode e else heNode (arena h ! r))" for r
    using ar [of r] by auto
  then have ids: "cnId (heNode (arena h2 ! r)) = cnId (heNode (arena h ! r))" for r
    by (simp add: e_def h_def)
  have "hasCapacity (minimumCPU c) (minimumMemory c) (heNode (arena h2 ! r))" if "r \<in> set (heapData h2)" for r
    using that h2 cacheInvD(3) [OF inv, of r] node [of r]
    by (auto simp: exhausted_def h_def split: if_splits)
  then show "cacheInv c'"
    using h2 cacheInvD(4) [OF inv] ids by (simp add: cacheInv_def Let_def c' h_def)
qed

text \<open>Removing a node whose index is right, or that has already left.\<close>

lemma RemoveNode_right:
  assumes inv: "cacheInv c" and r: "lookupMap c i = Some r" and right: "indexRight r (cacheHeap c)"
  defines "c' \<equiv> RemoveNode i c"
  shows "cacheInv c'" and "live c' = live c - {r}"
    and "\<exists>i. arena (cacheHeap c') ! q = (arena (cacheHeap c) ! q)\<lparr>heapIndex := i\<rparr>"
    and "length (arena (cacheHeap c')) = length (arena (cacheHeap c))"
    and "lookupMap c' = lookupMap c \<and> minimumCPU c' = minimumCPU c \<and> minimumMemory c' = minimumMemory c"
proof -
  define h where "h = cacheHeap c"
  have rv: "r < length (arena h)" using r cacheInvD(4) [OF inv] by (simp add: h_def)
  have ok: "heapOk h" and heap: "isHeap (heapKeys h)" using cacheInvD(1,2) [OF inv] by (simp_all add: h_def)
  define h2 where "h2 = (if r \<in> set (heapData h) then heapRemove (nat (heapIndex (arena h ! r))) h else h)"
  have facts: "c' = c\<lparr>cacheHeap := h2\<rparr> \<and> heapOk h2 \<and> isHeap (heapKeys h2) \<and> set (heapData h2) = set (heapData h) - {r} \<and>
    (\<forall>q. \<exists>i. arena h2 ! q = (arena h ! q)\<lparr>heapIndex := i\<rparr>) \<and> length (arena h2) = length (arena h)"
  proof (cases "r \<in> set (heapData h)")
    case True
    then obtain p where p: "p < heapLen h" "heapData h ! p = r" by (auto simp: in_set_conv_nth heapLen_def)
    then have ix: "heapIndex (arena h ! r) = int p" using right by (simp add: indexRight_def h_def)
    have hole: "heapHole (heapLen h) p (heapKeys h)" using heap p(1) by (intro heapHole_heap) simp_all
    from heapRemove_frame [OF ok p(1) hole] p ix True r show ?thesis
      by (simp add: c'_def RemoveNode_def h2_def h_def Let_def)
  next
    case False
    then have "heapIndex (arena h ! r) = -1" using ok rv by (simp add: heapOk_def)
    with False r ok heap show ?thesis
      by (simp add: c'_def RemoveNode_def h2_def h_def Let_def own_index)
  qed
  show "live c' = live c - {r}" using facts by (simp add: h_def)
  show "\<exists>i. arena (cacheHeap c') ! q = (arena (cacheHeap c) ! q)\<lparr>heapIndex := i\<rparr>" for q
    using facts by (simp add: h_def)
  show "length (arena (cacheHeap c')) = length (arena (cacheHeap c))" using facts by (simp add: h_def)
  show "lookupMap c' = lookupMap c \<and> minimumCPU c' = minimumCPU c \<and> minimumMemory c' = minimumMemory c"
    using facts by simp
  have node: "heNode (arena h2 ! q) = heNode (arena h ! q)" for q
    using facts by (metis nodeHeapEntry.select_convs(1) nodeHeapEntry.surjective nodeHeapEntry.update_convs(5))
  show "cacheInv c'"
    using facts cacheInvD(3,4) [OF inv] by (simp add: cacheInv_def Let_def node h_def [symmetric])
qed

subsection \<open>A new cache\<close>

lemma buildLookup_snoc:
  "buildLookup (es @ [e]) = (buildLookup es)(cnId (heNode e) \<mapsto> length es)"
  by (simp add: buildLookup_def enumerate_append_eq)

lemma buildLookup_iff:
  "distinct (map (\<lambda>e. cnId (heNode e)) es) \<Longrightarrow>
     buildLookup es i = Some r \<longleftrightarrow> r < length es \<and> cnId (heNode (es ! r)) = i"
proof (induction es arbitrary: r rule: rev_induct)
  case Nil
  then show ?case by (simp add: buildLookup_def)
next
  case (snoc e es)
  have ids: "cnId (heNode (es ! q)) \<noteq> cnId (heNode e)" if "q < length es" for q
  proof -
    have "cnId (heNode (es ! q)) \<in> (\<lambda>e. cnId (heNode e)) ` set es" using that by simp
    moreover have "cnId (heNode e) \<notin> (\<lambda>e. cnId (heNode e)) ` set es" using snoc.prems by simp
    ultimately show ?thesis by metis
  qed
  from snoc have ih: "buildLookup es i = Some r \<longleftrightarrow> r < length es \<and> cnId (heNode (es ! r)) = i" by simp
  show ?case
  proof (cases "i = cnId (heNode e)")
    case True
    then show ?thesis using ids [of r] by (auto simp: buildLookup_snoc nth_append less_Suc_eq)
  next
    case False
    then show ?thesis using ih by (auto simp: buildLookup_snoc nth_append less_Suc_eq)
  qed
qed

lemma buildEntries_nodes:
  "map heNode (buildEntries cands load perNode x y) = filter (hasCapacity x y) cands"
proof -
  have "map snd (filter (\<lambda>(i, c). hasCapacity x y c) (enumerate n cands)) = filter (hasCapacity x y) cands" for n
    by (induction cands arbitrary: n) auto
  then show ?thesis by (simp add: buildEntries_def split_beta comp_def)
qed

lemma buildEntries_fields:
  "e \<in> set (buildEntries cands load perNode x y) \<Longrightarrow>
     hasCapacity x y (heNode e) \<and> heapIndex e = 0 \<and> loadScore e = load (cnId (heNode e)) \<and>
     serviceInstanceCount e = perNode (cnId (heNode e))"
  by (auto simp: buildEntries_def)

lemma filter_map_distinct: "distinct (map f xs) \<Longrightarrow> distinct (map f (filter P xs))"
  by (induction xs) auto

lemma cacheInv_new:
  fixes cands load perNode x y
  assumes "distinct (map cnId cands)"
  defines "c \<equiv> NewNodeCapacityCache cands load perNode x y"
    and "es \<equiv> buildEntries cands load perNode x y"
  shows "cacheInv c" and "live c = {..<length es}"
    and "length (arena (cacheHeap c)) = length es"
    and "\<exists>i. arena (cacheHeap c) ! r = (es ! r)\<lparr>heapIndex := i\<rparr>"
    and "minimumCPU c = x \<and> minimumMemory c = y"
proof -
  define h where "h = \<lparr>arena = es, heapData = [0..<length es]\<rparr>"
  define g where "g = heapInit heapLess heapSwap (heapLen h) h"
  have c: "c = \<lparr>cacheHeap = g, lookupMap = buildLookup es, minimumCPU = x, minimumMemory = y\<rparr>"
    by (simp add: c_def NewNodeCapacityCache_def buildNodeHeap_def g_def h_def es_def Let_def)
  have e0: "heapIndex (es ! r) = 0 \<and> hasCapacity x y (heNode (es ! r))" if "r < length es" for r
    using buildEntries_fields [OF nth_mem [OF that [unfolded es_def]]] unfolding es_def by blast
  have ok: "heapOk h" unfolding heapOk_def h_def heapLen_def using e0 by simp
  then have fr: "heapFrame h {} g" unfolding g_def by (rule heapFrame_init)
  then have g: "heapOk g" "sameCore h g" by (simp_all add: heapFrame_def)
  have heap: "isHeap (heapKeys g)" using nh.init_heap [of h] unfolding length_heapKeys g_def by blast
  have set_g: "set (heapData g) = {..<length es}" using sameCore_len [OF g(2)] by (simp add: h_def lessThan_atLeast0)
  have "map (\<lambda>e. cnId (heNode e)) es = map cnId (map heNode es)" by simp
  also have "\<dots> = map cnId (filter (hasCapacity x y) cands)" by (simp only: es_def buildEntries_nodes)
  finally have dist: "distinct (map (\<lambda>e. cnId (heNode e)) es)"
    using filter_map_distinct [OF assms(1)] by simp
  have node: "heNode (arena g ! r) = heNode (es ! r)" for r using sameCore_nth(1) [OF g(2)] by (simp add: h_def)
  have len: "length (arena g) = length es" using g(2) by (simp add: sameCore_def h_def)
  have cap: "\<forall>r\<in>set (heapData g). hasCapacity x y (heNode (arena g ! r))"
    unfolding set_g node using e0 by blast
  have lk: "\<forall>i r. buildLookup es i = Some r \<longleftrightarrow> r < length (arena g) \<and> cnId (heNode (arena g ! r)) = i"
    unfolding node len using buildLookup_iff [OF dist] by blast
  show "cacheInv c" unfolding c cacheInv_def Let_def using g(1) heap cap lk by simp
  show "live c = {..<length es}" using set_g by (simp add: c)
  show "length (arena (cacheHeap c)) = length es" using len by (simp add: c)
  show "\<exists>i. arena (cacheHeap c) ! r = (es ! r)\<lparr>heapIndex := i\<rparr>"
    using g(2) by (simp add: sameCore_def h_def c)
  show "minimumCPU c = x \<and> minimumMemory c = y" by (simp add: c)
qed

lemma BestNode_min:
  assumes "cacheInv c" and "r \<in> live c"
  shows "entryKey (arena (cacheHeap c) ! root c) \<le> entryKey (arena (cacheHeap c) ! r)"
proof -
  let ?h = "cacheHeap c"
  from assms(2) obtain p where p: "p < heapLen ?h" "heapData ?h ! p = r"
    by (auto simp: in_set_conv_nth heapLen_def)
  then have "heapKeys ?h ! 0 \<le> heapKeys ?h ! p" using nh.root_min cacheInvD(2) [OF assms(1)] by simp
  moreover have "0 < heapLen ?h" using p by simp
  ultimately show ?thesis using p by (simp add: nth_heapKeys)
qed

subsection \<open>The cache against a linear scan\<close>

text \<open>One placement of a batch without zone spread: the best node is charged, and in per-node mode
  it is also removed.\<close>

definition cacheStep :: "bool \<Rightarrow> int \<Rightarrow> int \<Rightarrow> NodeCapacityCache \<Rightarrow> NodeCapacityCache" where
  "cacheStep pn x y c =
     (let c' = RecordPlacement (BestNode c) x y c in if pn then RemoveNode (BestNode c) c' else c')"

fun cacheRun :: "bool \<Rightarrow> int \<Rightarrow> int \<Rightarrow> nat \<Rightarrow> NodeCapacityCache \<Rightarrow> string list" where
  "cacheRun pn x y 0 c = []"
| "cacheRun pn x y (Suc n) c =
     (if cacheLen c = 0 then [] else BestNode c # cacheRun pn x y n (cacheStep pn x y c))"

text \<open>The reference: scan all entries that still have capacity and are not excluded for the smallest
  key, charge it, exclude it in per-node mode, repeat.\<close>

definition refBest :: "int \<Rightarrow> int \<Rightarrow> nat list \<Rightarrow> nodeHeapEntry list \<Rightarrow> nat option" where
  "refBest x y X es =
     (case filter (\<lambda>r. hasCapacity x y (heNode (es ! r)) \<and> r \<notin> set X) [0..<length es] of
        [] \<Rightarrow> None
      | rs \<Rightarrow> Some (arg_min_list (\<lambda>r. entryKey (es ! r)) rs))"

fun refRun :: "bool \<Rightarrow> int \<Rightarrow> int \<Rightarrow> nat \<Rightarrow> nat list \<Rightarrow> nodeHeapEntry list \<Rightarrow> string list" where
  "refRun pn x y 0 X es = []"
| "refRun pn x y (Suc n) X es =
     (case refBest x y X es of
        None \<Rightarrow> []
      | Some r \<Rightarrow> cnId (heNode (es ! r)) #
          refRun pn x y n (if pn then r # X else X) (es[r := chargeEntry x y (es ! r)]))"

definition simCache :: "int \<Rightarrow> int \<Rightarrow> nat list \<Rightarrow> nodeHeapEntry list \<Rightarrow> NodeCapacityCache \<Rightarrow> bool" where
  "simCache x y X es c \<longleftrightarrow>
     cacheInv c \<and> minimumCPU c = x \<and> minimumMemory c = y \<and> length (arena (cacheHeap c)) = length es \<and>
     (\<forall>r. \<exists>i. arena (cacheHeap c) ! r = (es ! r)\<lparr>heapIndex := i\<rparr>) \<and>
     live c = {r. r < length es \<and> hasCapacity x y (heNode (es ! r)) \<and> r \<notin> set X}"

lemma simCacheD:
  assumes "simCache x y X es c"
  shows "cacheInv c" "minimumCPU c = x" "minimumMemory c = y" "length (arena (cacheHeap c)) = length es"
    "\<exists>i. arena (cacheHeap c) ! r = (es ! r)\<lparr>heapIndex := i\<rparr>"
    "live c = {r. r < length es \<and> hasCapacity x y (heNode (es ! r)) \<and> r \<notin> set X}"
  using assms by (simp_all add: simCache_def)

lemma simCache_nth:
  assumes "simCache x y X es c"
  shows "heNode (arena (cacheHeap c) ! r) = heNode (es ! r)" "entryKey (arena (cacheHeap c) ! r) = entryKey (es ! r)"
proof -
  obtain i where "arena (cacheHeap c) ! r = (es ! r)\<lparr>heapIndex := i\<rparr>" using simCacheD(5) [OF assms] ..
  then show "heNode (arena (cacheHeap c) ! r) = heNode (es ! r)" "entryKey (arena (cacheHeap c) ! r) = entryKey (es ! r)"
    by simp_all
qed

lemma refBest_root:
  assumes "simCache x y X es c"
  shows "refBest x y X es = (if cacheLen c = 0 then None else Some (root c))"
proof -
  define rs where "rs = filter (\<lambda>r. hasCapacity x y (heNode (es ! r)) \<and> r \<notin> set X) [0..<length es]"
  have lv: "live c = set rs" using simCacheD(6) [OF assms] by (auto simp: rs_def)
  show ?thesis
  proof (cases "cacheLen c = 0")
    case True
    then have "rs = []" using lv by (simp add: cacheLen_def heapLen_def)
    with True show ?thesis by (simp add: refBest_def rs_def [symmetric])
  next
    case False
    then have rt: "root c \<in> set rs" using root_live [of c] lv by simp
    define m where "m = arg_min_list (\<lambda>r. entryKey (es ! r)) rs"
    have ne: "rs \<noteq> []" using rt by auto
    have m: "m \<in> set rs" "\<forall>q\<in>set rs. entryKey (es ! m) \<le> entryKey (es ! q)"
      using arg_min_list_in [OF ne] f_arg_min_list_f [OF ne, of "\<lambda>r. entryKey (es ! r)"]
      unfolding m_def by simp_all
    note inv = simCacheD(1) [OF assms]
    have "entryKey (es ! root c) \<le> entryKey (es ! m)"
      using BestNode_min [OF inv, of m] m(1) lv simCache_nth [OF assms] by simp
    with m(2) rt have "entryKey (es ! m) = entryKey (es ! root c)" by (meson order_antisym)
    then have "cnId (heNode (es ! m)) = cnId (heNode (es ! root c))" by (simp add: entryKey_def)
    moreover have "m < length es" "root c < length es" using m(1) rt by (simp_all add: rs_def)
    ultimately have "lookupMap c (cnId (heNode (es ! m))) = Some m" "lookupMap c (cnId (heNode (es ! m))) = Some (root c)"
      using cacheInvD(4) [OF inv] simCache_nth(1) [OF assms] simCacheD(4) [OF assms] by simp_all
    then have "m = root c" by simp
    moreover obtain a rs' where "rs = a # rs'" using ne by (cases rs) auto
    ultimately show ?thesis
      using False by (simp add: refBest_def rs_def [symmetric] m_def)
  qed
qed

lemma simCache_record:
  assumes sim: "simCache x y X es c" and ne: "0 < cacheLen c"
  shows "simCache x y X (es[root c := chargeEntry x y (es ! root c)]) (RecordPlacement (BestNode c) x y c)"
proof -
  let ?e = "chargeEntry x y (arena (cacheHeap c) ! root c)"
  let ?es = "es[root c := chargeEntry x y (es ! root c)]"
  note inv = simCacheD(1) [OF sim] and len = simCacheD(4) [OF sim] and mins = simCacheD(2,3) [OF sim]
  note rp = RecordPlacement_best [OF inv ne, of x y]
  have rv: "root c < length es" using root_live [OF ne] simCacheD(6) [OF sim] by simp
  obtain i0 where i0: "arena (cacheHeap c) ! root c = (es ! root c)\<lparr>heapIndex := i0\<rparr>"
    using simCacheD(5) [OF sim] ..
  have ar: "\<exists>i. arena (cacheHeap (RecordPlacement (BestNode c) x y c)) ! r = (?es ! r)\<lparr>heapIndex := i\<rparr>" for r
  proof (cases "r = root c")
    case True
    with rp(3) [of r] i0 rv show ?thesis by (auto simp: chargeEntry_def)
  next
    case False
    obtain j where "arena (cacheHeap c) ! r = (es ! r)\<lparr>heapIndex := j\<rparr>" using simCacheD(5) [OF sim] ..
    with False rp(3) [of r] show ?thesis by auto
  qed
  have ex: "exhausted c ?e \<longleftrightarrow> \<not> hasCapacity x y (heNode (?es ! root c))"
    using rv i0 by (simp add: exhausted_def mins chargeEntry_def)
  have "live (RecordPlacement (BestNode c) x y c) =
      {r. r < length ?es \<and> hasCapacity x y (heNode (?es ! r)) \<and> r \<notin> set X}"
    unfolding rp(2) simCacheD(6) [OF sim] ex
    using rv root_live [OF ne, unfolded simCacheD(6) [OF sim]] by (auto simp: nth_list_update)
  with rp(1,4,5) ar len mins show ?thesis by (simp add: simCache_def)
qed

lemma simCache_remove:
  assumes sim: "simCache x y X es c" and r: "lookupMap c i = Some r" and right: "indexRight r (cacheHeap c)"
  shows "simCache x y (r # X) es (RemoveNode i c)"
proof -
  note rm = RemoveNode_right [OF simCacheD(1) [OF sim] r right]
  have "\<exists>j. arena (cacheHeap (RemoveNode i c)) ! q = (es ! q)\<lparr>heapIndex := j\<rparr>" for q
  proof -
    obtain j where "arena (cacheHeap c) ! q = (es ! q)\<lparr>heapIndex := j\<rparr>" using simCacheD(5) [OF sim] ..
    with rm(3) [of q] show ?thesis by auto
  qed
  moreover have "live (RemoveNode i c) = {q. q < length es \<and> hasCapacity x y (heNode (es ! q)) \<and> q \<notin> set (r # X)}"
    unfolding rm(2) simCacheD(6) [OF sim] by auto
  ultimately show ?thesis
    using rm(1,4,5) simCacheD(2,3,4) [OF sim] by (simp add: simCache_def)
qed

lemma simCache_step:
  assumes sim: "simCache x y X es c" and ne: "0 < cacheLen c"
  shows "simCache x y (if pn then root c # X else X) (es[root c := chargeEntry x y (es ! root c)]) (cacheStep pn x y c)"
proof -
  note inv = simCacheD(1) [OF sim]
  note rp = RecordPlacement_best [OF inv ne, of x y]
  have "lookupMap (RecordPlacement (BestNode c) x y c) (BestNode c) = Some (root c)"
    using rp(5) root_lookup(1) [OF inv ne] by simp
  from simCache_remove [OF simCache_record [OF sim ne] this rp(6)] simCache_record [OF sim ne] show ?thesis
    by (simp add: cacheStep_def Let_def)
qed

lemma BestNode_sim: "simCache x y X es c \<Longrightarrow> 0 < cacheLen c \<Longrightarrow> BestNode c = cnId (heNode (es ! root c))"
  using simCache_nth(1) [of x y X es c "root c"] by (simp add: BestNode_def cacheLen_def)

lemma cacheRun_refRun: "simCache x y X es c \<Longrightarrow> cacheRun pn x y n c = refRun pn x y n X es"
proof (induction n arbitrary: X es c)
  case (Suc n)
  show ?case
  proof (cases "cacheLen c = 0")
    case True
    with refBest_root [OF Suc.prems] show ?thesis by simp
  next
    case False
    then have ne: "0 < cacheLen c" by simp
    show ?thesis
      using False refBest_root [OF Suc.prems] BestNode_sim [OF Suc.prems ne]
        Suc.IH [OF simCache_step [OF Suc.prems ne, of pn]] by simp
  qed
qed simp

lemma simCache_new:
  assumes "distinct (map cnId cands)"
  shows "simCache x y [] (buildEntries cands load perNode x y) (NewNodeCapacityCache cands load perNode x y)"
proof -
  note new = cacheInv_new [OF assms, of load perNode x y]
  let ?es = "buildEntries cands load perNode x y"
  have "{..<length ?es} = {r. r < length ?es \<and> hasCapacity x y (heNode (?es ! r))}"
    using buildEntries_fields [OF nth_mem] by (auto simp: lessThan_def)
  with new show ?thesis by (simp add: simCache_def)
qed

subsection \<open>Properties\<close>

text \<open>C6. The capacity cache is equivalent to a linear scan: for candidates with distinct
  identifiers, the nodes a batch obtains from the heap through \<open>BestNode\<close> and \<open>RecordPlacement\<close> are,
  one by one, those of the reference that scans all entries with enough remaining CPU and memory
  for the smallest (instances of the service, load, preference rank, identifier) and charges it;
  in per-node mode (\<open>pn\<close>) each chosen node is also excluded from the rest of the batch.\<close>

theorem capacity_cache_refines_scan:
  assumes "distinct (map cnId cands)"
  shows "cacheRun pn reqCPU reqMemory n (NewNodeCapacityCache cands load perNode reqCPU reqMemory) =
    refRun pn reqCPU reqMemory n [] (buildEntries cands load perNode reqCPU reqMemory)"
  by (rule cacheRun_refRun [OF simCache_new [OF assms]])

definition exampleNode :: "string \<Rightarrow> int \<Rightarrow> string \<Rightarrow> candidateNode" where
  "exampleNode i cpu z =
     \<lparr>cnId = i, availCPU = cpu, availMemory = 0, cnArchitecture = [], cnZone = z, cnLabels = Map.empty, cnRestrictions = []\<rparr>"

theorem capacity_cache_refines_scan_witness:
  "cacheRun False 100 0 3 (NewNodeCapacityCache [exampleNode ''a'' 100 [], exampleNode ''b'' 250 []] (\<lambda>i. 0) (\<lambda>i. 0) 100 0)
     = [''a'', ''b'', ''b'']"
proof -
  let ?cs = "[exampleNode ''a'' 100 [], exampleNode ''b'' 250 []]"
  have "distinct (map cnId ?cs)" by (simp add: exampleNode_def)
  moreover have "refRun False 100 0 3 [] (buildEntries ?cs (\<lambda>i. 0) (\<lambda>i. 0) 100 0) = [''a'', ''b'', ''b'']"
    by code_simp
  ultimately show ?thesis using capacity_cache_refines_scan [of ?cs False 100 0 3 "\<lambda>i. 0" "\<lambda>i. 0"] by simp
qed

text \<open>\<open>buildNodeHeap\<close> never sets \<open>heapIndex\<close>, so a placement on an entry that is not the root and
  was never swapped acts on the root instead: recording a placement that exhausts node \<open>b\<close> evicts
  node \<open>a\<close>, which is still free, and keeps \<open>b\<close>, which is then chosen again beyond its capacity.\<close>

lemma stale_heap_index_overcommits:
  "let c0 = NewNodeCapacityCache [exampleNode ''a'' 100 ''z1'', exampleNode ''b'' 100 ''z2''] (\<lambda>i. 0) (\<lambda>i. 0) 100 0;
       n1 = BestNodeInZones [''z2''] c0;
       c1 = RecordPlacement n1 100 0 c0;
       n2 = BestNodeInZones [''z2''] c1;
       c2 = RecordPlacement n2 100 0 c1
   in n1 = ''b'' \<and> n2 = ''b'' \<and>
      map (\<lambda>r. cnId (heNode (arena (cacheHeap c1) ! r))) (heapData (cacheHeap c1)) = [''b''] \<and>
      map (\<lambda>e. (cnId (heNode e), availCPU (heNode e))) (arena (cacheHeap c2)) = [(''a'', 100), (''b'', -100)]"
  by code_simp

text \<open>\<open>BestNodeInZones\<close> takes the first acceptable entry of the heap's array, which is not the
  least loaded one: here it returns \<open>b\<close> with two instances although \<open>c\<close> of the same zone has one.\<close>

lemma BestNodeInZones_not_least_loaded:
  "let c = NewNodeCapacityCache [exampleNode ''a'' 0 ''z1'', exampleNode ''b'' 0 ''z2'', exampleNode ''c'' 0 ''z2'']
             (\<lambda>i. 0) (\<lambda>i. if i = ''b'' then 2 else if i = ''c'' then 1 else 0) 0 0
   in BestNodeInZones [''z2''] c = ''b'' \<and>
      map (\<lambda>r. (cnId (heNode (arena (cacheHeap c) ! r)), serviceInstanceCount (arena (cacheHeap c) ! r)))
        (heapData (cacheHeap c)) = [(''a'', 0), (''b'', 2), (''c'', 1)]"
  by code_simp

end
