(* ===== verification/Scheduler_Facts.thy ===== *)
theory Scheduler_Facts
  imports Fact_Keys Prefix_Search Go_Strconv Node_Heap
begin

text \<open>
  The inputs of the scheduler (\<open>scheduler/scheduler.go\<close>): the structures it works on and the
  functions that parse them from the flat list of facts. Maps that the code ranges over (nodes,
  instances, placements, require and prefer labels, restrictions) are association lists, the
  others are functions; a map to \<open>int\<close> whose missing entries read as 0 is a total function.
\<close>

subsection \<open>Structures\<close>

record schedulerNodeInfo =
  snId :: string
  snState :: string
  snAvailCPU :: int
  snAvailMemory :: int
  snArchitecture :: string
  snZone :: string
  snLabels :: "string \<rightharpoonup> string"
  snRestrictions :: "(string \<times> string) list"

record schedulerInstanceInfo =
  siService :: string
  siState :: string
  startupProbeState :: string
  stillStarting :: bool

record serviceResourceRequirements =
  resCPU :: int
  resMemory :: int

record servicePlacementConstraint =
  spMode :: string
  spArchitecture :: string
  zonePolicy :: string
  zoneMaxSkew :: int
  spRequire :: "(string \<times> string) list"
  spPrefer :: "(string \<times> string) list"
  spAccept :: "string list"
  colocate :: "string list"
  separate :: "string list"
  spRebalance :: bool
  volumeHomeNodes :: "string list"

type_synonym nodeMap = "(string \<times> schedulerNodeInfo) list"
type_synonym instanceMap = "(string \<times> schedulerInstanceInfo) list"
type_synonym placementMap = "(string \<times> string) list"
type_synonym constraintMap = "string \<rightharpoonup> servicePlacementConstraint"
type_synonym resourceMap = "string \<rightharpoonup> serviceResourceRequirements"

definition zeroNodeInfo :: "string \<Rightarrow> schedulerNodeInfo" where
  "zeroNodeInfo nodeID = \<lparr>snId = nodeID, snState = [], snAvailCPU = 0, snAvailMemory = 0,
     snArchitecture = [], snZone = [], snLabels = Map.empty, snRestrictions = []\<rparr>"

definition zeroInstanceInfo :: schedulerInstanceInfo where
  "zeroInstanceInfo = \<lparr>siService = [], siState = [], startupProbeState = [], stillStarting = False\<rparr>"

definition zeroResources :: serviceResourceRequirements where
  "zeroResources = \<lparr>resCPU = 0, resMemory = 0\<rparr>"

definition zeroConstraint :: servicePlacementConstraint where
  "zeroConstraint = \<lparr>spMode = [], spArchitecture = [], zonePolicy = [], zoneMaxSkew = 0, spRequire = [],
     spPrefer = [], spAccept = [], colocate = [], separate = [], spRebalance = False, volumeHomeNodes = []\<rparr>"

definition InstancePending :: string where "InstancePending = ''pending''"
definition InstanceRunning :: string where "InstanceRunning = ''running''"
definition InstanceStopped :: string where "InstanceStopped = ''stopped''"
definition NodeAlive :: string where "NodeAlive = ''alive''"
definition VolumeAccessShared :: string where "VolumeAccessShared = ''shared''"
definition StartupProbeSucceeded :: string where "StartupProbeSucceeded = ''succeeded''"

lemmas state_defs = InstancePending_def InstanceRunning_def InstanceStopped_def NodeAlive_def
  VolumeAccessShared_def StartupProbeSucceeded_def

text \<open>The path of a fact below a scan prefix, split into at most \<open>n\<close> parts.\<close>

definition factParts :: "string \<Rightarrow> nat \<Rightarrow> Fact \<Rightarrow> string list" where
  "factParts scan n f = SplitN (TrimPrefix (Key f) scan) slash n"

subsection \<open>Services\<close>

definition extractServicePriorities :: "Fact list \<Rightarrow> string \<Rightarrow> int" where
  "extractServicePriorities fs =
     fold (\<lambda>f m. case factParts ScanDesiredServices 2 f of
             [name, field] \<Rightarrow>
               if field \<noteq> ''priority'' then m
               else (case Atoi (Value f) of (v, None) \<Rightarrow> m(name := v) | _ \<Rightarrow> m)
           | _ \<Rightarrow> m)
       (FactsWithPrefix fs ScanDesiredServices) (\<lambda>_. 0)"

definition extractStatefulServices :: "Fact list \<Rightarrow> string list" where
  "extractStatefulServices fs =
     fold (\<lambda>f m. case factParts ScanDesiredServices 2 f of
             [name, field] \<Rightarrow> if field = ''stateful'' \<and> Value f = ''true'' then List.insert name m else m
           | _ \<Rightarrow> m)
       (FactsWithPrefix fs ScanDesiredServices) []"

definition startupProbeStateKeySuffix :: string where
  "startupProbeStateKeySuffix = ''probe/startup''"

definition startupProbeMethodKeySuffix :: string where
  "startupProbeMethodKeySuffix = ''probe/startup/method''"

definition extractServicesWithStartupProbe :: "Fact list \<Rightarrow> string list" where
  "extractServicesWithStartupProbe fs =
     fold (\<lambda>f m. case factParts ScanDesiredServices 2 f of
             [name, field] \<Rightarrow> if field = startupProbeMethodKeySuffix then List.insert name m else m
           | _ \<Rightarrow> m)
       (FactsWithPrefix fs ScanDesiredServices) []"

definition markInstancesStillStarting :: "instanceMap \<Rightarrow> string list \<Rightarrow> instanceMap" where
  "markInstancesStillStarting instances servicesWithStartupProbe =
     map (\<lambda>(i, info). (i, info\<lparr>stillStarting :=
            siService info \<in> set servicesWithStartupProbe \<and> startupProbeState info \<noteq> StartupProbeSucceeded\<rparr>))
       instances"

definition extractSharedVolumeNames :: "Fact list \<Rightarrow> string list" where
  "extractSharedVolumeNames fs =
     fold (\<lambda>f m. case factParts ScanObservedVolumes 2 f of
             [name, field] \<Rightarrow> if field = ''access'' \<and> Value f = VolumeAccessShared then List.insert name m else m
           | _ \<Rightarrow> m)
       (FactsWithPrefix fs ScanObservedVolumes) []"

definition extractRebalancePinnedServices :: "Fact list \<Rightarrow> string list \<Rightarrow> string list" where
  "extractRebalancePinnedServices fs statefulServices =
     (let shared = extractSharedVolumeNames fs
      in fold (\<lambda>f m. case factParts ScanDesiredServices 3 f of
                [name, segment, volume] \<Rightarrow>
                  if segment = ''volume'' \<and> volume \<notin> set shared then List.insert name m else m
              | _ \<Rightarrow> m)
           (FactsWithPrefix fs ScanDesiredServices) statefulServices)"

definition updateResource :: "string \<Rightarrow> int \<Rightarrow> serviceResourceRequirements \<Rightarrow> serviceResourceRequirements" where
  "updateResource field v r =
     (if field = ''cpu'' then r\<lparr>resCPU := v\<rparr> else if field = ''memory'' then r\<lparr>resMemory := v\<rparr> else r)"

text \<open>A value that does not parse is read as what \<open>ParseInt\<close> returns beside its error: 0, or the
  nearest bound when it is out of range.\<close>

definition resourceStep :: "Fact \<Rightarrow> resourceMap \<Rightarrow> resourceMap" where
  "resourceStep f m =
     (case factParts ScanDesiredServices 3 f of
        [name, segment, field] \<Rightarrow>
          if segment \<noteq> ''resources'' then m
          else m(name \<mapsto> updateResource field (fst (ParseInt (Value f)))
                 (case m name of None \<Rightarrow> zeroResources | Some r \<Rightarrow> r))
      | _ \<Rightarrow> m)"

definition extractServiceResourcesFromFacts :: "Fact list \<Rightarrow> resourceMap" where
  "extractServiceResourcesFromFacts fs =
     fold resourceStep (FactsWithPrefix fs ScanDesiredServices) Map.empty"

definition extractServiceGroupMemberships :: "Fact list \<Rightarrow> string \<rightharpoonup> string" where
  "extractServiceGroupMemberships fs =
     fold (\<lambda>f m. case factParts ScanDesiredGroups 3 f of
             [groupName, segment, serviceName] \<Rightarrow>
               if segment = ''process'' then m(serviceName \<mapsto> groupName) else m
           | _ \<Rightarrow> m)
       (FactsWithPrefix fs ScanDesiredGroups) Map.empty"

subsection \<open>Placement constraints\<close>

definition applyConstraintField :: "string \<Rightarrow> string \<Rightarrow> servicePlacementConstraint \<Rightarrow> servicePlacementConstraint" where
  "applyConstraintField sfx v c =
     (if sfx = ''placement/mode'' then c\<lparr>spMode := v\<rparr>
      else if sfx = ''placement/rebalance'' then c\<lparr>spRebalance := (v = ''true'')\<rparr>
      else if sfx = ''placement/architecture'' then c\<lparr>spArchitecture := v\<rparr>
      else if sfx = ''placement/zone'' then c\<lparr>zonePolicy := v\<rparr>
      else if sfx = ''placement/zone/maxSkew'' then
        (case Atoi v of (n, None) \<Rightarrow> if n \<ge> 1 then c\<lparr>zoneMaxSkew := n\<rparr> else c | _ \<Rightarrow> c)
      else if HasPrefix sfx ''placement/require/'' then
        c\<lparr>spRequire := AList.update (TrimPrefix sfx ''placement/require/'') v (spRequire c)\<rparr>
      else if HasPrefix sfx ''placement/prefer/'' then
        c\<lparr>spPrefer := AList.update (TrimPrefix sfx ''placement/prefer/'') v (spPrefer c)\<rparr>
      else if HasPrefix sfx ''placement/accept/'' then
        c\<lparr>spAccept := List.insert (TrimPrefix sfx ''placement/accept/'') (spAccept c)\<rparr>
      else if HasPrefix sfx ''placement/colocate/'' then
        c\<lparr>colocate := colocate c @ [TrimPrefix sfx ''placement/colocate/'']\<rparr>
      else if HasPrefix sfx ''placement/separate/'' then
        c\<lparr>separate := separate c @ [TrimPrefix sfx ''placement/separate/'']\<rparr>
      else c)"

definition extractPlacementConstraints :: "Fact list \<Rightarrow> constraintMap" where
  "extractPlacementConstraints fs =
     fold (\<lambda>f m. case factParts ScanDesiredServices 2 f of
             [name, sfx] \<Rightarrow>
               m(name \<mapsto> applyConstraintField sfx (Value f)
                   (case m name of None \<Rightarrow> zeroConstraint | Some c \<Rightarrow> c))
           | _ \<Rightarrow> m)
       (FactsWithPrefix fs ScanDesiredServices) Map.empty"

definition extractVolumeHomeNodes :: "Fact list \<Rightarrow> string \<rightharpoonup> string" where
  "extractVolumeHomeNodes fs =
     fold (\<lambda>f m. case factParts ScanObservedVolumes 2 f of
             [name, field] \<Rightarrow> if field = ''home_node'' \<and> Value f \<noteq> [] then m(name \<mapsto> Value f) else m
           | _ \<Rightarrow> m)
       (FactsWithPrefix fs ScanObservedVolumes) Map.empty"

definition applyVolumeHomeNodeConstraints :: "constraintMap \<Rightarrow> Fact list \<Rightarrow> constraintMap" where
  "applyVolumeHomeNodeConstraints constraints fs =
     (let homeNodes = extractVolumeHomeNodes fs
      in fold (\<lambda>f m. case factParts ScanDesiredServices 3 f of
                [name, segment, volume] \<Rightarrow>
                  if segment \<noteq> ''volume'' then m
                  else (case homeNodes volume of
                          None \<Rightarrow> m
                        | Some homeNode \<Rightarrow>
                            let c = (case m name of None \<Rightarrow> zeroConstraint | Some c \<Rightarrow> c)
                            in m(name \<mapsto> c\<lparr>volumeHomeNodes := List.insert homeNode (volumeHomeNodes c)\<rparr>))
              | _ \<Rightarrow> m)
           (FactsWithPrefix fs ScanDesiredServices) constraints)"

subsection \<open>Instances, nodes and placements\<close>

definition applyInstanceField :: "string \<Rightarrow> string \<Rightarrow> schedulerInstanceInfo \<Rightarrow> schedulerInstanceInfo" where
  "applyInstanceField field v info =
     (if field = ''service'' then info\<lparr>siService := v\<rparr>
      else if field = ''state'' then info\<lparr>siState := v\<rparr>
      else if field = startupProbeStateKeySuffix then info\<lparr>startupProbeState := v\<rparr>
      else info)"

definition extractInstanceInfoFromFacts :: "Fact list \<Rightarrow> instanceMap" where
  "extractInstanceInfoFromFacts fs =
     fold (\<lambda>f m. case factParts ScanObservedInstances 2 f of
             [instanceID, field] \<Rightarrow>
               AList.update instanceID
                 (applyInstanceField field (Value f)
                    (case map_of m instanceID of None \<Rightarrow> zeroInstanceInfo | Some info \<Rightarrow> info)) m
           | _ \<Rightarrow> m)
       (FactsWithPrefix fs ScanObservedInstances) []"

definition applyNodeField :: "string \<Rightarrow> string \<Rightarrow> schedulerNodeInfo \<Rightarrow> schedulerNodeInfo" where
  "applyNodeField field v node =
     (if field = ''state'' then node\<lparr>snState := v\<rparr>
      else if field = ''available/cpu'' then
        (case ParseInt v of (n, None) \<Rightarrow> node\<lparr>snAvailCPU := n\<rparr> | _ \<Rightarrow> node)
      else if field = ''available/memory'' then
        (case ParseInt v of (n, None) \<Rightarrow> node\<lparr>snAvailMemory := n\<rparr> | _ \<Rightarrow> node)
      else if field = ''architecture'' then node\<lparr>snArchitecture := v\<rparr>
      else if field = ''zone'' then node\<lparr>snZone := v\<rparr>
      else if HasPrefix field ''label/'' then
        node\<lparr>snLabels := (snLabels node)(TrimPrefix field ''label/'' \<mapsto> v)\<rparr>
      else if HasPrefix field ''restrict/'' then
        node\<lparr>snRestrictions := AList.update (TrimPrefix field ''restrict/'') v (snRestrictions node)\<rparr>
      else node)"

definition nodeStep :: "Fact \<Rightarrow> nodeMap \<Rightarrow> nodeMap" where
  "nodeStep f m =
     (case factParts ScanObservedNodes 2 f of
        [] \<Rightarrow> m
      | nodeID # rest \<Rightarrow>
          let node = (case map_of m nodeID of None \<Rightarrow> zeroNodeInfo nodeID | Some n \<Rightarrow> n)
          in AList.update nodeID (case rest of [field] \<Rightarrow> applyNodeField field (Value f) node | _ \<Rightarrow> node) m)"

definition extractNodeInfoFromFacts :: "Fact list \<Rightarrow> nodeMap" where
  "extractNodeInfoFromFacts fs = fold nodeStep (FactsWithPrefix fs ScanObservedNodes) []"

definition extractPlacementsFromFacts :: "Fact list \<Rightarrow> placementMap" where
  "extractPlacementsFromFacts fs =
     fold (\<lambda>f m. let relativePath = TrimPrefix (Key f) ScanPlacements
                 in if relativePath \<noteq> [] \<and> \<not> Contains relativePath ''/''
                    then AList.update relativePath (Value f) m else m)
       (FactsWithPrefix fs ScanPlacements) []"

definition extractExistingUnplacedInstanceIDs :: "Fact list \<Rightarrow> string list" where
  "extractExistingUnplacedInstanceIDs fs =
     sort (fold (\<lambda>f m. case factParts ScanDerivedSchedulerUnplaced 2 f of
                   i # _ \<Rightarrow> if i \<noteq> [] then List.insert i m else m
                 | [] \<Rightarrow> m)
             (FactsWithPrefix fs ScanDerivedSchedulerUnplaced) [])"

subsection \<open>What the parsed maps satisfy\<close>

text \<open>Every map has distinct keys, every node is stored under its own identifier, and every quantity
  fits 64 bits.\<close>

lemma fold_invariant: "P s \<Longrightarrow> (\<And>x s. P s \<Longrightarrow> P (f x s)) \<Longrightarrow> P (fold f xs s)"
  by (induction xs arbitrary: s) auto

definition nodesOk :: "nodeMap \<Rightarrow> bool" where
  "nodesOk nodes \<longleftrightarrow> distinct (map fst nodes) \<and>
     (\<forall>(i, n)\<in>set nodes. snId n = i \<and> in64 (snAvailCPU n) \<and> in64 (snAvailMemory n))"

lemma applyNodeField_frame:
  "snId (applyNodeField field v node) = snId node"
  "in64 (snAvailCPU node) \<Longrightarrow> in64 (snAvailCPU (applyNodeField field v node))"
  "in64 (snAvailMemory node) \<Longrightarrow> in64 (snAvailMemory (applyNodeField field v node))"
proof -
  obtain n err where n: "ParseInt v = (n, err)" by (cases "ParseInt v")
  have v: "in64 n" using in64_ParseInt [of v] n by simp
  show "snId (applyNodeField field v node) = snId node"
    unfolding applyNodeField_def n by (cases err) simp_all
  show "in64 (snAvailCPU node) \<Longrightarrow> in64 (snAvailCPU (applyNodeField field v node))"
    unfolding applyNodeField_def n using v by (cases err) simp_all
  show "in64 (snAvailMemory node) \<Longrightarrow> in64 (snAvailMemory (applyNodeField field v node))"
    unfolding applyNodeField_def n using v by (cases err) simp_all
qed

lemma set_update_subset: "set (AList.update k v m) \<subseteq> insert (k, v) (set m)"
  by (induction m) auto

lemma nodesOk_update:
  assumes "nodesOk m" and "snId n = k" and "in64 (snAvailCPU n)" and "in64 (snAvailMemory n)"
  shows "nodesOk (AList.update k n m)"
  using assms set_update_subset [of k n m] by (auto simp: nodesOk_def distinct_update)

lemma nodesOk_lookup:
  "nodesOk m \<Longrightarrow> map_of m k = Some n \<Longrightarrow> snId n = k \<and> in64 (snAvailCPU n) \<and> in64 (snAvailMemory n)"
  by (auto simp: nodesOk_def dest!: map_of_SomeD)

lemma nodeStep_ok:
  assumes m: "nodesOk m"
  shows "nodesOk (nodeStep f m)"
proof (cases "factParts ScanObservedNodes 2 f")
  case (Cons k rest)
  define node where "node = (case map_of m k of None \<Rightarrow> zeroNodeInfo k | Some n \<Rightarrow> n)"
  have n: "snId node = k \<and> in64 (snAvailCPU node) \<and> in64 (snAvailMemory node)"
    using nodesOk_lookup [OF m, of k] by (cases "map_of m k") (auto simp: node_def zeroNodeInfo_def in64_def)
  have "nodesOk (AList.update k (case rest of [field] \<Rightarrow> applyNodeField field (Value f) node | _ \<Rightarrow> node) m)"
    using n by (intro nodesOk_update [OF m]) (auto simp: applyNodeField_frame split: list.splits)
  then show ?thesis unfolding nodeStep_def Cons list.case Let_def node_def .
qed (simp add: m nodeStep_def)

lemma extractNodeInfo_ok: "nodesOk (extractNodeInfoFromFacts fs)"
  unfolding extractNodeInfoFromFacts_def
  by (rule fold_invariant [where P = nodesOk]) (simp_all add: nodeStep_ok nodesOk_def [of "[]"])

lemma extractInstanceInfo_distinct: "distinct (map fst (extractInstanceInfoFromFacts fs))"
  unfolding extractInstanceInfoFromFacts_def
  by (rule fold_invariant [where P = "\<lambda>m. distinct (map fst m)"]) (auto simp: distinct_update split: list.splits)

lemma extractPlacements_distinct: "distinct (map fst (extractPlacementsFromFacts fs))"
  unfolding extractPlacementsFromFacts_def
  by (rule fold_invariant [where P = "\<lambda>m. distinct (map fst m)"]) (auto simp: distinct_update Let_def)

definition resourcesOk :: "resourceMap \<Rightarrow> bool" where
  "resourcesOk m \<longleftrightarrow> (\<forall>s r. m s = Some r \<longrightarrow> in64 (resCPU r) \<and> in64 (resMemory r))"

lemma resourceStep_ok:
  assumes "resourcesOk m"
  shows "resourcesOk (resourceStep f m)"
proof -
  let ?v = "fst (ParseInt (Value f))"
  have v: "in64 ?v" "in64 0" by (rule in64_ParseInt) (simp add: in64_def)
  have "in64 (resCPU (updateResource field ?v r)) \<and> in64 (resMemory (updateResource field ?v r))"
    if "in64 (resCPU r) \<and> in64 (resMemory r)" for field r
    using that v by (simp add: updateResource_def)
  moreover have "in64 (resCPU (case m name of None \<Rightarrow> zeroResources | Some r \<Rightarrow> r)) \<and>
      in64 (resMemory (case m name of None \<Rightarrow> zeroResources | Some r \<Rightarrow> r))" for name
    using assms v(2) by (cases "m name") (auto simp: resourcesOk_def zeroResources_def)
  ultimately show ?thesis
    using assms by (auto simp: resourceStep_def resourcesOk_def split: list.splits)
qed

lemma extractServiceResources_ok: "resourcesOk (extractServiceResourcesFromFacts fs)"
  unfolding extractServiceResourcesFromFacts_def
  by (rule fold_invariant [where P = resourcesOk]) (simp_all add: resourceStep_ok resourcesOk_def [of Map.empty])

end
