(* ===== verification/Scheduler_Placement.thy ===== *)
theory Scheduler_Placement
  imports Scheduler_Facts
begin

text \<open>
  Initial placement (\<open>scheduler/scheduler.go\<close>): the load and resource accounting, the constraint
  filters and rankings, the batches of one service with the shared capacity cache, and the
  co-scheduling of service groups. The maps of the Go \<open>placementState\<close> that are updated in place are
  fields of a record that the functions return updated.
\<close>

subsection \<open>Accounting\<close>

definition bump :: "string \<Rightarrow> int \<Rightarrow> (string \<Rightarrow> int) \<Rightarrow> string \<Rightarrow> int" where
  "bump k d m = m(k := m k + d)"

definition bump64 :: "string \<Rightarrow> int \<Rightarrow> (string \<Rightarrow> int) \<Rightarrow> string \<Rightarrow> int" where
  "bump64 k d m = m(k := add64 (m k) d)"

definition findUnplacedPendingInstances :: "instanceMap \<Rightarrow> placementMap \<Rightarrow> string list" where
  "findUnplacedPendingInstances instances placements =
     sort (map fst (filter (\<lambda>(i, info). siState info = InstancePending \<and>
                              (case map_of placements i of None \<Rightarrow> [] | Some n \<Rightarrow> n) = []) instances))"

definition countServiceInstancesPerNode :: "placementMap \<Rightarrow> instanceMap \<Rightarrow> string \<Rightarrow> string \<Rightarrow> int" where
  "countServiceInstancesPerNode placements instances =
     fold (\<lambda>(i, n) m. case map_of instances i of
             None \<Rightarrow> m
           | Some info \<Rightarrow> m(siService info := bump n 1 (m (siService info))))
       placements (\<lambda>_ _. 0)"

definition usageStep :: "instanceMap \<Rightarrow> resourceMap \<Rightarrow> string \<times> string \<Rightarrow>
    (string \<Rightarrow> int) \<times> (string \<Rightarrow> int) \<times> (string \<Rightarrow> int) \<Rightarrow> (string \<Rightarrow> int) \<times> (string \<Rightarrow> int) \<times> (string \<Rightarrow> int)" where
  "usageStep instances resources p m =
     (case (p, m) of ((i, n), (load, cpu, mem)) \<Rightarrow>
        case map_of instances i of
          None \<Rightarrow> (bump n 1 load, cpu, mem)
        | Some info \<Rightarrow>
            (case resources (siService info) of
               None \<Rightarrow> (bump n 1 load, cpu, mem)
             | Some r \<Rightarrow> (bump n 1 load, bump64 n (resCPU r) cpu, bump64 n (resMemory r) mem)))"

definition computeNodeLoadAndResourceUsage :: "placementMap \<Rightarrow> instanceMap \<Rightarrow> resourceMap \<Rightarrow>
    (string \<Rightarrow> int) \<times> (string \<Rightarrow> int) \<times> (string \<Rightarrow> int)" where
  "computeNodeLoadAndResourceUsage placements instances resources =
     fold (usageStep instances resources) placements (\<lambda>_. 0, \<lambda>_. 0, \<lambda>_. 0)"

definition candidateOf :: "(string \<Rightarrow> int) \<Rightarrow> (string \<Rightarrow> int) \<Rightarrow> schedulerNodeInfo \<Rightarrow> candidateNode" where
  "candidateOf usedCPU usedMemory node =
     \<lparr>cnId = snId node, availCPU = sub64 (snAvailCPU node) (usedCPU (snId node)),
      availMemory = sub64 (snAvailMemory node) (usedMemory (snId node)),
      cnArchitecture = snArchitecture node, cnZone = snZone node, cnLabels = snLabels node,
      cnRestrictions = snRestrictions node\<rparr>"

definition buildAliveCandidateNodes :: "nodeMap \<Rightarrow> (string \<Rightarrow> int) \<Rightarrow> (string \<Rightarrow> int) \<Rightarrow> candidateNode list" where
  "buildAliveCandidateNodes nodes usedCPU usedMemory =
     sort_key cnId (map (candidateOf usedCPU usedMemory)
       (filter (\<lambda>n. snState n = NodeAlive) (map snd nodes)))"

definition buildNodeIndexMap :: "candidateNode list \<Rightarrow> string \<rightharpoonup> nat" where
  "buildNodeIndexMap alive = fold (\<lambda>(i, c) m. m(cnId c \<mapsto> i)) (enumerate 0 alive) Map.empty"

text \<open>A missing zone reads as the empty string.\<close>

definition buildNodeZoneMap :: "candidateNode list \<Rightarrow> string \<Rightarrow> string" where
  "buildNodeZoneMap alive = fold (\<lambda>c m. if cnZone c \<noteq> [] then m(cnId c := cnZone c) else m) alive (\<lambda>_. [])"

definition computeServiceZonePlacements :: "placementMap \<Rightarrow> instanceMap \<Rightarrow> (string \<Rightarrow> string) \<Rightarrow> string \<Rightarrow> string \<Rightarrow> int" where
  "computeServiceZonePlacements placements instances nodeZoneMap =
     fold (\<lambda>(i, n) m. case map_of instances i of
             None \<Rightarrow> m
           | Some info \<Rightarrow>
               if siState info = InstanceStopped \<or> nodeZoneMap n = [] then m
               else m(siService info := bump (nodeZoneMap n) 1 (m (siService info))))
       placements (\<lambda>_ _. 0)"

definition buildNodeServicesMap :: "placementMap \<Rightarrow> instanceMap \<Rightarrow> string \<Rightarrow> string \<Rightarrow> bool" where
  "buildNodeServicesMap placements instances =
     fold (\<lambda>(i, n) m. case map_of instances i of
             None \<Rightarrow> m
           | Some info \<Rightarrow>
               if siState info \<noteq> InstanceRunning \<and> siState info \<noteq> InstancePending then m
               else m(n := (m n)(siService info := True)))
       placements (\<lambda>_ _. False)"

subsection \<open>Filters\<close>

definition satisfiesRequireLabels :: "candidateNode \<Rightarrow> (string \<times> string) list \<Rightarrow> bool" where
  "satisfiesRequireLabels c requireLabels \<longleftrightarrow>
     (\<forall>(label, v)\<in>set requireLabels. cnLabels c label = Some v)"

definition toleratesRestrictions :: "candidateNode \<Rightarrow> string list \<Rightarrow> bool" where
  "toleratesRestrictions c acceptLabels \<longleftrightarrow> (\<forall>(label, v)\<in>set (cnRestrictions c). label \<in> set acceptLabels)"

definition filterByRestrictions :: "candidateNode list \<Rightarrow> string list \<Rightarrow> candidateNode list" where
  "filterByRestrictions candidates acceptLabels =
     (let filtered = filter (\<lambda>c. toleratesRestrictions c acceptLabels) candidates
      in if filtered = [] then candidates else filtered)"

text \<open>The home nodes are a set; its size and one lookup are what the code uses.\<close>

definition isHomeOfAllVolumes :: "string \<Rightarrow> string list \<Rightarrow> bool" where
  "isHomeOfAllVolumes nodeID homeNodes \<longleftrightarrow> length homeNodes = 1 \<and> nodeID \<in> set homeNodes"

definition filterByVolumeHomeNodes :: "candidateNode list \<Rightarrow> string list \<Rightarrow> candidateNode list" where
  "filterByVolumeHomeNodes candidates homeNodes = filter (\<lambda>c. isHomeOfAllVolumes (cnId c) homeNodes) candidates"

definition meetsConstraint :: "servicePlacementConstraint \<Rightarrow> candidateNode \<Rightarrow> bool" where
  "meetsConstraint k c \<longleftrightarrow>
     \<not> (spArchitecture k \<noteq> [] \<and> cnArchitecture c \<noteq> [] \<and> cnArchitecture c \<noteq> spArchitecture k) \<and>
     \<not> (zonePolicy k \<noteq> [] \<and> zonePolicy k \<noteq> ''spread'' \<and> cnZone c \<noteq> [] \<and> cnZone c \<noteq> zonePolicy k) \<and>
     satisfiesRequireLabels c (spRequire k) \<and> toleratesRestrictions c (spAccept k)"

definition filterByConstraints :: "candidateNode list \<Rightarrow> string \<Rightarrow> constraintMap \<Rightarrow> candidateNode list" where
  "filterByConstraints candidates serviceName constraints =
     (case constraints serviceName of
        None \<Rightarrow> filterByRestrictions candidates []
      | Some k \<Rightarrow>
          let homed = (if volumeHomeNodes k \<noteq> [] then filterByVolumeHomeNodes candidates (volumeHomeNodes k)
                       else candidates)
          in if volumeHomeNodes k \<noteq> [] \<and> homed = [] then []
             else let filtered = filter (meetsConstraint k) homed
                  in if filtered = [] then homed else filtered)"

definition filterOutNodesAlreadyHostingService :: "candidateNode list \<Rightarrow> string \<Rightarrow> placementMap \<Rightarrow> instanceMap \<Rightarrow> candidateNode list" where
  "filterOutNodesAlreadyHostingService candidates serviceName placements instances =
     (let occupied = map snd (filter (\<lambda>(i, n). case map_of instances i of
                                        None \<Rightarrow> False | Some info \<Rightarrow> siService info = serviceName) placements)
      in filter (\<lambda>c. cnId c \<notin> set occupied) candidates)"

subsection \<open>Rankings\<close>

definition preferScore :: "(string \<times> string) list \<Rightarrow> candidateNode \<Rightarrow> int" where
  "preferScore preferLabels c =
     int (length (filter (\<lambda>(label, v). (case cnLabels c label of None \<Rightarrow> [] | Some w \<Rightarrow> w) = v) preferLabels))"

definition rankByPreferences :: "candidateNode list \<Rightarrow> (string \<times> string) list \<Rightarrow> candidateNode list" where
  "rankByPreferences candidates preferLabels = sort_key (\<lambda>c. - preferScore preferLabels c) candidates"

definition affinityScore :: "string list \<Rightarrow> string list \<Rightarrow> (string \<Rightarrow> string \<Rightarrow> bool) \<Rightarrow> candidateNode \<Rightarrow> int" where
  "affinityScore colocateTargets separateTargets nodeServicesMap c =
     int (length (filter (nodeServicesMap (cnId c)) colocateTargets)) -
     int (length (filter (nodeServicesMap (cnId c)) separateTargets))"

definition rankByAffinityHints :: "candidateNode list \<Rightarrow> string list \<Rightarrow> string list \<Rightarrow> (string \<Rightarrow> string \<Rightarrow> bool) \<Rightarrow> candidateNode list" where
  "rankByAffinityHints candidates colocateTargets separateTargets nodeServicesMap =
     (if colocateTargets = [] \<and> separateTargets = [] then candidates
      else sort_key (\<lambda>c. - affinityScore colocateTargets separateTargets nodeServicesMap c) candidates)"

text \<open>The zones whose count is below the smallest count plus the allowed skew; the sum wraps.\<close>

definition findMinZones :: "candidateNode list \<Rightarrow> string \<Rightarrow> (string \<Rightarrow> string \<Rightarrow> int) \<Rightarrow> int \<Rightarrow> string list" where
  "findMinZones candidates serviceName zoneCounts maxSkew0 =
     (let maxSkew = (if maxSkew0 < 1 then 1 else maxSkew0);
          counts = zoneCounts serviceName;
          minCount = fold (\<lambda>c m. if counts (zoneOf c) < m then counts (zoneOf c) else m) candidates maxInt;
          threshold = add64 minCount maxSkew
      in fold (\<lambda>c zs. if counts (zoneOf c) < threshold then List.insert (zoneOf c) zs else zs) candidates [])"

subsection \<open>Placement state\<close>

record placementState =
  psAlive :: "candidateNode list"
  psLoad :: "string \<Rightarrow> int"
  psZoneCounts :: "string \<Rightarrow> string \<Rightarrow> int"
  psResources :: resourceMap
  psConstraints :: constraintMap
  psInstances :: instanceMap
  psPlacements :: placementMap
  psGroups :: "string \<rightharpoonup> string"
  psIndex :: "string \<rightharpoonup> nat"
  psNodeServices :: "string \<Rightarrow> string \<Rightarrow> bool"
  psPerNode :: "string \<Rightarrow> string \<Rightarrow> int"

definition chargeNode :: "int \<Rightarrow> int \<Rightarrow> candidateNode \<Rightarrow> candidateNode" where
  "chargeNode reqCPU reqMemory c =
     c\<lparr>availCPU := sub64 (availCPU c) reqCPU, availMemory := sub64 (availMemory c) reqMemory\<rparr>"

definition updateNodeResourcesAfterPlacement :: "string \<Rightarrow> int \<Rightarrow> int \<Rightarrow> string \<Rightarrow> placementState \<Rightarrow> placementState" where
  "updateNodeResourcesAfterPlacement nodeID reqCPU reqMemory serviceName st =
     (case psIndex st nodeID of
        None \<Rightarrow> st
      | Some i \<Rightarrow>
          let node = chargeNode reqCPU reqMemory (psAlive st ! i);
              st1 = st\<lparr>psAlive := (psAlive st)[i := node]\<rparr>
          in if cnZone node \<noteq> [] \<and> serviceName \<noteq> []
             then st1\<lparr>psZoneCounts := (psZoneCounts st)(serviceName := bump (cnZone node) 1 (psZoneCounts st serviceName))\<rparr>
             else st1)"

definition placementChanges :: "string \<Rightarrow> string \<Rightarrow> Change list" where
  "placementChanges instanceID nodeID =
     [putChange (''placement/'' @ instanceID) (KeyPlacementInstance instanceID) nodeID,
      putChange (''placement/'' @ instanceID) (KeyPlacementNodeInstance nodeID instanceID) []]"

subsection \<open>One batch\<close>

record batch =
  bService :: string
  bCandidates :: "candidateNode list"
  bPerNode :: bool
  bZoneSpread :: bool
  bMaxSkew :: int
  bCPU :: int
  bMemory :: int

text \<open>The loop over the instances of a batch. The result is the changes with the node chosen for
  each, and the state.\<close>

fun placeBatchLoop :: "batch \<Rightarrow> string list \<Rightarrow> NodeCapacityCache \<Rightarrow> placementState \<Rightarrow> (string \<times> string) list \<times> placementState" where
  "placeBatchLoop b [] cache st = ([], st)"
| "placeBatchLoop b (instanceID # rest) cache st =
     (if cacheLen cache = 0 then ([], st)
      else let bestNode = (if bZoneSpread b
                           then BestNodeInZones (findMinZones (bCandidates b) (bService b) (psZoneCounts st) (bMaxSkew b)) cache
                           else BestNode cache)
           in if bestNode = [] then ([], st)
              else let st1 = st\<lparr>psLoad := bump bestNode 1 (psLoad st),
                               psPerNode := (psPerNode st)(bService b := bump bestNode 1 (psPerNode st (bService b)))\<rparr>;
                       cache1 = RecordPlacement bestNode (bCPU b) (bMemory b) cache;
                       cache2 = (if bPerNode b then RemoveNode bestNode cache1 else cache1);
                       st2 = updateNodeResourcesAfterPlacement bestNode (bCPU b) (bMemory b) (bService b) st1;
                       (ps, st3) = placeBatchLoop b rest cache2 st2
                   in ((instanceID, bestNode) # ps, st3))"

definition batchCandidates :: "string \<Rightarrow> placementState \<Rightarrow> candidateNode list" where
  "batchCandidates serviceName st =
     (let cs0 = filterByConstraints (psAlive st) serviceName (psConstraints st)
      in case psConstraints st serviceName of
           None \<Rightarrow> cs0
         | Some k \<Rightarrow>
             let cs1 = (if spMode k = ''per-node''
                        then filterOutNodesAlreadyHostingService cs0 serviceName (psPlacements st) (psInstances st)
                        else cs0);
                 cs2 = (if spPrefer k \<noteq> [] then rankByPreferences cs1 (spPrefer k) else cs1)
             in if colocate k \<noteq> [] \<or> separate k \<noteq> []
                then rankByAffinityHints cs2 (colocate k) (separate k) (psNodeServices st) else cs2)"

definition batchOf :: "string \<Rightarrow> placementState \<Rightarrow> batch" where
  "batchOf serviceName st =
     (let r = (case psResources st serviceName of None \<Rightarrow> zeroResources | Some r \<Rightarrow> r);
          k = psConstraints st serviceName
      in \<lparr>bService = serviceName, bCandidates = batchCandidates serviceName st,
          bPerNode = (case k of None \<Rightarrow> False | Some k \<Rightarrow> spMode k = ''per-node''),
          bZoneSpread = (case k of None \<Rightarrow> False | Some k \<Rightarrow> zonePolicy k = ''spread''),
          bMaxSkew = (case k of None \<Rightarrow> 1 | Some k \<Rightarrow> if zoneMaxSkew k > 0 then zoneMaxSkew k else 1),
          bCPU = resCPU r, bMemory = resMemory r\<rparr>)"

definition batchCache :: "batch \<Rightarrow> placementState \<Rightarrow> NodeCapacityCache" where
  "batchCache b st = NewNodeCapacityCache (bCandidates b) (psLoad st) (psPerNode st (bService b)) (bCPU b) (bMemory b)"

definition placeBatchedInstances :: "string \<Rightarrow> string list \<Rightarrow> placementState \<Rightarrow> Change list \<times> placementState" where
  "placeBatchedInstances serviceName instanceIDs st =
     (let b = batchOf serviceName st;
          (ps, st') = placeBatchLoop b instanceIDs (batchCache b st) st
      in (concat (map (\<lambda>(i, n). placementChanges i n) ps), st'))"

definition groupInstancesByService :: "string list \<Rightarrow> instanceMap \<Rightarrow> (string \<times> string list) list" where
  "groupInstancesByService instanceIDs instances =
     fold (\<lambda>i m. let s = (case map_of instances i of None \<Rightarrow> [] | Some info \<Rightarrow> siService info)
                 in AList.update s ((case map_of m s of None \<Rightarrow> [] | Some is \<Rightarrow> is) @ [i]) m)
       instanceIDs []"

definition sortedServiceNames :: "(string \<times> string list) list \<Rightarrow> string list" where
  "sortedServiceNames batches = sort (map fst batches)"

definition placeServiceBatch :: "(string \<times> string list) list \<Rightarrow> string \<Rightarrow> Change list \<times> placementState \<Rightarrow> Change list \<times> placementState" where
  "placeServiceBatch batches s p =
     (case p of (cs, st) \<Rightarrow>
        let (cs', st') = placeBatchedInstances s (the (map_of batches s)) st in (cs @ cs', st'))"

definition placeUngroupedInstances :: "string list \<Rightarrow> placementState \<Rightarrow> Change list \<times> placementState" where
  "placeUngroupedInstances unplaced st =
     (let batches = groupInstancesByService unplaced (psInstances st)
      in fold (placeServiceBatch batches) (sortedServiceNames batches) ([], st))"

subsection \<open>Groups\<close>

definition partitionStep :: "instanceMap \<Rightarrow> (string \<rightharpoonup> string) \<Rightarrow> string \<Rightarrow> (string \<times> string list) list \<times> string list \<Rightarrow>
    (string \<times> string list) list \<times> string list" where
  "partitionStep instances serviceToGroup i p =
     (case p of (grouped, ungrouped) \<Rightarrow>
        case map_of instances i of
          None \<Rightarrow> (grouped, ungrouped @ [i])
        | Some info \<Rightarrow>
            (case serviceToGroup (siService info) of
               None \<Rightarrow> (grouped, ungrouped @ [i])
             | Some g \<Rightarrow> (AList.update g ((case map_of grouped g of None \<Rightarrow> [] | Some is \<Rightarrow> is) @ [i]) grouped, ungrouped)))"

definition partitionUnplacedByGroup :: "string list \<Rightarrow> instanceMap \<Rightarrow> (string \<rightharpoonup> string) \<Rightarrow>
    (string \<times> string list) list \<times> string list" where
  "partitionUnplacedByGroup unplaced instances serviceToGroup =
     fold (partitionStep instances serviceToGroup) unplaced ([], [])"

definition resolveInstanceResourceNeeds :: "schedulerInstanceInfo option \<Rightarrow> resourceMap \<Rightarrow> string \<times> int \<times> int" where
  "resolveInstanceResourceNeeds info resources =
     (case info of
        None \<Rightarrow> ([], 0, 0)
      | Some i \<Rightarrow> (case resources (siService i) of
                     None \<Rightarrow> (siService i, 0, 0)
                   | Some r \<Rightarrow> (siService i, resCPU r, resMemory r)))"

definition computeGroupResourceTotal :: "string list \<Rightarrow> placementState \<Rightarrow> int \<times> int" where
  "computeGroupResourceTotal instanceIDs st =
     fold (\<lambda>i (cpu, mem). case resolveInstanceResourceNeeds (map_of (psInstances st) i) (psResources st) of
             (_, c, m) \<Rightarrow> (add64 cpu c, add64 mem m))
       instanceIDs (0, 0)"

definition findExistingGroupNode :: "string \<Rightarrow> placementState \<Rightarrow> string" where
  "findExistingGroupNode groupName st =
     (let nodeIDs = map snd (filter (\<lambda>(i, n). case map_of (psInstances st) i of
                        None \<Rightarrow> False
                      | Some info \<Rightarrow> (case psGroups st (siService info) of None \<Rightarrow> [] | Some g \<Rightarrow> g) = groupName)
                    (psPlacements st))
      in if nodeIDs = [] then [] else hd (sort nodeIDs))"

definition collectGroupVolumeHomeNodes :: "string list \<Rightarrow> placementState \<Rightarrow> string list" where
  "collectGroupVolumeHomeNodes instanceIDs st =
     fold (\<lambda>i homes. case map_of (psInstances st) i of
             None \<Rightarrow> homes
           | Some info \<Rightarrow> (case psConstraints st (siService info) of
                             None \<Rightarrow> homes
                           | Some k \<Rightarrow> fold List.insert (volumeHomeNodes k) homes))
       instanceIDs []"

definition selectGroupVolumeHomeNode :: "string list \<Rightarrow> placementState \<Rightarrow> string" where
  "selectGroupVolumeHomeNode homes st =
     (case find (\<lambda>h. psIndex st h \<noteq> None \<and> isHomeOfAllVolumes h homes) homes of None \<Rightarrow> [] | Some h \<Rightarrow> h)"

definition selectLeastLoadedNode :: "candidateNode list \<Rightarrow> (string \<Rightarrow> int) \<Rightarrow> int \<Rightarrow> int \<Rightarrow> string" where
  "selectLeastLoadedNode alive load reqCPU reqMemory =
     selectFromHeap (fst (buildNodeHeap alive load (\<lambda>_. 0) reqCPU reqMemory))"

definition placeGroupMember :: "string \<Rightarrow> string \<Rightarrow> placementState \<Rightarrow> placementState" where
  "placeGroupMember targetNode instanceID st =
     (let info = map_of (psInstances st) instanceID;
          (_, reqCPU, reqMemory) = resolveInstanceResourceNeeds info (psResources st);
          st1 = st\<lparr>psLoad := bump targetNode 1 (psLoad st)\<rparr>;
          serviceName = (case info of None \<Rightarrow> [] | Some i \<Rightarrow> siService i)
      in updateNodeResourcesAfterPlacement targetNode reqCPU reqMemory serviceName st1)"

definition groupTarget :: "string \<Rightarrow> string list \<Rightarrow> placementState \<Rightarrow> string" where
  "groupTarget groupName instanceIDs st =
     (let homes = collectGroupVolumeHomeNodes instanceIDs st;
          t0 = findExistingGroupNode groupName st;
          t1 = (if t0 = [] \<and> homes \<noteq> [] then selectGroupVolumeHomeNode homes st else t0);
          t2 = (if t1 = [] then (let (cpu, mem) = computeGroupResourceTotal instanceIDs st
                                 in selectLeastLoadedNode (psAlive st) (psLoad st) cpu mem) else t1)
      in if t2 = [] \<or> (homes \<noteq> [] \<and> \<not> isHomeOfAllVolumes t2 homes) then [] else t2)"

definition placeOneGroup :: "string \<Rightarrow> string list \<Rightarrow> placementState \<Rightarrow> Change list \<times> placementState" where
  "placeOneGroup groupName instanceIDs st =
     (let t = groupTarget groupName instanceIDs st
      in if t = [] then ([], st)
         else (concat (map (\<lambda>i. placementChanges i t) instanceIDs), fold (placeGroupMember t) instanceIDs st))"

definition placeGroupStep :: "(string \<times> string list) list \<Rightarrow> string \<Rightarrow> Change list \<times> placementState \<Rightarrow> Change list \<times> placementState" where
  "placeGroupStep grouped g p =
     (case p of (cs, st) \<Rightarrow> let (cs', st') = placeOneGroup g (the (map_of grouped g)) st in (cs @ cs', st'))"

definition placeGroupedInstances :: "(string \<times> string list) list \<Rightarrow> placementState \<Rightarrow> Change list \<times> placementState" where
  "placeGroupedInstances grouped st = fold (placeGroupStep grouped) (sort (map fst grouped)) ([], st)"

definition initialPlacementState :: "nodeMap \<Rightarrow> instanceMap \<Rightarrow> placementMap \<Rightarrow> resourceMap \<Rightarrow> constraintMap \<Rightarrow>
    (string \<rightharpoonup> string) \<Rightarrow> placementState" where
  "initialPlacementState nodes instances placements resources constraints serviceToGroup =
     (let (load, cpu, mem) = computeNodeLoadAndResourceUsage placements instances resources;
          alive = buildAliveCandidateNodes nodes cpu mem
      in \<lparr>psAlive = alive, psLoad = load,
          psZoneCounts = computeServiceZonePlacements placements instances (buildNodeZoneMap alive),
          psResources = resources, psConstraints = constraints, psInstances = instances,
          psPlacements = placements, psGroups = serviceToGroup, psIndex = buildNodeIndexMap alive,
          psNodeServices = buildNodeServicesMap placements instances,
          psPerNode = countServiceInstancesPerNode placements instances\<rparr>)"

definition attemptPlacements :: "string list \<Rightarrow> nodeMap \<Rightarrow> instanceMap \<Rightarrow> placementMap \<Rightarrow> resourceMap \<Rightarrow> constraintMap \<Rightarrow>
    (string \<rightharpoonup> string) \<Rightarrow> Change list" where
  "attemptPlacements unplaced nodes instances placements resources constraints serviceToGroup =
     (let st = initialPlacementState nodes instances placements resources constraints serviceToGroup
      in if psAlive st = [] then []
         else let (grouped, ungrouped) = partitionUnplacedByGroup unplaced instances serviceToGroup;
                  (cs1, st1) = placeGroupedInstances grouped st;
                  (cs2, st2) = placeUngroupedInstances ungrouped st1
              in cs1 @ cs2)"

subsection \<open>Well-formed states\<close>

definition stateOk :: "placementState \<Rightarrow> bool" where
  "stateOk st \<longleftrightarrow>
     distinct (map cnId (psAlive st)) \<and>
     (\<forall>i k. psIndex st i = Some k \<longleftrightarrow> k < length (psAlive st) \<and> cnId (psAlive st ! k) = i) \<and>
     (\<forall>c\<in>set (psAlive st). in64 (availCPU c) \<and> in64 (availMemory c))"

lemma stateOkD:
  assumes "stateOk st"
  shows "distinct (map cnId (psAlive st))"
    "psIndex st i = Some k \<longleftrightarrow> k < length (psAlive st) \<and> cnId (psAlive st ! k) = i"
    "k < length (psAlive st) \<Longrightarrow> in64 (availCPU (psAlive st ! k)) \<and> in64 (availMemory (psAlive st ! k))"
  using assms by (simp_all add: stateOk_def)

lemma chargeNode_simps [simp]:
  "cnId (chargeNode x y c) = cnId c" "availCPU (chargeNode x y c) = sub64 (availCPU c) x"
  "availMemory (chargeNode x y c) = sub64 (availMemory c) y" "cnZone (chargeNode x y c) = cnZone c"
  by (simp_all add: chargeNode_def)

lemma map_cnId_charge: "i < length cs \<Longrightarrow> map cnId (cs[i := chargeNode x y (cs ! i)]) = map cnId cs"
  by (rule nth_equalityI) (auto simp: nth_list_update)

text \<open>Charging a node of a well-formed state touches that node and the zone counts only.\<close>

lemma update_alive:
  "psIndex st n = Some i \<Longrightarrow> i < length (psAlive st) \<Longrightarrow>
     psAlive (updateNodeResourcesAfterPlacement n x y s st) = (psAlive st)[i := chargeNode x y (psAlive st ! i)]"
  by (simp add: updateNodeResourcesAfterPlacement_def Let_def)

lemma update_frame:
  "psIndex (updateNodeResourcesAfterPlacement n x y s st) = psIndex st"
  "psLoad (updateNodeResourcesAfterPlacement n x y s st) = psLoad st"
  "psResources (updateNodeResourcesAfterPlacement n x y s st) = psResources st"
  "psConstraints (updateNodeResourcesAfterPlacement n x y s st) = psConstraints st"
  "psInstances (updateNodeResourcesAfterPlacement n x y s st) = psInstances st"
  "psPlacements (updateNodeResourcesAfterPlacement n x y s st) = psPlacements st"
  by (simp_all add: updateNodeResourcesAfterPlacement_def Let_def split: option.splits)

lemma stateOk_update:
  assumes "stateOk st"
  shows "stateOk (updateNodeResourcesAfterPlacement n x y s st)"
proof (cases "psIndex st n")
  case None
  with assms show ?thesis by (simp add: updateNodeResourcesAfterPlacement_def)
next
  case (Some i)
  then have i: "i < length (psAlive st)" using stateOkD(2) [OF assms] by simp
  let ?cs = "(psAlive st)[i := chargeNode x y (psAlive st ! i)]"
  have ids: "map cnId ?cs = map cnId (psAlive st)" by (rule map_cnId_charge [OF i])
  have nth: "cnId (?cs ! k) = cnId (psAlive st ! k)" if "k < length (psAlive st)" for k
    using arg_cong [OF ids, of "\<lambda>l. l ! k"] that by simp
  have "\<forall>c\<in>set ?cs. in64 (availCPU c) \<and> in64 (availMemory c)"
  proof
    fix c assume "c \<in> set ?cs"
    then have "c = chargeNode x y (psAlive st ! i) \<or> c \<in> set (psAlive st)"
      using set_update_subset_insert by fastforce
    then show "in64 (availCPU c) \<and> in64 (availMemory c)"
      using assms by (auto simp: stateOk_def)
  qed
  then show ?thesis
    unfolding stateOk_def update_alive [OF Some i] update_frame(1) ids
    using stateOkD(1,2) [OF assms] nth by auto
qed

lemma stateOk_cong: "psAlive st' = psAlive st \<Longrightarrow> psIndex st' = psIndex st \<Longrightarrow> stateOk st \<Longrightarrow> stateOk st'"
  by (simp add: stateOk_def)

subsection \<open>A batch follows the reference scan and never overcommits\<close>

definition placedOn :: "string \<Rightarrow> (string \<times> string) list \<Rightarrow> nat" where
  "placedOn n ps = length (filter (\<lambda>p. snd p = n) ps)"

definition batchSim :: "batch \<Rightarrow> nat list \<Rightarrow> nodeHeapEntry list \<Rightarrow> NodeCapacityCache \<Rightarrow> placementState \<Rightarrow> bool" where
  "batchSim b X es c st \<longleftrightarrow>
     simCache (bCPU b) (bMemory b) X es c \<and> stateOk st \<and>
     (\<forall>r<length es. cnId (heNode (es ! r)) \<noteq> [] \<and>
        (\<exists>k. psIndex st (cnId (heNode (es ! r))) = Some k \<and>
             availCPU (psAlive st ! k) = availCPU (heNode (es ! r)) \<and>
             availMemory (psAlive st ! k) = availMemory (heNode (es ! r))))"

text \<open>The state after one placement of the loop.\<close>

definition placeStep :: "batch \<Rightarrow> string \<Rightarrow> placementState \<Rightarrow> placementState" where
  "placeStep b n st =
     updateNodeResourcesAfterPlacement n (bCPU b) (bMemory b) (bService b)
       (st\<lparr>psLoad := bump n 1 (psLoad st),
           psPerNode := (psPerNode st)(bService b := bump n 1 (psPerNode st (bService b)))\<rparr>)"

lemma placeBatchLoop_step:
  assumes "\<not> bZoneSpread b" and "0 < cacheLen c" and "BestNode c \<noteq> []"
    and "placeBatchLoop b (i # is) c st = (ps, st')"
  obtains ps' where "ps = (i, BestNode c) # ps'"
    "placeBatchLoop b is (cacheStep (bPerNode b) (bCPU b) (bMemory b) c) (placeStep b (BestNode c) st) = (ps', st')"
proof -
  obtain ps' st2 where
    "placeBatchLoop b is (cacheStep (bPerNode b) (bCPU b) (bMemory b) c) (placeStep b (BestNode c) st) = (ps', st2)"
    by (metis prod.exhaust)
  moreover from this assms have "ps = (i, BestNode c) # ps'" "st2 = st'"
    by (simp_all add: Let_def cacheStep_def placeStep_def)
  ultimately show thesis using that by blast
qed

lemma stateOk_placeStep: "stateOk st \<Longrightarrow> stateOk (placeStep b n st)"
  unfolding placeStep_def by (rule stateOk_update, rule stateOk_cong [of _ st]) simp_all

lemma placeStep_alive:
  assumes "stateOk st" and "psIndex st n = Some k"
  shows "stateOk (placeStep b n st)" "psIndex (placeStep b n st) = psIndex st"
    "psAlive (placeStep b n st) = (psAlive st)[k := chargeNode (bCPU b) (bMemory b) (psAlive st ! k)]"
proof -
  let ?st = "st\<lparr>psLoad := bump n 1 (psLoad st),
           psPerNode := (psPerNode st)(bService b := bump n 1 (psPerNode st (bService b)))\<rparr>"
  have ix: "psIndex ?st n = Some k" "k < length (psAlive ?st)" using assms stateOkD(2) [OF assms(1)] by simp_all
  show "stateOk (placeStep b n st)" by (rule stateOk_placeStep [OF assms(1)])
  show "psIndex (placeStep b n st) = psIndex st" by (simp add: placeStep_def update_frame)
  show "psAlive (placeStep b n st) = (psAlive st)[k := chargeNode (bCPU b) (bMemory b) (psAlive st ! k)]"
    unfolding placeStep_def update_alive [OF ix] by simp
qed

lemma root_valid: "simCache x y X es c \<Longrightarrow> 0 < cacheLen c \<Longrightarrow>
    root c < length es \<and> hasCapacity x y (heNode (es ! root c)) \<and> root c \<notin> set X"
  using root_live [of c] simCacheD(6) [of x y X es c] by simp

lemma batchSim_step:
  assumes sim: "batchSim b X es c st" and ne: "0 < cacheLen c"
  shows "batchSim b (if bPerNode b then root c # X else X) (es[root c := chargeEntry (bCPU b) (bMemory b) (es ! root c)])
    (cacheStep (bPerNode b) (bCPU b) (bMemory b) c) (placeStep b (BestNode c) st)"
proof -
  let ?x = "bCPU b" and ?y = "bMemory b"
  let ?es = "es[root c := chargeEntry ?x ?y (es ! root c)]"
  have sc: "simCache ?x ?y X es c" and ok: "stateOk st" using sim by (simp_all add: batchSim_def)
  have rt: "root c < length es" using root_valid [OF sc ne] by simp
  have best: "BestNode c = cnId (heNode (es ! root c))" by (rule BestNode_sim [OF sc ne])
  obtain k where k: "psIndex st (BestNode c) = Some k" "availCPU (psAlive st ! k) = availCPU (heNode (es ! root c))"
    "availMemory (psAlive st ! k) = availMemory (heNode (es ! root c))"
    using sim rt by (auto simp: batchSim_def best)
  note ps = placeStep_alive [OF ok k(1), of b]
  have kl: "k < length (psAlive st)" using k(1) stateOkD(2) [OF ok] by simp
  have ids: "cnId (heNode (?es ! r)) = cnId (heNode (es ! r))" for r
    using rt by (simp add: nth_list_update)
  have "cnId (heNode (?es ! r)) \<noteq> [] \<and>
     (\<exists>k. psIndex (placeStep b (BestNode c) st) (cnId (heNode (?es ! r))) = Some k \<and>
          availCPU (psAlive (placeStep b (BestNode c) st) ! k) = availCPU (heNode (?es ! r)) \<and>
          availMemory (psAlive (placeStep b (BestNode c) st) ! k) = availMemory (heNode (?es ! r)))"
    if r: "r < length ?es" for r
  proof (cases "r = root c")
    case True
    have "cnId (heNode (es ! root c)) \<noteq> []" using sim rt by (simp add: batchSim_def)
    with True ps k kl rt show ?thesis unfolding ids by (simp add: best)
  next
    case False
    from sim r obtain j where j: "psIndex st (cnId (heNode (es ! r))) = Some j"
      "availCPU (psAlive st ! j) = availCPU (heNode (es ! r))"
      "availMemory (psAlive st ! j) = availMemory (heNode (es ! r))" "cnId (heNode (es ! r)) \<noteq> []"
      by (auto simp: batchSim_def)
    have "cnId (heNode (es ! r)) \<noteq> cnId (heNode (es ! root c))"
    proof
      assume eq: "cnId (heNode (es ! r)) = cnId (heNode (es ! root c))"
      have "lookupMap c (cnId (heNode (es ! r))) = Some r" "lookupMap c (cnId (heNode (es ! r))) = Some (root c)"
        using r rt eq cacheInvD(4) [OF simCacheD(1) [OF sc]] simCache_nth(1) [OF sc] simCacheD(4) [OF sc] by simp_all
      with False show False by simp
    qed
    then have "j \<noteq> k" using j(1) k(1) stateOkD(2) [OF ok] unfolding best by metis
    with False j ps show ?thesis unfolding ids by simp
  qed
  with simCache_step [OF sc ne, of "bPerNode b"] ps(1) show ?thesis by (simp add: batchSim_def)
qed

lemma placeBatchLoop_refRun:
  assumes "batchSim b X es c st" and "\<not> bZoneSpread b" and "placeBatchLoop b is c st = (ps, st')"
  shows "map snd ps = refRun (bPerNode b) (bCPU b) (bMemory b) (length is) X es \<and>
    map fst ps = take (length ps) is"
  using assms
proof (induction "is" arbitrary: X es c st ps)
  case (Cons i "is")
  have sc: "simCache (bCPU b) (bMemory b) X es c" using Cons.prems(1) by (simp add: batchSim_def)
  show ?case
  proof (cases "cacheLen c = 0")
    case True
    with Cons.prems(3) refBest_root [OF sc] show ?thesis by simp
  next
    case False
    then have ne: "0 < cacheLen c" by simp
    have best: "BestNode c = cnId (heNode (es ! root c))" by (rule BestNode_sim [OF sc ne])
    have "BestNode c \<noteq> []" using Cons.prems(1) root_valid [OF sc ne] by (simp add: best batchSim_def)
    from placeBatchLoop_step [OF Cons.prems(2) ne this Cons.prems(3)] obtain ps' where
      ps: "ps = (i, BestNode c) # ps'" and
      rec: "placeBatchLoop b is (cacheStep (bPerNode b) (bCPU b) (bMemory b) c) (placeStep b (BestNode c) st) = (ps', st')" .
    from Cons.IH [OF batchSim_step [OF Cons.prems(1) ne] Cons.prems(2) rec] False refBest_root [OF sc] show ?thesis
      by (simp add: ps best)
  qed
qed simp

lemma charge_no_wrap:
  assumes "in64 a" and "0 \<le> x" and "\<not> (x > 0 \<and> a < x)"
  shows "sub64 a x = a - x"
proof (cases "x = 0")
  case True
  with assms show ?thesis by (simp add: sub64_def)
next
  case False
  with assms show ?thesis by (intro sub64_no_wrap) auto
qed

lemma placeBatchLoop_sound:
  assumes "batchSim b X es c st" and "\<not> bZoneSpread b" and "0 \<le> bCPU b" and "0 \<le> bMemory b"
    and "placeBatchLoop b is c st = (ps, st')"
  shows "length (psAlive st') = length (psAlive st) \<and>
    (\<forall>k<length (psAlive st). let n = placedOn (cnId (psAlive st ! k)) ps in
       cnId (psAlive st' ! k) = cnId (psAlive st ! k) \<and>
       availCPU (psAlive st' ! k) = availCPU (psAlive st ! k) - int n * bCPU b \<and>
       availMemory (psAlive st' ! k) = availMemory (psAlive st ! k) - int n * bMemory b \<and>
       (0 < n \<longrightarrow> (0 < bCPU b \<longrightarrow> 0 \<le> availCPU (psAlive st' ! k)) \<and>
                  (0 < bMemory b \<longrightarrow> 0 \<le> availMemory (psAlive st' ! k))) \<and>
       (bPerNode b \<longrightarrow> n \<le> 1)) \<and>
    (\<forall>r\<in>set X. r < length es \<longrightarrow> placedOn (cnId (heNode (es ! r))) ps = 0)"
  using assms
proof (induction "is" arbitrary: X es c st ps)
  case Nil
  then show ?case by (simp add: placedOn_def Let_def)
next
  case (Cons i "is")
  let ?x = "bCPU b" and ?y = "bMemory b"
  have sc: "simCache ?x ?y X es c" and ok: "stateOk st" using Cons.prems(1) by (simp_all add: batchSim_def)
  show ?case
  proof (cases "cacheLen c = 0")
    case True
    with Cons.prems(5) show ?thesis by (auto simp: placedOn_def Let_def)
  next
    case False
    then have ne: "0 < cacheLen c" by simp
    note rt = root_valid [OF sc ne]
    have best: "BestNode c = cnId (heNode (es ! root c))" by (rule BestNode_sim [OF sc ne])
    have "BestNode c \<noteq> []" using Cons.prems(1) rt by (simp add: best batchSim_def)
    from placeBatchLoop_step [OF Cons.prems(2) ne this Cons.prems(5)] obtain ps' where
      ps: "ps = (i, BestNode c) # ps'" and
      rec: "placeBatchLoop b is (cacheStep (bPerNode b) ?x ?y c) (placeStep b (BestNode c) st) = (ps', st')" .
    obtain j where j: "psIndex st (BestNode c) = Some j" "availCPU (psAlive st ! j) = availCPU (heNode (es ! root c))"
      "availMemory (psAlive st ! j) = availMemory (heNode (es ! root c))"
      using Cons.prems(1) rt by (auto simp: batchSim_def best)
    have jl: "j < length (psAlive st)" "cnId (psAlive st ! j) = BestNode c" using j(1) stateOkD(2) [OF ok] by simp_all
    note pstep = placeStep_alive [OF ok j(1), of b]
    let ?X = "if bPerNode b then root c # X else X"
    let ?es = "es[root c := chargeEntry ?x ?y (es ! root c)]"
    note ih = Cons.IH [OF batchSim_step [OF Cons.prems(1) ne] Cons.prems(2-4) rec, unfolded pstep(3)]
    have ids: "cnId (heNode (?es ! r)) = cnId (heNode (es ! r))" for r using rt by (simp add: nth_list_update)
    have one: "placedOn n ps = (if n = BestNode c then Suc (placedOn n ps') else placedOn n ps')" for n
      by (simp add: placedOn_def ps)
    have cap: "sub64 (availCPU (psAlive st ! j)) ?x = availCPU (psAlive st ! j) - ?x"
      "sub64 (availMemory (psAlive st ! j)) ?y = availMemory (psAlive st ! j) - ?y"
      "0 < ?x \<longrightarrow> 0 \<le> availCPU (psAlive st ! j) - ?x" "0 < ?y \<longrightarrow> 0 \<le> availMemory (psAlive st ! j) - ?y"
      using rt j stateOkD(3) [OF ok jl(1)] Cons.prems(3,4)
      by (auto simp: hasCapacity_def intro!: charge_no_wrap)
    have excl: "placedOn (cnId (heNode (es ! r))) ps' = 0" if "r \<in> set ?X" "r < length es" for r
      using ih that ids by simp
    have "let n = placedOn (cnId (psAlive st ! k)) ps in
       cnId (psAlive st' ! k) = cnId (psAlive st ! k) \<and>
       availCPU (psAlive st' ! k) = availCPU (psAlive st ! k) - int n * ?x \<and>
       availMemory (psAlive st' ! k) = availMemory (psAlive st ! k) - int n * ?y \<and>
       (0 < n \<longrightarrow> (0 < ?x \<longrightarrow> 0 \<le> availCPU (psAlive st' ! k)) \<and> (0 < ?y \<longrightarrow> 0 \<le> availMemory (psAlive st' ! k))) \<and>
       (bPerNode b \<longrightarrow> n \<le> 1)" if k: "k < length (psAlive st)" for k
    proof (cases "k = j")
      case True
      have "bPerNode b \<longrightarrow> placedOn (BestNode c) ps' = 0" using excl [of "root c"] rt by (simp add: best)
      with True k jl ih cap show ?thesis
        by (cases "placedOn (BestNode c) ps' = 0") (auto simp: Let_def one algebra_simps)
    next
      case False
      then have "cnId (psAlive st ! k) \<noteq> BestNode c"
        using k jl stateOkD(1) [OF ok] by (metis length_map nth_eq_iff_index_eq nth_map)
      with False k ih show ?thesis by (auto simp: Let_def one)
    qed
    moreover have "placedOn (cnId (heNode (es ! r))) ps = 0" if r: "r \<in> set X" "r < length es" for r
    proof -
      have "r \<noteq> root c" using rt r by auto
      have "cnId (heNode (es ! r)) \<noteq> BestNode c"
      proof
        assume "cnId (heNode (es ! r)) = BestNode c"
        then have "lookupMap c (BestNode c) = Some r" "lookupMap c (BestNode c) = Some (root c)"
          using r rt cacheInvD(4) [OF simCacheD(1) [OF sc]] simCache_nth(1) [OF sc] simCacheD(4) [OF sc] best by simp_all
        with \<open>r \<noteq> root c\<close> show False by simp
      qed
      with excl [of r] r show ?thesis by (simp add: one)
    qed
    ultimately show ?thesis using ih by simp
  qed
qed

subsection \<open>Candidates of a batch\<close>

lemma distinct_map_sort_key [simp]: "distinct (map f (sort_key k xs)) = distinct (map f xs)"
  by (simp add: distinct_map)

definition subCandidates :: "candidateNode list \<Rightarrow> candidateNode list \<Rightarrow> bool" where
  "subCandidates cs alive \<longleftrightarrow> set cs \<subseteq> set alive \<and> (distinct (map cnId alive) \<longrightarrow> distinct (map cnId cs))"

lemma subCandidates_refl [simp]: "subCandidates cs cs"
  by (simp add: subCandidates_def)

lemma subCandidates_filter: "subCandidates cs alive \<Longrightarrow> subCandidates (filter P cs) alive"
  by (auto simp: subCandidates_def distinct_map_filter)

lemma subCandidates_sort: "subCandidates cs alive \<Longrightarrow> subCandidates (sort_key f cs) alive"
  by (simp add: subCandidates_def)

lemma subCandidates_constraints: "subCandidates (filterByConstraints alive s ks) alive"
  by (auto simp: filterByConstraints_def filterByRestrictions_def filterByVolumeHomeNodes_def Let_def
      subCandidates_def distinct_map_filter split: option.splits)

lemma batchCandidates_sub: "subCandidates (batchCandidates s st) (psAlive st)"
proof -
  note base = subCandidates_constraints [of "psAlive st" s "psConstraints st"]
  show ?thesis
    by (cases "psConstraints st s")
      (auto simp: batchCandidates_def Let_def rankByPreferences_def rankByAffinityHints_def
        filterOutNodesAlreadyHostingService_def intro!: subCandidates_sort subCandidates_filter base)
qed

lemma batchSim_new:
  assumes ok: "stateOk st" and ne: "\<forall>c\<in>set (psAlive st). cnId c \<noteq> []"
  shows "batchSim (batchOf s st) [] (buildEntries (batchCandidates s st) (psLoad st) (psPerNode st s)
    (bCPU (batchOf s st)) (bMemory (batchOf s st))) (batchCache (batchOf s st) st) st"
proof -
  let ?b = "batchOf s st"
  let ?es = "buildEntries (batchCandidates s st) (psLoad st) (psPerNode st s) (bCPU ?b) (bMemory ?b)"
  have b: "bCandidates ?b = batchCandidates s st" "bService ?b = s" by (simp_all add: batchOf_def Let_def)
  have sub: "set (batchCandidates s st) \<subseteq> set (psAlive st)" "distinct (map cnId (batchCandidates s st))"
    using batchCandidates_sub [of s st] stateOkD(1) [OF ok] by (simp_all add: subCandidates_def)
  have "cnId (heNode (?es ! r)) \<noteq> [] \<and>
     (\<exists>k. psIndex st (cnId (heNode (?es ! r))) = Some k \<and>
          availCPU (psAlive st ! k) = availCPU (heNode (?es ! r)) \<and>
          availMemory (psAlive st ! k) = availMemory (heNode (?es ! r)))" if r: "r < length ?es" for r
  proof -
    have "heNode (?es ! r) \<in> set (batchCandidates s st)" using nth_mem [OF r]
      by (auto simp: buildEntries_def in_set_enumerate_eq)
    then have "heNode (?es ! r) \<in> set (psAlive st)" using sub(1) by blast
    then obtain k where k: "k < length (psAlive st)" "psAlive st ! k = heNode (?es ! r)"
      unfolding in_set_conv_nth by blast
    then have "psIndex st (cnId (heNode (?es ! r))) = Some k" using stateOkD(2) [OF ok] by simp
    with k ne show ?thesis by (metis nth_mem)
  qed
  with simCache_new [OF sub(2)] ok show ?thesis by (simp add: batchSim_def batchCache_def b)
qed

lemma placeBatchLoop_nodes:
  assumes "batchSim b X es c st" and "\<not> bZoneSpread b" and "placeBatchLoop b is c st = (ps, st')"
  shows "snd ` set ps \<subseteq> (\<lambda>e. cnId (heNode e)) ` set es"
  using assms
proof (induction "is" arbitrary: X es c st ps)
  case (Cons i "is")
  have sc: "simCache (bCPU b) (bMemory b) X es c" using Cons.prems(1) by (simp add: batchSim_def)
  show ?case
  proof (cases "cacheLen c = 0")
    case True
    with Cons.prems(3) show ?thesis by simp
  next
    case False
    then have ne: "0 < cacheLen c" by simp
    note rt = root_valid [OF sc ne]
    have best: "BestNode c = cnId (heNode (es ! root c))" by (rule BestNode_sim [OF sc ne])
    have "BestNode c \<noteq> []" using Cons.prems(1) rt by (simp add: best batchSim_def)
    from placeBatchLoop_step [OF Cons.prems(2) ne this Cons.prems(3)] obtain ps' where
      ps: "ps = (i, BestNode c) # ps'" and
      rec: "placeBatchLoop b is (cacheStep (bPerNode b) (bCPU b) (bMemory b) c) (placeStep b (BestNode c) st) = (ps', st')" .
    let ?es = "es[root c := chargeEntry (bCPU b) (bMemory b) (es ! root c)]"
    have "(\<lambda>e. cnId (heNode e)) ` set ?es \<subseteq> (\<lambda>e. cnId (heNode e)) ` set es"
      using set_update_subset_insert [of es "root c" "chargeEntry (bCPU b) (bMemory b) (es ! root c)"] rt by fastforce
    with Cons.IH [OF batchSim_step [OF Cons.prems(1) ne] Cons.prems(2) rec] rt show ?thesis
      by (auto simp: ps best)
  qed
qed simp

lemma placeBatchLoop_frame:
  "placeBatchLoop b is c st = (ps, st') \<Longrightarrow>
     psResources st' = psResources st \<and> psConstraints st' = psConstraints st \<and> psInstances st' = psInstances st \<and>
     psPlacements st' = psPlacements st \<and> (stateOk st \<longrightarrow> stateOk st')"
proof (induction "is" arbitrary: c st ps)
  case (Cons i "is")
  show ?case
  proof (cases "ps = []")
    case True
    with Cons.prems have "st' = st" by (auto simp: Let_def split: if_splits prod.splits)
    then show ?thesis by simp
  next
    case False
    with Cons.prems obtain n c' ps' where "placeBatchLoop b is c' (placeStep b n st) = (ps', st')"
      by (auto simp: Let_def placeStep_def split: if_splits prod.splits)
    from Cons.IH [OF this] stateOk_placeStep [of st b n] show ?thesis
      by (simp add: placeStep_def update_frame)
  qed
qed simp

subsection \<open>All the batches of a pass\<close>

definition instanceService :: "instanceMap \<Rightarrow> string \<Rightarrow> string" where
  "instanceService instances i = (case map_of instances i of None \<Rightarrow> [] | Some info \<Rightarrow> siService info)"

lemma groupInstancesByService_snoc:
  "groupInstancesByService (is @ [i]) instances =
     AList.update (instanceService instances i)
       ((case map_of (groupInstancesByService is instances) (instanceService instances i) of None \<Rightarrow> [] | Some is \<Rightarrow> is) @ [i])
       (groupInstancesByService is instances)"
  by (simp add: groupInstancesByService_def instanceService_def Let_def)

lemma groupInstancesByService_lookup:
  "map_of (groupInstancesByService is instances) s =
     (let l = filter (\<lambda>i. instanceService instances i = s) is in if l = [] then None else Some l)"
proof (induction "is" rule: rev_induct)
  case Nil
  then show ?case by (simp add: groupInstancesByService_def)
next
  case (snoc i "is")
  then show ?case by (auto simp: groupInstancesByService_snoc update_conv Let_def)
qed

lemma groupInstancesByService_distinct: "distinct (map fst (groupInstancesByService is instances))"
  by (induction "is" rule: rev_induct) (simp_all add: groupInstancesByService_snoc distinct_update, simp add: groupInstancesByService_def)

lemma groupInstancesByService_the:
  assumes "s \<in> set (map fst (groupInstancesByService is instances))"
  shows "the (map_of (groupInstancesByService is instances) s) = filter (\<lambda>i. instanceService instances i = s) is"
proof -
  have "map_of (groupInstancesByService is instances) s \<noteq> None"
    using assms by (simp add: map_of_eq_None_iff)
  then show ?thesis unfolding groupInstancesByService_lookup Let_def by (simp split: if_splits)
qed

definition serviceResources :: "resourceMap \<Rightarrow> string \<Rightarrow> serviceResourceRequirements" where
  "serviceResources resources s = (case resources s of None \<Rightarrow> zeroResources | Some r \<Rightarrow> r)"

text \<open>What the placements of a list charge to a node.\<close>

definition demandOn :: "(string \<Rightarrow> int) \<Rightarrow> string \<Rightarrow> (string \<times> string) list \<Rightarrow> int" where
  "demandOn f n ps = sum_list (map (\<lambda>(i, m). if m = n then f i else 0) ps)"

lemma demandOn_append [simp]: "demandOn f n (ps @ qs) = demandOn f n ps + demandOn f n qs"
  by (simp add: demandOn_def)

lemma demandOn_const: "(\<And>i. i \<in> fst ` set ps \<Longrightarrow> f i = x) \<Longrightarrow> demandOn f n ps = int (placedOn n ps) * x"
  by (induction ps) (auto simp: demandOn_def placedOn_def algebra_simps)

lemma demandOn_nonneg: "(\<And>i. 0 \<le> f i) \<Longrightarrow> 0 \<le> demandOn f n ps"
  by (induction ps) (auto simp: demandOn_def)

definition cpuDemand :: "placementState \<Rightarrow> string \<Rightarrow> int" where
  "cpuDemand st i = resCPU (serviceResources (psResources st) (instanceService (psInstances st) i))"

definition memoryDemand :: "placementState \<Rightarrow> string \<Rightarrow> int" where
  "memoryDemand st i = resMemory (serviceResources (psResources st) (instanceService (psInstances st) i))"

text \<open>A pass took from every node what its placements demand, and no more than the node had.\<close>

definition charged :: "placementState \<Rightarrow> (string \<times> string) list \<Rightarrow> placementState \<Rightarrow> bool" where
  "charged st ps st' \<longleftrightarrow>
     length (psAlive st') = length (psAlive st) \<and>
     (\<forall>k<length (psAlive st).
        let c = psAlive st ! k; c' = psAlive st' ! k;
            cpu = demandOn (cpuDemand st) (cnId c) ps; mem = demandOn (memoryDemand st) (cnId c) ps
        in cnId c' = cnId c \<and> availCPU c' = availCPU c - cpu \<and> availMemory c' = availMemory c - mem \<and>
           (0 < cpu \<longrightarrow> 0 \<le> availCPU c') \<and> (0 < mem \<longrightarrow> 0 \<le> availMemory c'))"

text \<open>The states in which the theorems of this section apply: no zone spread, no negative
  requirement, every node named.\<close>

definition plainState :: "placementState \<Rightarrow> bool" where
  "plainState st \<longleftrightarrow> stateOk st \<and> (\<forall>c\<in>set (psAlive st). cnId c \<noteq> []) \<and>
     (\<forall>s k. psConstraints st s = Some k \<longrightarrow> zonePolicy k \<noteq> ''spread'') \<and>
     (\<forall>s r. psResources st s = Some r \<longrightarrow> 0 \<le> resCPU r \<and> 0 \<le> resMemory r)"

lemma plainState_resources: "plainState st \<Longrightarrow>
    0 \<le> resCPU (serviceResources (psResources st) s) \<and> 0 \<le> resMemory (serviceResources (psResources st) s)"
  by (auto simp: plainState_def serviceResources_def zeroResources_def split: option.splits)

lemma batchOf_simps:
  "bCPU (batchOf s st) = resCPU (serviceResources (psResources st) s)"
  "bMemory (batchOf s st) = resMemory (serviceResources (psResources st) s)"
  "bService (batchOf s st) = s" "bCandidates (batchOf s st) = batchCandidates s st"
  by (simp_all add: batchOf_def serviceResources_def Let_def)

lemma plainState_batch: "plainState st \<Longrightarrow> \<not> bZoneSpread (batchOf s st)"
  by (auto simp: plainState_def batchOf_def Let_def split: option.splits)

lemma charged_ids: "charged st ps st' \<Longrightarrow> map cnId (psAlive st') = map cnId (psAlive st)"
  by (rule nth_equalityI) (auto simp: charged_def Let_def)

lemma charged_none: "charged st [] st"
  by (simp add: charged_def demandOn_def)

lemma chargedD:
  assumes "charged st ps st'" and "k < length (psAlive st)"
  shows "cnId (psAlive st' ! k) = cnId (psAlive st ! k)"
    "availCPU (psAlive st' ! k) = availCPU (psAlive st ! k) - demandOn (cpuDemand st) (cnId (psAlive st ! k)) ps"
    "availMemory (psAlive st' ! k) = availMemory (psAlive st ! k) - demandOn (memoryDemand st) (cnId (psAlive st ! k)) ps"
    "0 < demandOn (cpuDemand st) (cnId (psAlive st ! k)) ps \<Longrightarrow> 0 \<le> availCPU (psAlive st' ! k)"
    "0 < demandOn (memoryDemand st) (cnId (psAlive st ! k)) ps \<Longrightarrow> 0 \<le> availMemory (psAlive st' ! k)"
  using assms unfolding charged_def Let_def by blast+

lemma charged_trans:
  assumes a: "charged st ps st1" and b: "charged st1 qs st2"
    and eq: "cpuDemand st1 = cpuDemand st" "memoryDemand st1 = memoryDemand st"
    and nn: "\<And>i. 0 \<le> cpuDemand st i" "\<And>i. 0 \<le> memoryDemand st i"
  shows "charged st (ps @ qs) st2"
proof -
  have len: "length (psAlive st1) = length (psAlive st)" "length (psAlive st2) = length (psAlive st)"
    using a b by (simp_all add: charged_def)
  show ?thesis unfolding charged_def Let_def demandOn_append
  proof (intro conjI allI impI len(2))
    fix k assume k: "k < length (psAlive st)"
    let ?n = "cnId (psAlive st ! k)"
    note A = chargedD [OF a k]
    note B = chargedD [OF b k [folded len(1)], unfolded A(1) eq]
    have n: "0 \<le> demandOn (cpuDemand st) ?n qs" "0 \<le> demandOn (memoryDemand st) ?n qs"
      using nn by (auto intro: demandOn_nonneg)
    show "cnId (psAlive st2 ! k) = ?n" by (rule B(1))
    show "availCPU (psAlive st2 ! k) = availCPU (psAlive st ! k) - (demandOn (cpuDemand st) ?n ps + demandOn (cpuDemand st) ?n qs)"
      using A(2) B(2) by linarith
    show "availMemory (psAlive st2 ! k) = availMemory (psAlive st ! k) - (demandOn (memoryDemand st) ?n ps + demandOn (memoryDemand st) ?n qs)"
      using A(3) B(3) by linarith
    show "0 \<le> availCPU (psAlive st2 ! k)" if "0 < demandOn (cpuDemand st) ?n ps + demandOn (cpuDemand st) ?n qs"
      using that A(4) B(2,4) n(1) by linarith
    show "0 \<le> availMemory (psAlive st2 ! k)" if "0 < demandOn (memoryDemand st) ?n ps + demandOn (memoryDemand st) ?n qs"
      using that A(5) B(3,5) n(2) by linarith
  qed
qed

definition changesOf :: "(string \<times> string) list \<Rightarrow> Change list" where
  "changesOf ps = concat (map (\<lambda>(i, n). placementChanges i n) ps)"

lemma changesOf_append [simp]: "changesOf (ps @ qs) = changesOf ps @ changesOf qs"
  by (simp add: changesOf_def)

definition sameInputs :: "placementState \<Rightarrow> placementState \<Rightarrow> bool" where
  "sameInputs st st' \<longleftrightarrow> psResources st' = psResources st \<and> psConstraints st' = psConstraints st \<and>
     psInstances st' = psInstances st \<and> psPlacements st' = psPlacements st"

lemma sameInputs_demand:
  "sameInputs st st' \<Longrightarrow> cpuDemand st' = cpuDemand st \<and> memoryDemand st' = memoryDemand st"
  by (auto simp: sameInputs_def cpuDemand_def memoryDemand_def)

lemma plainState_pres:
  assumes "plainState st" and "sameInputs st st'" and "stateOk st'" and "map cnId (psAlive st') = map cnId (psAlive st)"
  shows "plainState st'"
proof -
  have "cnId ` set (psAlive st') = cnId ` set (psAlive st)" using assms(4) by (metis image_set)
  then have "\<forall>c\<in>set (psAlive st'). cnId c \<noteq> []" using assms(1) unfolding plainState_def by (metis imageE imageI)
  with assms(1-3) show ?thesis by (simp add: plainState_def sameInputs_def)
qed

lemma placeBatched_sound:
  assumes pl: "plainState st" and svc: "\<And>i. i \<in> set is \<Longrightarrow> instanceService (psInstances st) i = s"
    and run: "placeBatchedInstances s is st = (cs, st')"
  obtains ps where "cs = changesOf ps" "charged st ps st'" "sameInputs st st'" "plainState st'"
    "map fst ps = take (length ps) is" "snd ` set ps \<subseteq> cnId ` set (batchCandidates s st)"
    "\<And>n. bPerNode (batchOf s st) \<Longrightarrow> placedOn n ps \<le> 1"
proof -
  let ?b = "batchOf s st"
  obtain ps where ps: "placeBatchLoop ?b is (batchCache ?b st) st = (ps, st')" and cs: "cs = changesOf ps"
    using run by (auto simp: placeBatchedInstances_def changesOf_def Let_def split: prod.splits)
  let ?es = "buildEntries (batchCandidates s st) (psLoad st) (psPerNode st s) (bCPU ?b) (bMemory ?b)"
  have ok: "stateOk st" "\<forall>c\<in>set (psAlive st). cnId c \<noteq> []" using pl by (simp_all add: plainState_def)
  note sim = batchSim_new [OF ok, of s]
  note nz = plainState_batch [OF pl, of s]
  have nn: "0 \<le> bCPU ?b" "0 \<le> bMemory ?b" using plainState_resources [OF pl] by (simp_all add: batchOf_simps)
  note snd = placeBatchLoop_sound [OF sim nz nn ps]
  have fst: "map fst ps = take (length ps) is" using placeBatchLoop_refRun [OF sim nz ps] by simp
  have dem: "demandOn (cpuDemand st) n ps = int (placedOn n ps) * bCPU ?b"
    "demandOn (memoryDemand st) n ps = int (placedOn n ps) * bMemory ?b" for n
  proof -
    have "instanceService (psInstances st) i = s" if "i \<in> fst ` set ps" for i
      using that fst svc by (metis image_set in_set_takeD)
    then show "demandOn (cpuDemand st) n ps = int (placedOn n ps) * bCPU ?b"
      "demandOn (memoryDemand st) n ps = int (placedOn n ps) * bMemory ?b"
      by (simp_all add: demandOn_const cpuDemand_def memoryDemand_def batchOf_simps)
  qed
  have ch: "charged st ps st'" unfolding charged_def dem using snd nn
    by (auto simp: Let_def zero_less_mult_iff)
  have si: "sameInputs st st'" "stateOk st'" using placeBatchLoop_frame [OF ps] ok by (simp_all add: sameInputs_def)
  have "snd ` set ps \<subseteq> (\<lambda>e. cnId (heNode e)) ` set ?es" by (rule placeBatchLoop_nodes [OF sim nz ps])
  moreover have "(\<lambda>e. cnId (heNode e)) ` set ?es \<subseteq> cnId ` set (batchCandidates s st)"
    by (auto simp: buildEntries_def in_set_enumerate_eq)
  ultimately have nodes: "snd ` set ps \<subseteq> cnId ` set (batchCandidates s st)" by blast
  have pn: "placedOn n ps \<le> 1" if "bPerNode ?b" for n
  proof (cases "n \<in> snd ` set ps")
    case True
    moreover have "cnId ` set (batchCandidates s st) \<subseteq> cnId ` set (psAlive st)"
      using batchCandidates_sub [of s st] by (auto simp: subCandidates_def)
    ultimately have "n \<in> cnId ` set (psAlive st)" using nodes by blast
    then obtain k where "k < length (psAlive st)" "cnId (psAlive st ! k) = n"
      unfolding image_iff Bex_def in_set_conv_nth by blast
    with snd that show ?thesis by (auto simp: Let_def)
  next
    case False
    then have "filter (\<lambda>p. snd p = n) ps = []" by (auto simp: filter_empty_conv)
    then show ?thesis by (simp add: placedOn_def)
  qed
  show thesis by (rule that [OF cs ch si(1) plainState_pres [OF pl si charged_ids [OF ch]] fst nodes pn])
qed

lemma charged_then:
  assumes "plainState st" and "charged st ps st1" and "sameInputs st st1" and "charged st1 qs st2"
  shows "charged st (ps @ qs) st2"
  using charged_trans [OF assms(2,4)] sameInputs_demand [OF assms(3)] plainState_resources [OF assms(1)]
  by (simp add: cpuDemand_def memoryDemand_def)

definition passResult :: "string list \<Rightarrow> string list \<Rightarrow> placementState \<Rightarrow> (string \<times> string) list \<Rightarrow> placementState \<Rightarrow> bool" where
  "passResult ss is st ps st' \<longleftrightarrow> charged st ps st' \<and> sameInputs st st' \<and> plainState st' \<and> distinct (map fst ps) \<and>
     (\<forall>(i, n)\<in>set ps. i \<in> set is \<and> instanceService (psInstances st) i \<in> set ss \<and> n \<in> cnId ` set (psAlive st))"

lemma passResultD:
  assumes "passResult ss is st ps st'" and "(i, n) \<in> set ps"
  shows "i \<in> set is" "instanceService (psInstances st) i \<in> set ss" "n \<in> cnId ` set (psAlive st)"
  using assms unfolding passResult_def by blast+

lemma passResult_step:
  assumes pl: "plainState st" and ds: "distinct is" and s: "s \<notin> set ss"
    and run: "placeBatchedInstances s (filter (\<lambda>i. instanceService (psInstances st) i = s) is) st = (cs, st1)"
  obtains ps where "cs = changesOf ps" "plainState st1" "psInstances st1 = psInstances st"
    "\<And>qs st2. passResult ss is st1 qs st2 \<Longrightarrow> passResult (s # ss) is st (ps @ qs) st2"
proof -
  let ?is = "filter (\<lambda>i. instanceService (psInstances st) i = s) is"
  obtain ps where ps: "cs = changesOf ps" "charged st ps st1" "sameInputs st st1" "plainState st1"
    "map fst ps = take (length ps) ?is" "snd ` set ps \<subseteq> cnId ` set (batchCandidates s st)"
    by (rule placeBatched_sound [OF pl _ run]) auto
  have fst: "distinct (map fst ps)" using ps(5) ds by (metis distinct_filter distinct_take)
  have mem: "i \<in> set is \<and> instanceService (psInstances st) i = s" if "(i, n) \<in> set ps" for i n
  proof -
    have "i \<in> set (map fst ps)" using that by force
    then have "i \<in> set ?is" unfolding ps(5) by (rule in_set_takeD)
    then show ?thesis by simp
  qed
  have sub: "cnId ` set (batchCandidates s st) \<subseteq> cnId ` set (psAlive st)"
    using batchCandidates_sub [of s st] by (auto simp: subCandidates_def)
  have alive: "cnId ` set (psAlive st1) = cnId ` set (psAlive st)"
    using charged_ids [OF ps(2)] by (metis image_set)
  have inst: "psInstances st1 = psInstances st" using ps(3) by (simp add: sameInputs_def)
  have "passResult (s # ss) is st (ps @ qs) st2" if q: "passResult ss is st1 qs st2" for qs st2
  proof -
    have "charged st (ps @ qs) st2" using q by (intro charged_then [OF pl ps(2,3)]) (simp add: passResult_def)
    moreover have "sameInputs st st2" using q ps(3) by (simp add: passResult_def sameInputs_def)
    moreover have "set (map fst ps) \<inter> set (map fst qs) = {}"
    proof (rule ccontr)
      assume "set (map fst ps) \<inter> set (map fst qs) \<noteq> {}"
      then obtain i n m where "(i, n) \<in> set ps" "(i, m) \<in> set qs" by auto
      with mem passResultD(2) [OF q] s show False unfolding inst by metis
    qed
    moreover have "\<forall>p\<in>set ps \<union> set qs. fst p \<in> set is \<and> instanceService (psInstances st) (fst p) \<in> set (s # ss) \<and>
        snd p \<in> cnId ` set (psAlive st)"
    proof (clarify, simp only: fst_conv snd_conv)
      fix i n assume that: "(i, n) \<in> set ps \<union> set qs"
      show "i \<in> set is \<and> instanceService (psInstances st) i \<in> set (s # ss) \<and> n \<in> cnId ` set (psAlive st)"
      proof (cases "(i, n) \<in> set ps")
        case True
        then have "n \<in> snd ` set ps" by force
        then have "n \<in> cnId ` set (psAlive st)" using ps(6) sub by blast
        with mem [OF True] show ?thesis by simp
      next
        case False
        with that have "(i, n) \<in> set qs" by simp
        from passResultD [OF q this] show ?thesis unfolding inst alive by simp
      qed
    qed
    moreover have "plainState st2" "distinct (map fst qs)" using q by (simp_all add: passResult_def)
    ultimately show ?thesis using fst unfolding passResult_def set_append case_prod_beta by simp
  qed
  with ps(1,4) inst show thesis by (rule that)
qed

lemma placeServices_sound:
  assumes "plainState st" and "distinct is" and "distinct ss"
    and "set ss \<subseteq> set (map fst (groupInstancesByService is (psInstances st)))"
    and "fold (placeServiceBatch (groupInstancesByService is (psInstances st0))) ss (cs, st) = (cs', st')"
    and "psInstances st = psInstances st0"
  shows "\<exists>ps. cs' = cs @ changesOf ps \<and> passResult ss is st ps st'"
  using assms
proof (induction ss arbitrary: cs st)
  case Nil
  then show ?case
    by (intro exI [of _ "[]"]) (simp add: changesOf_def passResult_def charged_none sameInputs_def)
next
  case (Cons s ss)
  have the: "the (map_of (groupInstancesByService is (psInstances st0)) s) =
      filter (\<lambda>i. instanceService (psInstances st) i = s) is"
    using Cons.prems(4,6) by (simp add: groupInstancesByService_the)
  obtain cs1 st1 where run: "placeBatchedInstances s (filter (\<lambda>i. instanceService (psInstances st) i = s) is) st = (cs1, st1)"
    by (metis prod.exhaust)
  have "s \<notin> set ss" using Cons.prems(3) by simp
  from passResult_step [OF Cons.prems(1,2) this run] obtain ps where
    ps: "cs1 = changesOf ps" "plainState st1" "psInstances st1 = psInstances st"
    "\<And>qs st2. passResult ss is st1 qs st2 \<Longrightarrow> passResult (s # ss) is st (ps @ qs) st2" by blast
  have "placeServiceBatch (groupInstancesByService is (psInstances st0)) s (cs, st) = (cs @ cs1, st1)"
    by (simp add: placeServiceBatch_def the run)
  then have rec: "fold (placeServiceBatch (groupInstancesByService is (psInstances st0))) ss (cs @ cs1, st1) = (cs', st')"
    using Cons.prems(5) by simp
  from Cons.IH [OF ps(2) Cons.prems(2) _ _ rec] Cons.prems(3,4,6) ps(3)
  obtain qs where "cs' = (cs @ cs1) @ changesOf qs" "passResult ss is st1 qs st'" by auto
  with ps(1,4) show ?case by (intro exI [of _ "ps @ qs"]) simp
qed

lemma placeUngrouped_pass:
  assumes pl: "plainState st" and ds: "distinct is" and run: "placeUngroupedInstances is st = (cs, st')"
  obtains ss ps where "cs = changesOf ps" "passResult ss is st ps st'"
proof -
  let ?m = "groupInstancesByService is (psInstances st)"
  have "distinct (sortedServiceNames ?m)" "set (sortedServiceNames ?m) \<subseteq> set (map fst ?m)"
    using groupInstancesByService_distinct by (simp_all add: sortedServiceNames_def)
  from placeServices_sound [OF pl ds this run [unfolded placeUngroupedInstances_def Let_def] refl]
  have "\<exists>ps. cs = [] @ changesOf ps \<and> passResult (sortedServiceNames ?m) is st ps st'" .
  with that show thesis by auto
qed

subsection \<open>The state a pass starts from\<close>

lemma buildNodeIndexMap_eq:
  assumes "distinct (map cnId cs)"
  shows "buildNodeIndexMap cs n = Some k \<longleftrightarrow> k < length cs \<and> cnId (cs ! k) = n"
  using assms
proof (induction cs arbitrary: n k rule: rev_induct)
  case Nil
  then show ?case by (simp add: buildNodeIndexMap_def)
next
  case (snoc c cs)
  have "buildNodeIndexMap (cs @ [c]) = (buildNodeIndexMap cs)(cnId c \<mapsto> length cs)"
    by (simp add: buildNodeIndexMap_def enumerate_append_eq)
  moreover have "cnId c \<notin> cnId ` set cs" using snoc.prems by simp
  then have "cnId (cs ! k) \<noteq> cnId c" if "k < length cs" for k using nth_mem [OF that] by (metis imageI)
  ultimately show ?case using snoc by (auto simp: nth_append less_Suc_eq)
qed

lemma alive_ok:
  assumes "nodesOk nodes"
  shows "distinct (map cnId (buildAliveCandidateNodes nodes u v))"
    "\<forall>c\<in>set (buildAliveCandidateNodes nodes u v). in64 (availCPU c) \<and> in64 (availMemory c)"
proof -
  have "map snId (map snd nodes) = map fst nodes"
    using assms by (auto simp: nodesOk_def)
  then have "distinct (map snId (map snd nodes))" using assms unfolding nodesOk_def by metis
  then have "distinct (map snId (filter (\<lambda>n. snState n = NodeAlive) (map snd nodes)))" by (rule distinct_map_filter)
  moreover have "cnId \<circ> candidateOf u v = snId" by (auto simp: candidateOf_def)
  ultimately show "distinct (map cnId (buildAliveCandidateNodes nodes u v))"
    by (simp add: buildAliveCandidateNodes_def)
  show "\<forall>c\<in>set (buildAliveCandidateNodes nodes u v). in64 (availCPU c) \<and> in64 (availMemory c)"
    by (auto simp: buildAliveCandidateNodes_def candidateOf_def)
qed

lemma stateOk_initial:
  assumes "nodesOk nodes"
  shows "stateOk (initialPlacementState nodes instances placements resources constraints serviceToGroup)"
proof -
  obtain load cpu mem where "computeNodeLoadAndResourceUsage placements instances resources = (load, cpu, mem)"
    by (metis prod.exhaust)
  then show ?thesis using alive_ok [OF assms, of cpu mem]
    by (simp add: stateOk_def initialPlacementState_def Let_def buildNodeIndexMap_eq)
qed

lemma initial_simps:
  "psConstraints (initialPlacementState nodes instances placements resources constraints g) = constraints"
  "psResources (initialPlacementState nodes instances placements resources constraints g) = resources"
  "psInstances (initialPlacementState nodes instances placements resources constraints g) = instances"
  "psPlacements (initialPlacementState nodes instances placements resources constraints g) = placements"
  by (simp_all add: initialPlacementState_def Let_def split: prod.splits)

lemma plainState_initial:
  assumes "nodesOk nodes" and "\<forall>(i, n)\<in>set nodes. i \<noteq> []"
    and "\<And>s k. constraints s = Some k \<Longrightarrow> zonePolicy k \<noteq> ''spread''"
    and "\<And>s r. resources s = Some r \<Longrightarrow> 0 \<le> resCPU r \<and> 0 \<le> resMemory r"
  shows "plainState (initialPlacementState nodes instances placements resources constraints g)"
proof -
  have "cnId c \<noteq> []" if "c \<in> set (buildAliveCandidateNodes nodes u v)" for u v c
    using that assms(1,2) by (fastforce simp: buildAliveCandidateNodes_def candidateOf_def nodesOk_def)
  then have "\<forall>c\<in>set (psAlive (initialPlacementState nodes instances placements resources constraints g)). cnId c \<noteq> []"
    by (simp add: initialPlacementState_def Let_def split: prod.splits)
  with stateOk_initial [OF assms(1)] assms(3,4) show ?thesis unfolding plainState_def initial_simps by blast
qed

lemma isHomeOfAllVolumes_eq: "isHomeOfAllVolumes n homes \<longleftrightarrow> homes = [n]"
  by (cases homes) (auto simp: isHomeOfAllVolumes_def)

lemma placedOn_distinct: "(\<And>n. placedOn n ps \<le> 1) \<Longrightarrow> distinct (map snd ps)"
proof (induction ps)
  case (Cons p ps)
  have "placedOn n ps \<le> 1" for n using Cons.prems [of n] by (simp add: placedOn_def split: if_splits)
  moreover have "filter (\<lambda>q. snd q = snd p) ps = []" using Cons.prems [of "snd p"] by (simp add: placedOn_def)
  ultimately show ?case using Cons.IH by (auto simp: filter_empty_conv)
qed simp

lemma batchCandidates_per_node:
  assumes "psConstraints st s = Some k" and "spMode k = ''per-node''"
    and "n \<in> cnId ` set (batchCandidates s st)" and "(j, n) \<in> set (psPlacements st)"
  shows "case map_of (psInstances st) j of None \<Rightarrow> True | Some info \<Rightarrow> siService info \<noteq> s"
proof -
  have "set (batchCandidates s st) \<subseteq> set (filterOutNodesAlreadyHostingService
      (filterByConstraints (psAlive st) s (psConstraints st)) s (psPlacements st) (psInstances st))"
    using assms(1,2) by (simp add: batchCandidates_def Let_def rankByPreferences_def rankByAffinityHints_def)
  with assms(3) have "n \<notin> set (map snd (filter (\<lambda>(i, n). case map_of (psInstances st) i of
      None \<Rightarrow> False | Some info \<Rightarrow> siService info = s) (psPlacements st)))"
    unfolding filterOutNodesAlreadyHostingService_def Let_def set_filter by blast
  with assms(4) show ?thesis by (force split: option.splits)
qed

subsection \<open>Properties\<close>

text \<open>C18. A placement pass over ungrouped instances never overcommits a node. It starts from the
  accounting of the cluster's own facts, with no zone-spread policy, no negative requirement and no
  empty node name. Then the changes are the placements of a list of pairs: each instance is placed at
  most once, only requested instances are placed, and only on alive nodes. Every node's remaining CPU
  and memory is what it had less the demand of what was placed on it, and is not negative when that
  demand is positive.\<close>

theorem placement_pass_no_overcommit:
  assumes "st = initialPlacementState (extractNodeInfoFromFacts fs) instances placements resources constraints g"
    and "\<forall>(i, n)\<in>set (extractNodeInfoFromFacts fs). i \<noteq> []"
    and "\<And>s k. constraints s = Some k \<Longrightarrow> zonePolicy k \<noteq> ''spread''"
    and "\<And>s r. resources s = Some r \<Longrightarrow> 0 \<le> resCPU r \<and> 0 \<le> resMemory r"
    and "distinct unplaced"
    and "placeUngroupedInstances unplaced st = (cs, st')"
  shows "\<exists>ps. cs = changesOf ps \<and> charged st ps st' \<and> distinct (map fst ps) \<and> fst ` set ps \<subseteq> set unplaced \<and>
    snd ` set ps \<subseteq> cnId ` set (psAlive st)"
proof -
  have "plainState st" unfolding assms(1)
    by (rule plainState_initial [OF extractNodeInfo_ok assms(2-4)])
  from placeUngrouped_pass [OF this assms(5,6)] obtain ss ps where "cs = changesOf ps" "passResult ss unplaced st ps st'" .
  moreover from this(2) have "fst ` set ps \<subseteq> set unplaced" "snd ` set ps \<subseteq> cnId ` set (psAlive st)"
    by (auto dest: passResultD)
  ultimately show ?thesis by (auto simp: passResult_def)
qed

definition exampleFact :: "string \<Rightarrow> string \<Rightarrow> Fact" where
  "exampleFact k v = \<lparr>Key = k, Value = v, Revision = 1, CreateRevision = 1, LeaseID = 0\<rparr>"

definition exampleInstance :: "string \<Rightarrow> string \<Rightarrow> schedulerInstanceInfo" where
  "exampleInstance s state = \<lparr>siService = s, siState = state, startupProbeState = [], stillStarting = False\<rparr>"

definition exampleNodeFacts :: "Fact list" where
  "exampleNodeFacts =
     [exampleFact ''observed/node/n1/state'' ''alive'', exampleFact ''observed/node/n1/available/cpu'' ''250'',
      exampleFact ''observed/node/n2/state'' ''alive'', exampleFact ''observed/node/n2/available/cpu'' ''100'']"

definition exampleState :: placementState where
  "exampleState = initialPlacementState (extractNodeInfoFromFacts exampleNodeFacts)
     [(''i1'', exampleInstance ''web'' ''pending''), (''i2'', exampleInstance ''web'' ''pending''),
      (''i3'', exampleInstance ''web'' ''pending''), (''i4'', exampleInstance ''web'' ''pending'')] []
     [''web'' \<mapsto> \<lparr>resCPU = 100, resMemory = 0\<rparr>] Map.empty Map.empty"

text \<open>Four instances of 100 units on nodes with 250 and 100 units: three are placed.\<close>

theorem placement_pass_no_overcommit_witness:
  "fst (placeUngroupedInstances [''i1'', ''i2'', ''i3'', ''i4''] exampleState) =
     changesOf [(''i1'', ''n1''), (''i2'', ''n2''), (''i3'', ''n1'')] \<and>
   (\<exists>ps. changesOf [(''i1'', ''n1''), (''i2'', ''n2''), (''i3'', ''n1'')] = changesOf ps \<and>
     charged exampleState ps (snd (placeUngroupedInstances [''i1'', ''i2'', ''i3'', ''i4''] exampleState)))"
proof -
  let ?r = "placeUngroupedInstances [''i1'', ''i2'', ''i3'', ''i4''] exampleState"
  have ids: "\<forall>(i, n)\<in>set (extractNodeInfoFromFacts exampleNodeFacts). i \<noteq> []" by code_simp
  have run: "fst ?r = changesOf [(''i1'', ''n1''), (''i2'', ''n2''), (''i3'', ''n1'')]" by code_simp
  have "\<exists>ps. fst ?r = changesOf ps \<and> charged exampleState ps (snd ?r) \<and> distinct (map fst ps) \<and>
      fst ` set ps \<subseteq> set [''i1'', ''i2'', ''i3'', ''i4''] \<and> snd ` set ps \<subseteq> cnId ` set (psAlive exampleState)"
    by (rule placement_pass_no_overcommit [OF exampleState_def ids]) (auto split: if_splits)
  with run show ?thesis by auto
qed


definition perNodeConstraint :: servicePlacementConstraint where
  "perNodeConstraint = zeroConstraint\<lparr>spMode := ''per-node''\<rparr>"

definition perNodeState :: placementState where
  "perNodeState = initialPlacementState (extractNodeInfoFromFacts exampleNodeFacts)
     [(''i0'', exampleInstance ''web'' ''running''), (''i1'', exampleInstance ''web'' ''pending''),
      (''i2'', exampleInstance ''web'' ''pending'')] [(''i0'', ''n1'')]
     Map.empty [''web'' \<mapsto> perNodeConstraint] Map.empty"




end
