(* ===== verification/Scheduler_Reconcile.thy ===== *)
theory Scheduler_Reconcile
  imports Scheduler_Placement
begin

text \<open>
  The scheduler's reconciliation (\<open>scheduler/scheduler.go\<close>): the grace period before the first
  placement, preemption of lower-priority instances, the facts that report unplaced demand, the
  rebalancing of running instances, and \<open>Reconcile\<close>, which composes them. The time of a call, the JSON
  encoder and the unstable \<open>sort.Slice\<close> are arguments.
\<close>

subsection \<open>Grace period\<close>

record Scheduler =
  firstPendingSeenAt :: "int option"
  placementGracePeriod :: int

definition initialPlacementGracePeriod :: int where
  "initialPlacementGracePeriod = 10 * 1000000000"

definition NewScheduler :: Scheduler where
  "NewScheduler = \<lparr>firstPendingSeenAt = None, placementGracePeriod = initialPlacementGracePeriod\<rparr>"

definition SetPlacementGracePeriod :: "int \<Rightarrow> Scheduler \<Rightarrow> Scheduler" where
  "SetPlacementGracePeriod d s = s\<lparr>placementGracePeriod := d\<rparr>"

definition shouldDeferInitialPlacement :: "int \<Rightarrow> placementMap \<Rightarrow> string list \<Rightarrow> Scheduler \<Rightarrow> bool \<times> Scheduler" where
  "shouldDeferInitialPlacement now existingPlacements unplaced s =
     (if existingPlacements \<noteq> [] \<or> unplaced = [] then (False, s\<lparr>firstPendingSeenAt := None\<rparr>)
      else if placementGracePeriod s \<le> 0 then (False, s)
      else case firstPendingSeenAt s of
             None \<Rightarrow> (True, s\<lparr>firstPendingSeenAt := Some now\<rparr>)
           | Some t \<Rightarrow> if now - t < placementGracePeriod s then (True, s)
                       else (False, s\<lparr>firstPendingSeenAt := None\<rparr>))"

subsection \<open>Preemption\<close>

definition maxPreemptionsPerCycle :: nat where
  "maxPreemptionsPerCycle = 3"

definition isVictim :: "string \<Rightarrow> int \<Rightarrow> nodeMap \<Rightarrow> instanceMap \<Rightarrow> (string \<Rightarrow> int) \<Rightarrow> constraintMap \<Rightarrow> string list \<Rightarrow>
    string list \<Rightarrow> string \<times> string \<Rightarrow> bool" where
  "isVictim requesterService requesterPriority nodes instances priorities constraints stateful preempted p \<longleftrightarrow>
     (case p of (i, n) \<Rightarrow>
        i \<notin> set preempted \<and>
        (case map_of instances i of
           None \<Rightarrow> False
         | Some info \<Rightarrow>
             siState info = InstanceRunning \<and>
             (case map_of nodes n of None \<Rightarrow> False | Some node \<Rightarrow> snState node = NodeAlive) \<and>
             siService info \<noteq> requesterService \<and>
             \<not> priorities (siService info) \<ge> requesterPriority \<and>
             (case constraints (siService info) of None \<Rightarrow> True | Some k \<Rightarrow> spMode k \<noteq> ''per-node'') \<and>
             siService info \<notin> set stateful))"

definition findPreemptionVictim :: "string \<Rightarrow> int \<Rightarrow> nodeMap \<Rightarrow> instanceMap \<Rightarrow> placementMap \<Rightarrow> (string \<Rightarrow> int) \<Rightarrow>
    constraintMap \<Rightarrow> string list \<Rightarrow> string list \<Rightarrow> string \<times> string" where
  "findPreemptionVictim requesterService requesterPriority nodes instances placements priorities constraints stateful preempted =
     (case sort_key (\<lambda>(i, n). (priorities (instanceService instances i), i))
             (filter (isVictim requesterService requesterPriority nodes instances priorities constraints stateful preempted)
                placements) of
        [] \<Rightarrow> ([], [])
      | v # _ \<Rightarrow> v)"

text \<open>The victims chosen for the instances in turn; at most three are chosen in a cycle.\<close>

fun preemptLoop :: "nodeMap \<Rightarrow> instanceMap \<Rightarrow> placementMap \<Rightarrow> constraintMap \<Rightarrow> (string \<Rightarrow> int) \<Rightarrow> string list \<Rightarrow>
    string list \<Rightarrow> string list \<Rightarrow> string list" where
  "preemptLoop nodes instances placements constraints priorities stateful [] preempted = []"
| "preemptLoop nodes instances placements constraints priorities stateful (i # rest) preempted =
     (if length preempted \<ge> maxPreemptionsPerCycle then []
      else case map_of instances i of
             None \<Rightarrow> preemptLoop nodes instances placements constraints priorities stateful rest preempted
           | Some info \<Rightarrow>
               let requesterPriority = priorities (siService info);
                   victim = fst (findPreemptionVictim (siService info) requesterPriority nodes instances placements
                                   priorities constraints stateful preempted)
               in if requesterPriority = 0 \<or> victim = []
                  then preemptLoop nodes instances placements constraints priorities stateful rest preempted
                  else victim # preemptLoop nodes instances placements constraints priorities stateful rest (victim # preempted))"

definition attemptPreemptions :: "string list \<Rightarrow> string list \<Rightarrow> nodeMap \<Rightarrow> instanceMap \<Rightarrow> placementMap \<Rightarrow> constraintMap \<Rightarrow>
    (string \<Rightarrow> int) \<Rightarrow> string list \<Rightarrow> Change list" where
  "attemptPreemptions unplaced placedInThisCycle nodes instances placements constraints priorities stateful =
     (let stillUnplaced = sort_key (\<lambda>i. (- priorities (instanceService instances i), i))
            (filter (\<lambda>i. i \<notin> set placedInThisCycle) unplaced)
      in map (\<lambda>v. putChange [] (KeyDerivedInstanceControllerStopped v) ''true'')
           (preemptLoop nodes instances placements constraints priorities stateful stillUnplaced []))"

subsection \<open>Unplaced demand\<close>

record unplacedDemandRequirements =
  urService :: string
  urCPU :: int
  urMemory :: int
  urArchitecture :: string

definition UnplacedInsufficientCapacity :: string where "UnplacedInsufficientCapacity = ''insufficient_capacity''"
definition UnplacedUnsatisfiableConstraint :: string where "UnplacedUnsatisfiableConstraint = ''unsatisfiable_constraint''"
definition UnplacedNoNodes :: string where "UnplacedNoNodes = ''no_nodes''"
definition UnplacedVolumeHomeNodeUnavailable :: string where
  "UnplacedVolumeHomeNodeUnavailable = ''volume_home_node_unavailable''"

definition collectPlacedInstanceIDs :: "Change list \<Rightarrow> string list" where
  "collectPlacedInstanceIDs changes =
     fold (\<lambda>c placed.
             if chType c = OpPut \<and> HasPrefix (chKey c) ScanPlacements
             then (let instanceID = TrimPrefix (chKey c) ScanPlacements
                   in if \<not> Contains instanceID ''/'' then List.insert instanceID placed else placed)
             else placed)
       changes []"

definition countAliveNodes :: "nodeMap \<Rightarrow> nat" where
  "countAliveNodes nodes = length (filter (\<lambda>(i, n). snState n = NodeAlive) nodes)"

definition satisfiesRequireLabelsForNode :: "schedulerNodeInfo \<Rightarrow> (string \<times> string) list \<Rightarrow> bool" where
  "satisfiesRequireLabelsForNode node requireLabels \<longleftrightarrow>
     (\<forall>(label, v)\<in>set requireLabels. snLabels node label = Some v)"

definition toleratesRestrictionsForNode :: "schedulerNodeInfo \<Rightarrow> string list \<Rightarrow> bool" where
  "toleratesRestrictionsForNode node acceptLabels \<longleftrightarrow>
     (\<forall>(label, v)\<in>set (snRestrictions node). label \<in> set acceptLabels)"

definition countConstraintMatchingNodes :: "nodeMap \<Rightarrow> servicePlacementConstraint \<Rightarrow> nat" where
  "countConstraintMatchingNodes nodes k =
     length (filter (\<lambda>(i, node).
       snState node = NodeAlive \<and>
       \<not> (spArchitecture k \<noteq> [] \<and> snArchitecture node \<noteq> [] \<and> snArchitecture node \<noteq> spArchitecture k) \<and>
       satisfiesRequireLabelsForNode node (spRequire k) \<and>
       toleratesRestrictionsForNode node (spAccept k) \<and>
       \<not> (volumeHomeNodes k \<noteq> [] \<and> \<not> isHomeOfAllVolumes (snId node) (volumeHomeNodes k))) nodes)"

definition classifyUnplacedReason :: "schedulerInstanceInfo option \<Rightarrow> nat \<Rightarrow> nodeMap \<Rightarrow> constraintMap \<Rightarrow> string" where
  "classifyUnplacedReason info aliveCount nodes constraints =
     (if aliveCount = 0 then UnplacedNoNodes
      else case info of
             None \<Rightarrow> UnplacedInsufficientCapacity
           | Some i \<Rightarrow>
               (case constraints (siService i) of
                  None \<Rightarrow> UnplacedInsufficientCapacity
                | Some k \<Rightarrow>
                    let matchCount = countConstraintMatchingNodes nodes k
                    in if matchCount = 0 \<and> volumeHomeNodes k \<noteq> [] then UnplacedVolumeHomeNodeUnavailable
                       else if matchCount = 0 then UnplacedUnsatisfiableConstraint
                       else UnplacedInsufficientCapacity))"

definition buildUnplacedRequirements :: "schedulerInstanceInfo option \<Rightarrow> resourceMap \<Rightarrow> constraintMap \<Rightarrow> unplacedDemandRequirements" where
  "buildUnplacedRequirements info resources constraints =
     (case info of
        None \<Rightarrow> \<lparr>urService = [], urCPU = 0, urMemory = 0, urArchitecture = []\<rparr>
      | Some i \<Rightarrow>
          \<lparr>urService = siService i,
           urCPU = (case resources (siService i) of None \<Rightarrow> 0 | Some r \<Rightarrow> resCPU r),
           urMemory = (case resources (siService i) of None \<Rightarrow> 0 | Some r \<Rightarrow> resMemory r),
           urArchitecture = (case constraints (siService i) of None \<Rightarrow> [] | Some k \<Rightarrow> spArchitecture k)\<rparr>)"

text \<open>\<open>marshal\<close> is \<open>json.Marshal\<close>, \<open>None\<close> its error.\<close>

definition buildUnplacedFactChanges :: "(unplacedDemandRequirements \<Rightarrow> string option) \<Rightarrow> string \<Rightarrow> schedulerInstanceInfo option \<Rightarrow>
    string \<Rightarrow> resourceMap \<Rightarrow> constraintMap \<Rightarrow> Change list" where
  "buildUnplacedFactChanges marshal instanceID info reason resources constraints =
     (let requirementsJSON = (case marshal (buildUnplacedRequirements info resources constraints) of
                                None \<Rightarrow> ''{}'' | Some j \<Rightarrow> j)
      in [putChange [] (KeyDerivedSchedulerUnplacedReason instanceID) reason,
          putChange [] (KeyDerivedSchedulerUnplacedRequirements instanceID) requirementsJSON])"

definition emitUnplacedDemandFacts :: "(unplacedDemandRequirements \<Rightarrow> string option) \<Rightarrow> string list \<Rightarrow> string list \<Rightarrow> nodeMap \<Rightarrow>
    instanceMap \<Rightarrow> resourceMap \<Rightarrow> constraintMap \<Rightarrow> Change list" where
  "emitUnplacedDemandFacts marshal unplaced placedInThisCycle nodes instances resources constraints =
     concat (map (\<lambda>i. buildUnplacedFactChanges marshal i (map_of instances i)
                        (classifyUnplacedReason (map_of instances i) (countAliveNodes nodes) nodes constraints)
                        resources constraints)
       (filter (\<lambda>i. i \<notin> set placedInThisCycle) unplaced))"

definition cleanupStaleUnplacedFacts :: "Fact list \<Rightarrow> placementMap \<Rightarrow> string list \<Rightarrow> Change list" where
  "cleanupStaleUnplacedFacts fs existingPlacements placedInThisCycle =
     concat (map (\<lambda>i. [deleteChange [] (KeyDerivedSchedulerUnplacedReason i),
                        deleteChange [] (KeyDerivedSchedulerUnplacedRequirements i)])
       (filter (\<lambda>i. (case map_of existingPlacements i of None \<Rightarrow> [] | Some n \<Rightarrow> n) \<noteq> [] \<or> i \<in> set placedInThisCycle)
          (extractExistingUnplacedInstanceIDs fs)))"

subsection \<open>Rebalancing\<close>

definition maxRebalanceMovesPerCycle :: nat where "maxRebalanceMovesPerCycle = 2"
definition rebalanceLoadImbalanceThreshold :: int where "rebalanceLoadImbalanceThreshold = 2"

type_synonym loadMap = "(string \<times> int) list"

definition loadOf :: "loadMap \<Rightarrow> string \<Rightarrow> int" where
  "loadOf m n = (case map_of m n of None \<Rightarrow> 0 | Some v \<Rightarrow> v)"

definition collectAliveNodeIDs :: "nodeMap \<Rightarrow> string list" where
  "collectAliveNodeIDs nodes = sort (map snId (filter (\<lambda>n. snState n = NodeAlive) (map snd nodes)))"

definition isActive :: "instanceMap \<Rightarrow> string \<Rightarrow> bool" where
  "isActive instances i \<longleftrightarrow>
     (case map_of instances i of None \<Rightarrow> False
      | Some info \<Rightarrow> siState info = InstanceRunning \<or> siState info = InstancePending)"

definition computeRunningLoadPerNode :: "placementMap \<Rightarrow> instanceMap \<Rightarrow> string list \<Rightarrow> loadMap" where
  "computeRunningLoadPerNode placements instances aliveNodeIDs =
     fold (\<lambda>(i, n) m. if isActive instances i then AList.update n (loadOf m n + 1) m else m)
       placements (fold (\<lambda>n m. AList.update n 0 m) aliveNodeIDs [])"

definition computeMaxMinLoad :: "loadMap \<Rightarrow> string list \<Rightarrow> int \<times> int" where
  "computeMaxMinLoad nodeLoad aliveNodeIDs =
     fold (\<lambda>n (mx, mn). let l = loadOf nodeLoad n in (if l > mx then l else mx, if l < mn then l else mn))
       aliveNodeIDs (0, maxInt)"

definition sumNodeLoad :: "loadMap \<Rightarrow> int" where
  "sumNodeLoad nodeLoad = sum_list (map snd nodeLoad)"

text \<open>\<open>sort.Slice\<close> is unstable: what it does to nodes of equal load is left open.\<close>

type_synonym sortSlice = "(string \<Rightarrow> string \<Rightarrow> bool) \<Rightarrow> string list \<Rightarrow> string list"

definition findOverloadedNodes :: "sortSlice \<Rightarrow> loadMap \<Rightarrow> string list \<Rightarrow> int \<Rightarrow> string list" where
  "findOverloadedNodes slice nodeLoad aliveNodeIDs idealLoad =
     slice (\<lambda>a b. loadOf nodeLoad a > loadOf nodeLoad b)
       (filter (\<lambda>n. loadOf nodeLoad n > idealLoad + 1) aliveNodeIDs)"

text \<open>What the rebalancing of a cycle reads and does not change.\<close>

record rebalanceInput =
  riCandidates :: "candidateNode list"
  riPlacements :: placementMap
  riInstances :: instanceMap
  riGroups :: "string \<rightharpoonup> string"
  riConstraints :: constraintMap
  riPlaced :: "string list"
  riPinned :: "string list"

definition isMovable :: "rebalanceInput \<Rightarrow> string \<Rightarrow> string \<times> string \<Rightarrow> bool" where
  "isMovable inp source p \<longleftrightarrow>
     (case p of (i, n) \<Rightarrow>
        n = source \<and> i \<notin> set (riPlaced inp) \<and>
        (case map_of (riInstances inp) i of
           None \<Rightarrow> False
         | Some info \<Rightarrow>
             siState info = InstanceRunning \<and> riGroups inp (siService info) = None \<and>
             siService info \<notin> set (riPinned inp) \<and> \<not> stillStarting info \<and>
             (case riConstraints inp (siService info) of
                None \<Rightarrow> False
              | Some k \<Rightarrow> spRebalance k \<and> \<not> (spMode k = ''per-node'' \<or> colocate k \<noteq> [] \<or> separate k \<noteq> []))))"

definition findMovableInstances :: "rebalanceInput \<Rightarrow> string \<Rightarrow> string list" where
  "findMovableInstances inp source = sort (map fst (filter (isMovable inp source) (riPlacements inp)))"

definition targetStep :: "string \<Rightarrow> loadMap \<Rightarrow> (string \<Rightarrow> int) \<Rightarrow> candidateNode \<Rightarrow> string \<times> int \<Rightarrow> string \<times> int" where
  "targetStep source nodeLoad perNode c best =
     (if cnId c = source then best
      else if perNode (cnId c) \<ge> perNode source then best
      else if loadOf nodeLoad (cnId c) < snd best then (cnId c, loadOf nodeLoad (cnId c)) else best)"

definition selectRebalanceTarget :: "string \<Rightarrow> string \<Rightarrow> candidateNode list \<Rightarrow> loadMap \<Rightarrow> (string \<Rightarrow> int) \<Rightarrow> constraintMap \<Rightarrow> string" where
  "selectRebalanceTarget serviceName source aliveCandidates nodeLoad perNode constraints =
     fst (fold (targetStep source nodeLoad perNode) (filterByConstraints aliveCandidates serviceName constraints) ([], maxInt))"

definition buildRebalanceMoveChanges :: "string \<times> string \<times> string \<Rightarrow> Change list" where
  "buildRebalanceMoveChanges mv =
     (case mv of (instanceID, source, target) \<Rightarrow>
        let groupID = ''rebalance/'' @ instanceID
        in [putChange groupID (KeyPlacementInstance instanceID) target,
            deleteChange groupID (KeyPlacementNodeInstance source instanceID),
            putChange groupID (KeyPlacementNodeInstance target instanceID) []])"

text \<open>The loads, the instances of a service per node, and the moves (instance, source, target) so far.\<close>

record rebalanceState =
  rbLoad :: loadMap
  rbPerNode :: "string \<Rightarrow> string \<Rightarrow> int"
  rbMoves :: "(string \<times> string \<times> string) list"

definition recordMove :: "string \<Rightarrow> string \<Rightarrow> string \<Rightarrow> string \<Rightarrow> rebalanceState \<Rightarrow> rebalanceState" where
  "recordMove i service source target st =
     (let load1 = AList.update source (loadOf (rbLoad st) source - 1) (rbLoad st);
          per1 = bump source (-1) (rbPerNode st service)
      in st\<lparr>rbLoad := AList.update target (loadOf load1 target + 1) load1,
            rbPerNode := (rbPerNode st)(service := bump target 1 per1),
            rbMoves := rbMoves st @ [(i, source, target)]\<rparr>)"

definition moveInstance :: "rebalanceInput \<Rightarrow> string \<Rightarrow> string \<Rightarrow> rebalanceState \<Rightarrow> rebalanceState" where
  "moveInstance inp source i st =
     (if length (rbMoves st) \<ge> maxRebalanceMovesPerCycle then st
      else case map_of (riInstances inp) i of
             None \<Rightarrow> st
           | Some info \<Rightarrow>
               let target = selectRebalanceTarget (siService info) source (riCandidates inp) (rbLoad st)
                              (rbPerNode st (siService info)) (riConstraints inp)
               in if target = [] \<or> loadOf (rbLoad st) target \<ge> loadOf (rbLoad st) source - 1 then st
                  else recordMove i (siService info) source target st)"

definition moveFromNode :: "rebalanceInput \<Rightarrow> string \<Rightarrow> rebalanceState \<Rightarrow> rebalanceState" where
  "moveFromNode inp source st =
     (if length (rbMoves st) \<ge> maxRebalanceMovesPerCycle then st
      else fold (moveInstance inp source) (findMovableInstances inp source) st)"

definition rebalanceMoves :: "rebalanceInput \<Rightarrow> string list \<Rightarrow> loadMap \<Rightarrow> rebalanceState" where
  "rebalanceMoves inp overloadedNodes nodeLoad =
     fold (moveFromNode inp) overloadedNodes
       \<lparr>rbLoad = nodeLoad, rbPerNode = countServiceInstancesPerNode (riPlacements inp) (riInstances inp), rbMoves = []\<rparr>"

definition executeRebalanceMoves :: "rebalanceInput \<Rightarrow> string list \<Rightarrow> loadMap \<Rightarrow> Change list" where
  "executeRebalanceMoves inp overloadedNodes nodeLoad =
     concat (map buildRebalanceMoveChanges (rbMoves (rebalanceMoves inp overloadedNodes nodeLoad)))"

text \<open>The moves of a cycle, \<open>None\<close> when the load is balanced.\<close>

definition planRebalance :: "sortSlice \<Rightarrow> nodeMap \<Rightarrow> rebalanceInput \<Rightarrow> rebalanceState option" where
  "planRebalance slice nodes inp =
     (let aliveNodeIDs = collectAliveNodeIDs nodes
      in if length aliveNodeIDs < 2 then None
         else let nodeLoad = computeRunningLoadPerNode (riPlacements inp) (riInstances inp) aliveNodeIDs;
                  (maxLoad, minLoad) = computeMaxMinLoad nodeLoad aliveNodeIDs
              in if maxLoad - minLoad \<le> rebalanceLoadImbalanceThreshold then None
                 else let idealLoad = sumNodeLoad nodeLoad div int (length aliveNodeIDs)
                      in Some (rebalanceMoves inp (findOverloadedNodes slice nodeLoad aliveNodeIDs idealLoad) nodeLoad))"

definition rebalanceInputOf :: "nodeMap \<Rightarrow> instanceMap \<Rightarrow> placementMap \<Rightarrow> resourceMap \<Rightarrow> constraintMap \<Rightarrow> (string \<rightharpoonup> string) \<Rightarrow>
    string list \<Rightarrow> string list \<Rightarrow> rebalanceInput" where
  "rebalanceInputOf nodes instances placements resources constraints serviceToGroup placedInThisCycle pinned =
     (let (_, usedCPU, usedMemory) = computeNodeLoadAndResourceUsage placements instances resources
      in \<lparr>riCandidates = buildAliveCandidateNodes nodes usedCPU usedMemory, riPlacements = placements,
          riInstances = instances, riGroups = serviceToGroup, riConstraints = constraints,
          riPlaced = placedInThisCycle, riPinned = pinned\<rparr>)"

definition rebalancePlacedInstances :: "sortSlice \<Rightarrow> nodeMap \<Rightarrow> instanceMap \<Rightarrow> placementMap \<Rightarrow> resourceMap \<Rightarrow> constraintMap \<Rightarrow>
    (string \<rightharpoonup> string) \<Rightarrow> string list \<Rightarrow> string list \<Rightarrow> Change list" where
  "rebalancePlacedInstances slice nodes instances placements resources constraints serviceToGroup placedInThisCycle pinned =
     (case planRebalance slice nodes
             (rebalanceInputOf nodes instances placements resources constraints serviceToGroup placedInThisCycle pinned) of
        None \<Rightarrow> []
      | Some st \<Rightarrow> concat (map buildRebalanceMoveChanges (rbMoves st)))"

subsection \<open>Reconcile\<close>

definition schedulerWatch :: "string list" where
  "schedulerWatch = [ScanPlacements, ScanObservedNodes, ScanObservedInstances, ScanDesiredServices,
     ScanDesiredGroups, ScanDerivedSchedulerUnplaced, ScanObservedVolumes]"

definition Reconcile :: "int \<Rightarrow> (unplacedDemandRequirements \<Rightarrow> string option) \<Rightarrow> sortSlice \<Rightarrow> Fact list \<Rightarrow> Scheduler \<Rightarrow> Change list \<times> Scheduler" where
  "Reconcile now marshal slice fs sched =
     (let nodes = extractNodeInfoFromFacts fs;
          placements = extractPlacementsFromFacts fs;
          resources = extractServiceResourcesFromFacts fs;
          constraints = applyVolumeHomeNodeConstraints (extractPlacementConstraints fs) fs;
          serviceToGroup = extractServiceGroupMemberships fs;
          priorities = extractServicePriorities fs;
          stateful = extractStatefulServices fs;
          instances = markInstancesStillStarting (extractInstanceInfoFromFacts fs) (extractServicesWithStartupProbe fs);
          unplaced = findUnplacedPendingInstances instances placements;
          (defer, sched') = shouldDeferInitialPlacement now placements unplaced sched;
          cs = (if defer \<or> unplaced = [] then []
                else attemptPlacements unplaced nodes instances placements resources constraints serviceToGroup);
          placed = collectPlacedInstanceIDs cs
      in (cs @
          attemptPreemptions unplaced placed nodes instances placements constraints priorities stateful @
          emitUnplacedDemandFacts marshal unplaced placed nodes instances resources constraints @
          cleanupStaleUnplacedFacts fs placements placed @
          rebalancePlacedInstances slice nodes instances placements resources constraints serviceToGroup placed
            (extractRebalancePinnedServices fs stateful),
          sched'))"

subsection \<open>Load and its potential\<close>

lemma loadOf_update [simp]: "loadOf (AList.update k v m) n = (if n = k then v else loadOf m n)"
  by (simp add: loadOf_def update_conv)

lemma loadOf_Nil [simp]: "loadOf [] n = 0"
  by (simp add: loadOf_def)

definition runLoad :: "instanceMap \<Rightarrow> placementMap \<Rightarrow> string \<Rightarrow> int" where
  "runLoad instances placements n = int (length (filter (\<lambda>(i, m). m = n \<and> isActive instances i) placements))"

lemma runLoad_fold:
  "loadOf (fold (\<lambda>(i, n) m. if isActive instances i then AList.update n (loadOf m n + 1) m else m) ps m) n =
     loadOf m n + runLoad instances ps n"
  by (induction ps arbitrary: m) (auto simp: runLoad_def split: if_splits)

lemma loadOf_computeRunningLoad:
  "loadOf (computeRunningLoadPerNode placements instances alive) n = runLoad instances placements n"
proof -
  have "loadOf (fold (\<lambda>n m. AList.update n 0 m) alive m) n = (if n \<in> set alive then 0 else loadOf m n)" for m
    by (induction alive arbitrary: m) auto
  then show ?thesis by (simp add: computeRunningLoadPerNode_def runLoad_fold)
qed

text \<open>The sum of the squared loads.\<close>

definition potential :: "string set \<Rightarrow> (string \<Rightarrow> int) \<Rightarrow> int" where
  "potential A f = (\<Sum>n\<in>A. f n * f n)"

lemma potential_nonneg: "0 \<le> potential A f"
  by (simp add: potential_def sum_nonneg)

lemma potential_move:
  assumes "finite A" and "s \<in> A" and "t \<in> A" and "s \<noteq> t"
    and "f' = f(s := f s - 1, t := f t + 1)"
  shows "potential A f' = potential A f - 2 * (f s - f t - 1)"
proof -
  have split: "potential A g = g s * g s + g t * g t + potential (A - {s, t}) g" for g
  proof -
    have "potential A g = g s * g s + potential (A - {s}) g"
      unfolding potential_def by (rule sum.remove [OF assms(1,2)])
    also have "potential (A - {s}) g = g t * g t + potential (A - {s} - {t}) g"
      unfolding potential_def by (rule sum.remove) (use assms in auto)
    also have "A - {s} - {t} = A - {s, t}" by auto
    finally show ?thesis by simp
  qed
  have "potential (A - {s, t}) f' = potential (A - {s, t}) f"
    unfolding potential_def assms(5) by (rule sum.cong) auto
  then show ?thesis unfolding split [of f'] split [of f] using assms(4,5) by (simp add: algebra_simps)
qed

definition netLoad :: "(string \<times> string \<times> string) list \<Rightarrow> string \<Rightarrow> int" where
  "netLoad mvs n = sum_list (map (\<lambda>(i, s, t). (if t = n then 1 else 0) - (if s = n then 1 else 0)) mvs)"

lemma netLoad_simps [simp]:
  "netLoad [] n = 0" "netLoad (mvs @ nvs) n = netLoad mvs n + netLoad nvs n"
  by (simp_all add: netLoad_def)

subsection \<open>One move\<close>

lemma target_fold:
  assumes "fst best = [] \<or> (fst best \<in> ids \<and> fst best \<noteq> source \<and> perNode (fst best) < perNode source)"
    and "cnId ` set cs \<subseteq> ids"
  shows "fst (fold (targetStep source load perNode) cs best) = [] \<or>
    (fst (fold (targetStep source load perNode) cs best) \<in> ids \<and> fst (fold (targetStep source load perNode) cs best) \<noteq> source \<and>
     perNode (fst (fold (targetStep source load perNode) cs best)) < perNode source)"
  using assms by (induction cs arbitrary: best) (auto simp: targetStep_def)

lemma selectRebalanceTarget_sound:
  assumes "selectRebalanceTarget service source cs load perNode constraints = t" and "t \<noteq> []"
  shows "t \<in> cnId ` set cs" "t \<noteq> source" "perNode t < perNode source"
proof -
  have "cnId ` set (filterByConstraints cs service constraints) \<subseteq> cnId ` set cs"
    using subCandidates_constraints [of cs service constraints] by (auto simp: subCandidates_def)
  from target_fold [OF _ this, of "([], maxInt)" source perNode load] assms
  show "t \<in> cnId ` set cs" "t \<noteq> source" "perNode t < perNode source"
    by (auto simp: selectRebalanceTarget_def)
qed

text \<open>What a stretch of the rebalancing does: it moves some of the given placements, at most two in a
  cycle, to candidate nodes, and keeps the accounts.\<close>

definition moved :: "rebalanceInput \<Rightarrow> string set \<Rightarrow> (string \<times> string) list \<Rightarrow> rebalanceState \<Rightarrow> rebalanceState \<Rightarrow> bool" where
  "moved inp A ps st st' \<longleftrightarrow>
     (\<exists>new. rbMoves st' = rbMoves st @ new \<and> subseq (map (\<lambda>(i, s, t). (i, s)) new) ps \<and>
       (length (rbMoves st) \<le> maxRebalanceMovesPerCycle \<longrightarrow> length (rbMoves st') \<le> maxRebalanceMovesPerCycle) \<and>
       (\<forall>(i, s, t)\<in>set new. t \<in> cnId ` set (riCandidates inp) \<and> s \<noteq> t) \<and>
       (\<forall>n. loadOf (rbLoad st') n = loadOf (rbLoad st) n + netLoad new n) \<and>
       potential A (loadOf (rbLoad st')) + 2 * int (length new) \<le> potential A (loadOf (rbLoad st)) \<and>
       (\<forall>service. potential A (rbPerNode st' service) \<le> potential A (rbPerNode st service)))"

lemma moved_none: "moved inp A ps st st"
  by (auto simp: moved_def intro!: exI [of _ "[]"])

lemma moved_trans:
  assumes "moved inp A ps st st1" and "moved inp A qs st1 st2"
  shows "moved inp A (ps @ qs) st st2"
proof -
  from assms(1) obtain n1 where n1: "rbMoves st1 = rbMoves st @ n1" "subseq (map (\<lambda>(i, s, t). (i, s)) n1) ps"
    "length (rbMoves st) \<le> maxRebalanceMovesPerCycle \<longrightarrow> length (rbMoves st1) \<le> maxRebalanceMovesPerCycle"
    "\<forall>(i, s, t)\<in>set n1. t \<in> cnId ` set (riCandidates inp) \<and> s \<noteq> t"
    "\<forall>n. loadOf (rbLoad st1) n = loadOf (rbLoad st) n + netLoad n1 n"
    "potential A (loadOf (rbLoad st1)) + 2 * int (length n1) \<le> potential A (loadOf (rbLoad st))"
    "\<forall>service. potential A (rbPerNode st1 service) \<le> potential A (rbPerNode st service)"
    unfolding moved_def by blast
  from assms(2) obtain n2 where n2: "rbMoves st2 = rbMoves st1 @ n2" "subseq (map (\<lambda>(i, s, t). (i, s)) n2) qs"
    "length (rbMoves st1) \<le> maxRebalanceMovesPerCycle \<longrightarrow> length (rbMoves st2) \<le> maxRebalanceMovesPerCycle"
    "\<forall>(i, s, t)\<in>set n2. t \<in> cnId ` set (riCandidates inp) \<and> s \<noteq> t"
    "\<forall>n. loadOf (rbLoad st2) n = loadOf (rbLoad st1) n + netLoad n2 n"
    "potential A (loadOf (rbLoad st2)) + 2 * int (length n2) \<le> potential A (loadOf (rbLoad st1))"
    "\<forall>service. potential A (rbPerNode st2 service) \<le> potential A (rbPerNode st1 service)"
    unfolding moved_def by blast
  have "rbMoves st2 = rbMoves st @ (n1 @ n2)" using n1(1) n2(1) by simp
  moreover have "subseq (map (\<lambda>(i, s, t). (i, s)) (n1 @ n2)) (ps @ qs)" using n1(2) n2(2) by (simp add: list_emb_append_mono)
  moreover have "potential A (loadOf (rbLoad st2)) + 2 * int (length (n1 @ n2)) \<le> potential A (loadOf (rbLoad st))"
    using n1(6) n2(6) by simp
  moreover have "\<forall>n. loadOf (rbLoad st2) n = loadOf (rbLoad st) n + netLoad (n1 @ n2) n" using n1(5) n2(5) by simp
  moreover have "\<forall>service. potential A (rbPerNode st2 service) \<le> potential A (rbPerNode st service)"
    using n1(7) n2(7) by (meson order_trans)
  moreover have "\<forall>(i, s, t)\<in>set (n1 @ n2). t \<in> cnId ` set (riCandidates inp) \<and> s \<noteq> t" using n1(4) n2(4) by auto
  ultimately show ?thesis using n1(3) n2(3) unfolding moved_def by blast
qed

lemma moved_recordMove:
  assumes fin: "finite A" "cnId ` set (riCandidates inp) \<subseteq> A" "source \<in> A"
    and cap: "length (rbMoves st) < maxRebalanceMovesPerCycle"
    and t: "t \<in> cnId ` set (riCandidates inp)" "t \<noteq> source" "rbPerNode st service t < rbPerNode st service source"
    and load: "loadOf (rbLoad st) t < loadOf (rbLoad st) source - 1"
  shows "moved inp A [(i, source)] st (recordMove i service source t st)"
proof -
  let ?st = "recordMove i service source t st"
  have tA: "t \<in> A" using fin(2) t(1) by blast
  have l: "loadOf (rbLoad ?st) = (loadOf (rbLoad st))(source := loadOf (rbLoad st) source - 1, t := loadOf (rbLoad st) t + 1)"
    using t(2) by (auto simp: recordMove_def Let_def fun_eq_iff)
  have p: "rbPerNode ?st service = (rbPerNode st service)(source := rbPerNode st service source - 1, t := rbPerNode st service t + 1)"
    "r \<noteq> service \<Longrightarrow> rbPerNode ?st r = rbPerNode st r" for r
    using t(2) by (auto simp: recordMove_def Let_def bump_def fun_eq_iff)
  have m: "rbMoves ?st = rbMoves st @ [(i, source, t)]" by (simp add: recordMove_def Let_def)
  have "potential A (loadOf (rbLoad ?st)) + 2 \<le> potential A (loadOf (rbLoad st))"
    using potential_move [OF fin(1,3) tA t(2) [symmetric] l] load by simp
  moreover have "potential A (rbPerNode ?st r) \<le> potential A (rbPerNode st r)" for r
    using potential_move [OF fin(1,3) tA t(2) [symmetric] p(1)] p(2) [of r] t(3) by (cases "r = service") simp_all
  moreover have "loadOf (rbLoad ?st) n = loadOf (rbLoad st) n + netLoad [(i, source, t)] n" for n
    unfolding l netLoad_def using t(2) by simp
  ultimately show ?thesis unfolding moved_def using m cap t(1,2) by (intro exI [of _ "[(i, source, t)]"]) auto
qed

lemma moved_moveInstance:
  assumes "finite A" "cnId ` set (riCandidates inp) \<subseteq> A" "source \<in> A"
  shows "moved inp A [(i, source)] st (moveInstance inp source i st)"
proof (cases "moveInstance inp source i st = st")
  case True
  then show ?thesis by (simp add: moved_none)
next
  case False
  then obtain info where info: "map_of (riInstances inp) i = Some info" and cap: "length (rbMoves st) < maxRebalanceMovesPerCycle"
    unfolding moveInstance_def by (auto split: if_splits option.splits)
  define t where "t = selectRebalanceTarget (siService info) source (riCandidates inp) (rbLoad st)
                              (rbPerNode st (siService info)) (riConstraints inp)"
  have eq: "moveInstance inp source i st =
      (if t = [] \<or> loadOf (rbLoad st) t \<ge> loadOf (rbLoad st) source - 1 then st else recordMove i (siService info) source t st)"
    using info cap by (simp add: moveInstance_def t_def Let_def)
  with False have c: "t \<noteq> []" "loadOf (rbLoad st) t < loadOf (rbLoad st) source - 1" by (auto split: if_splits)
  with eq have "moveInstance inp source i st = recordMove i (siService info) source t st" by auto
  then show ?thesis
    using moved_recordMove [OF assms cap selectRebalanceTarget_sound [OF t_def [symmetric] c(1)] c(2)] by simp
qed

lemma moved_moveFromNode:
  assumes "finite A" "cnId ` set (riCandidates inp) \<subseteq> A" "source \<in> A"
  shows "moved inp A (map (\<lambda>i. (i, source)) (findMovableInstances inp source)) st (moveFromNode inp source st)"
proof -
  have "moved inp A (map (\<lambda>i. (i, source)) is) st (fold (moveInstance inp source) is st)" for "is" st
  proof (induction "is" arbitrary: st)
    case (Cons i "is")
    from moved_trans [OF moved_moveInstance [OF assms, of i st] Cons.IH] show ?case by simp
  qed (simp add: moved_none)
  then show ?thesis by (simp add: moveFromNode_def moved_none)
qed

definition movablePairs :: "rebalanceInput \<Rightarrow> string list \<Rightarrow> (string \<times> string) list" where
  "movablePairs inp ss = concat (map (\<lambda>s. map (\<lambda>i. (i, s)) (findMovableInstances inp s)) ss)"

lemma moved_rebalanceMoves:
  assumes "finite A" "cnId ` set (riCandidates inp) \<subseteq> A" "set ss \<subseteq> A"
  shows "moved inp A (movablePairs inp ss)
    \<lparr>rbLoad = load, rbPerNode = countServiceInstancesPerNode (riPlacements inp) (riInstances inp), rbMoves = []\<rparr>
    (rebalanceMoves inp ss load)"
proof -
  have "moved inp A (movablePairs inp ss) st (fold (moveFromNode inp) ss st)" for st using assms(3)
  proof (induction ss arbitrary: st)
    case (Cons s ss)
    then have "s \<in> A" "set ss \<subseteq> A" by simp_all
    from moved_trans [OF moved_moveFromNode [OF assms(1,2) this(1)] Cons.IH [OF this(2)]]
    show ?case by (simp add: movablePairs_def)
  qed (simp add: moved_none)
  then show ?thesis unfolding rebalanceMoves_def .
qed

subsection \<open>Which instances move\<close>

lemma findMovable_iff: "i \<in> set (findMovableInstances inp s) \<longleftrightarrow> (i, s) \<in> set (riPlacements inp) \<and> isMovable inp s (i, s)"
  by (force simp: findMovableInstances_def isMovable_def)

lemma findMovable_distinct:
  "distinct (map fst (riPlacements inp)) \<Longrightarrow> distinct (findMovableInstances inp s)"
  by (simp add: findMovableInstances_def distinct_map_filter)

lemma movablePairs_iff: "(i, s) \<in> set (movablePairs inp ss) \<longleftrightarrow> s \<in> set ss \<and> (i, s) \<in> set (riPlacements inp) \<and> isMovable inp s (i, s)"
  by (auto simp: movablePairs_def findMovable_iff image_iff)

lemma movablePairs_distinct:
  assumes d: "distinct (map fst (riPlacements inp))" and "distinct ss"
  shows "distinct (map fst (movablePairs inp ss))"
  using assms(2)
proof (induction ss)
  case (Cons s ss)
  have "set (findMovableInstances inp s) \<inter> fst ` set (movablePairs inp ss) = {}"
  proof (rule ccontr)
    assume "set (findMovableInstances inp s) \<inter> fst ` set (movablePairs inp ss) \<noteq> {}"
    then obtain i r where "i \<in> set (findMovableInstances inp s)" "(i, r) \<in> set (movablePairs inp ss)" by auto
    then have "(i, s) \<in> set (riPlacements inp)" "(i, r) \<in> set (riPlacements inp)" "r \<in> set ss"
      by (simp_all add: findMovable_iff movablePairs_iff)
    then have "s = r" using d eq_key_imp_eq_value by fast
    with \<open>r \<in> set ss\<close> Cons.prems show False by simp
  qed
  moreover have "movablePairs inp (s # ss) = map (\<lambda>i. (i, s)) (findMovableInstances inp s) @ movablePairs inp ss"
    by (simp add: movablePairs_def)
  ultimately show ?case using Cons findMovable_distinct [OF d] by (simp add: comp_def)
qed (simp add: movablePairs_def)

subsection \<open>The placements after a cycle\<close>

definition applyMoves :: "(string \<times> string \<times> string) list \<Rightarrow> placementMap \<Rightarrow> placementMap" where
  "applyMoves mvs placements = fold (\<lambda>(i, s, t) p. AList.update i t p) mvs placements"

lemma runLoad_Cons:
  "runLoad instances ((i, m) # p) n = (if m = n \<and> isActive instances i then 1 else 0) + runLoad instances p n"
  by (simp add: runLoad_def)

lemma runLoad_update:
  assumes "distinct (map fst p)" and "(i, s) \<in> set p" and "isActive instances i"
  shows "runLoad instances (AList.update i t p) n =
    runLoad instances p n + (if t = n then 1 else 0) - (if s = n then 1 else 0)"
  using assms
proof (induction p)
  case (Cons q p)
  show ?case
  proof (cases "fst q = i")
    case True
    then have "q = (i, s)" using Cons.prems(1,2) by (cases q) force
    with Cons.prems(3) show ?thesis by (simp add: runLoad_Cons)
  next
    case False
    with Cons.prems have "runLoad instances (AList.update i t p) n =
        runLoad instances p n + (if t = n then 1 else 0) - (if s = n then 1 else 0)" by (intro Cons.IH) auto
    with False show ?thesis by (cases q) (simp add: runLoad_Cons)
  qed
qed simp

lemma applyMoves_load:
  assumes "distinct (map fst p)" and "distinct (map fst mvs)"
    and "\<And>i s t. (i, s, t) \<in> set mvs \<Longrightarrow> (i, s) \<in> set p \<and> isActive instances i"
  shows "runLoad instances (applyMoves mvs p) n = runLoad instances p n + netLoad mvs n \<and>
    distinct (map fst (applyMoves mvs p))"
  using assms
proof (induction mvs arbitrary: p)
  case (Cons mv mvs)
  obtain i s t where mv: "mv = (i, s, t)" by (metis prod.exhaust)
  have i: "(i, s) \<in> set p" "isActive instances i" using Cons.prems(3) mv by auto
  have keep: "(j, r) \<in> set (AList.update i t p) \<and> isActive instances j" if "(j, r, u) \<in> set mvs" for j r u
  proof -
    have "j \<noteq> i" using Cons.prems(2) mv that by force
    moreover have "(j, r) \<in> set p" "isActive instances j" using Cons.prems(3) that by auto
    moreover have "map_of (AList.update i t p) j = map_of p j" using \<open>j \<noteq> i\<close> by (simp add: update_conv)
    ultimately show ?thesis using Cons.prems(1) by (metis map_of_SomeD map_of_is_SomeI)
  qed
  have "distinct (map fst (AList.update i t p))" by (rule distinct_update [OF Cons.prems(1)])
  moreover have "distinct (map fst mvs)" using Cons.prems(2) by simp
  ultimately have "runLoad instances (applyMoves mvs (AList.update i t p)) n =
      runLoad instances (AList.update i t p) n + netLoad mvs n \<and> distinct (map fst (applyMoves mvs (AList.update i t p)))"
    by (rule Cons.IH) (use keep in blast)
  moreover have "applyMoves (mv # mvs) p = applyMoves mvs (AList.update i t p)" by (simp add: applyMoves_def mv)
  ultimately show ?case using runLoad_update [OF Cons.prems(1) i] by (simp add: mv netLoad_def)
qed (simp add: applyMoves_def netLoad_def)

text \<open>\<open>sort.Slice\<close> permutes its argument.\<close>

definition permutes :: "sortSlice \<Rightarrow> bool" where
  "permutes slice \<longleftrightarrow> (\<forall>r xs. mset (slice r xs) = mset xs)"

lemma rebalanceInputOf_simps [simp]:
  "riPlacements (rebalanceInputOf nodes instances placements resources constraints g placed pinned) = placements"
  "riInstances (rebalanceInputOf nodes instances placements resources constraints g placed pinned) = instances"
  "riConstraints (rebalanceInputOf nodes instances placements resources constraints g placed pinned) = constraints"
  "riGroups (rebalanceInputOf nodes instances placements resources constraints g placed pinned) = g"
  "riPlaced (rebalanceInputOf nodes instances placements resources constraints g placed pinned) = placed"
  "riPinned (rebalanceInputOf nodes instances placements resources constraints g placed pinned) = pinned"
  by (simp_all add: rebalanceInputOf_def split: prod.splits)

lemma rebalanceInputOf_candidates:
  "cnId ` set (riCandidates (rebalanceInputOf nodes instances placements resources constraints g placed pinned)) =
     set (collectAliveNodeIDs nodes)"
proof -
  have "cnId ` candidateOf u v ` X = snId ` X" for u v X by (simp add: image_image candidateOf_def)
  then show ?thesis
    by (simp add: rebalanceInputOf_def buildAliveCandidateNodes_def collectAliveNodeIDs_def split: prod.splits)
qed

definition safeMoves :: "nodeMap \<Rightarrow> rebalanceInput \<Rightarrow> (string \<times> string \<times> string) list \<Rightarrow> bool" where
  "safeMoves nodes inp mvs \<longleftrightarrow>
     length mvs \<le> maxRebalanceMovesPerCycle \<and> distinct (map fst mvs) \<and>
     (\<forall>(i, s, t)\<in>set mvs. (i, s) \<in> set (riPlacements inp) \<and> isMovable inp s (i, s) \<and>
        s \<in> set (collectAliveNodeIDs nodes) \<and> t \<in> set (collectAliveNodeIDs nodes) \<and> s \<noteq> t)"

lemma planRebalance_sound:
  fixes nodes instances p resources constraints g placed pinned
  defines "inp \<equiv> rebalanceInputOf nodes instances p resources constraints g placed pinned"
    and "A \<equiv> set (collectAliveNodeIDs nodes)"
  assumes ok: "nodesOk nodes" and d: "distinct (map fst p)" and slice: "permutes slice"
    and plan: "planRebalance slice nodes inp = Some st"
  shows "safeMoves nodes inp (rbMoves st)"
    "potential A (runLoad instances (applyMoves (rbMoves st) p)) + 2 * int (length (rbMoves st)) \<le> potential A (runLoad instances p)"
    "distinct (map fst (applyMoves (rbMoves st) p))"
    "potential A (rbPerNode st s) \<le> potential A (countServiceInstancesPerNode p instances s)"
proof -
  let ?alive = "collectAliveNodeIDs nodes"
  define load where "load = computeRunningLoadPerNode p instances ?alive"
  obtain ideal where st: "st = rebalanceMoves inp (findOverloadedNodes slice load ?alive ideal) load"
    using plan by (auto simp: planRebalance_def load_def inp_def Let_def split: if_splits prod.splits)
  let ?ss = "findOverloadedNodes slice load ?alive ideal"
  have ms: "mset ?ss = mset (filter (\<lambda>n. loadOf load n > ideal + 1) ?alive)"
    using slice by (simp add: findOverloadedNodes_def permutes_def)
  have sub: "set ?ss \<subseteq> A" using mset_eq_setD [OF ms] by (auto simp: A_def)
  have "map snId (map snd nodes) = map fst nodes" using ok by (auto simp: nodesOk_def)
  then have "distinct (map snId (map snd nodes))" using ok unfolding nodesOk_def by metis
  then have "distinct ?alive" unfolding collectAliveNodeIDs_def by (simp only: distinct_sort distinct_map_filter)
  then have ds: "distinct ?ss" using mset_eq_imp_distinct_iff [OF ms] by simp
  have cand: "cnId ` set (riCandidates inp) \<subseteq> A" by (simp add: inp_def A_def rebalanceInputOf_candidates)
  from moved_rebalanceMoves [OF _ cand sub, of load] obtain new where new: "rbMoves st = new"
    "subseq (map (\<lambda>(i, s, t). (i, s)) new) (movablePairs inp ?ss)" "length new \<le> maxRebalanceMovesPerCycle"
    "\<forall>(i, s, t)\<in>set new. t \<in> cnId ` set (riCandidates inp) \<and> s \<noteq> t"
    "\<forall>n. loadOf (rbLoad st) n = loadOf load n + netLoad new n"
    "potential A (loadOf (rbLoad st)) + 2 * int (length new) \<le> potential A (loadOf load)"
    "\<forall>service. potential A (rbPerNode st service) \<le> potential A (countServiceInstancesPerNode p instances service)"
    unfolding st moved_def by (auto simp: A_def inp_def)
  have pd: "distinct (map fst (movablePairs inp ?ss))" using d ds by (intro movablePairs_distinct) (simp_all add: inp_def)
  have "map fst new = map fst (map (\<lambda>(i, s, t). (i, s)) new)" by (simp add: comp_def case_prod_beta)
  moreover have "subseq (map fst (map (\<lambda>(i, s, t). (i, s)) new)) (map fst (movablePairs inp ?ss))"
    by (rule subseq_map [OF new(2)])
  ultimately have nd: "distinct (map fst new)" using pd by (metis in_set_subseqs subseqs_distinctD)
  have mv: "(i, s) \<in> set p \<and> isMovable inp s (i, s) \<and> s \<in> A" if "(i, s, t) \<in> set new" for i s t
  proof -
    have "(i, s) \<in> set (map (\<lambda>(i, s, t). (i, s)) new)" using that by force
    then have "(i, s) \<in> set (movablePairs inp ?ss)" using list_emb_set [OF new(2)] by metis
    then show ?thesis using sub by (auto simp: movablePairs_iff inp_def)
  qed
  show "safeMoves nodes inp (rbMoves st)"
    unfolding safeMoves_def using new(1,3,4) nd mv cand by (fastforce simp: A_def inp_def)
  have act: "(i, s) \<in> set p \<and> isActive instances i" if "(i, s, t) \<in> set new" for i s t
    using mv [OF that] by (auto simp: isMovable_def isActive_def inp_def split: option.splits)
  note am = applyMoves_load [OF d nd act]
  have "runLoad instances (applyMoves new p) = loadOf (rbLoad st)"
    using am new(5) by (auto simp: fun_eq_iff load_def loadOf_computeRunningLoad)
  moreover have "loadOf load = runLoad instances p" by (auto simp: fun_eq_iff load_def loadOf_computeRunningLoad)
  ultimately show "potential A (runLoad instances (applyMoves (rbMoves st) p)) + 2 * int (length (rbMoves st)) \<le> potential A (runLoad instances p)"
    using new(1,6) by simp
  show "distinct (map fst (applyMoves (rbMoves st) p))" using am new(1) by simp
  show "potential A (rbPerNode st s) \<le> potential A (countServiceInstancesPerNode p instances s)" using new(7) by simp
qed

subsection \<open>Cycles of rebalancing\<close>

text \<open>One cycle when its moves are applied and nothing else changes.\<close>

definition rebalanceCycle :: "sortSlice \<Rightarrow> nodeMap \<Rightarrow> instanceMap \<Rightarrow> resourceMap \<Rightarrow> constraintMap \<Rightarrow> (string \<rightharpoonup> string) \<Rightarrow>
    string list \<Rightarrow> placementMap \<Rightarrow> placementMap" where
  "rebalanceCycle slice nodes instances resources constraints g pinned p =
     (case planRebalance slice nodes (rebalanceInputOf nodes instances p resources constraints g [] pinned) of
        None \<Rightarrow> p
      | Some st \<Rightarrow> applyMoves (rbMoves st) p)"

lemma rebalanceCycle_step:
  fixes slice nodes instances resources constraints g pinned
  defines "F \<equiv> rebalanceCycle slice nodes instances resources constraints g pinned"
    and "P \<equiv> \<lambda>p. potential (set (collectAliveNodeIDs nodes)) (runLoad instances p)"
  assumes ok: "nodesOk nodes" and slice: "permutes slice" and d: "distinct (map fst p)"
  shows "distinct (map fst (F p))" "F p \<noteq> p \<Longrightarrow> P (F p) + 2 \<le> P p"
proof -
  let ?inp = "rebalanceInputOf nodes instances p resources constraints g [] pinned"
  have "distinct (map fst (F p)) \<and> (F p \<noteq> p \<longrightarrow> P (F p) + 2 \<le> P p)"
  proof (cases "planRebalance slice nodes ?inp")
    case None
    then show ?thesis using d by (simp add: F_def rebalanceCycle_def)
  next
    case (Some st)
    note s = planRebalance_sound [OF ok d slice Some]
    have F: "F p = applyMoves (rbMoves st) p" using Some by (simp add: F_def rebalanceCycle_def)
    have "rbMoves st \<noteq> []" if "F p \<noteq> p" using that by (auto simp: F applyMoves_def)
    then have "1 \<le> int (length (rbMoves st))" if "F p \<noteq> p" using that by (simp add: Suc_leI)
    with s(2,3) show ?thesis by (auto simp: F P_def)
  qed
  then show "distinct (map fst (F p))" "F p \<noteq> p \<Longrightarrow> P (F p) + 2 \<le> P p" by blast+
qed

lemma funpow_descends:
  fixes P :: "'a \<Rightarrow> int"
  assumes "I x" and "\<And>x. I x \<Longrightarrow> I (F x) \<and> 0 \<le> P x \<and> (F x \<noteq> x \<longrightarrow> P (F x) + 2 \<le> P x)"
  shows "\<exists>k. 2 * int k \<le> P x \<and> (F ^^ Suc k) x = (F ^^ k) x"
  using assms(1)
proof (induction "nat (P x)" arbitrary: x rule: less_induct)
  case less
  show ?case
  proof (cases "F x = x")
    case True
    then show ?thesis using assms(2) [OF less.prems] by (intro exI [of _ 0]) simp
  next
    case False
    then have dec: "P (F x) + 2 \<le> P x" "I (F x)" "0 \<le> P (F x)" using assms(2) less.prems by blast+
    then have "nat (P (F x)) < nat (P x)" by simp
    from less.hyps [OF this dec(2)] obtain k where "2 * int k \<le> P (F x)" "(F ^^ Suc k) (F x) = (F ^^ k) (F x)" by blast
    with dec(1) show ?thesis by (intro exI [of _ "Suc k"]) (simp add: funpow_swap1)
  qed
qed

subsection \<open>Keys of the changes of a cycle\<close>

definition putKeys :: "Change list \<Rightarrow> string set" where
  "putKeys cs = {k. \<exists>c\<in>set cs. chType c = OpPut \<and> chKey c = k}"

lemma putKeys_append [simp]: "putKeys (cs @ ds) = putKeys cs \<union> putKeys ds"
  by (auto simp: putKeys_def)

lemma putKeys_changesOf:
  "putKeys (changesOf ps) = KeyPlacementInstance ` fst ` set ps \<union> (\<lambda>(i, n). KeyPlacementNodeInstance n i) ` set ps"
  by (force simp: putKeys_def changesOf_def placementChanges_def)

lemma putKeys_preempt:
  "putKeys (attemptPreemptions u pl nodes instances p ks pr sf) \<subseteq> range KeyDerivedInstanceControllerStopped"
  by (auto simp: putKeys_def attemptPreemptions_def Let_def)

lemma putKeys_emit:
  "putKeys (emitUnplacedDemandFacts marshal u pl nodes instances res ks) =
     (\<Union>i\<in>set u - set pl. {KeyDerivedSchedulerUnplacedReason i, KeyDerivedSchedulerUnplacedRequirements i})"
  by (force simp: putKeys_def emitUnplacedDemandFacts_def buildUnplacedFactChanges_def Let_def)

lemma putKeys_cleanup: "putKeys (cleanupStaleUnplacedFacts fs p pl) = {}"
  by (auto simp: putKeys_def cleanupStaleUnplacedFacts_def)

lemma putKeys_rebalance:
  assumes "nodesOk nodes" and "distinct (map fst p)" and "permutes slice"
    and "k \<in> putKeys (rebalancePlacedInstances slice nodes instances p res ks g pl pinned)"
  obtains i n info where "k = KeyPlacementInstance i \<or> k = KeyPlacementNodeInstance n i"
    "map_of instances i = Some info" "siState info = InstanceRunning"
proof (cases "planRebalance slice nodes (rebalanceInputOf nodes instances p res ks g pl pinned)")
  case None
  with assms(4) show thesis by (simp add: rebalancePlacedInstances_def putKeys_def)
next
  case (Some st)
  note safe = planRebalance_sound(1) [OF assms(1-3) Some]
  from assms(4) Some obtain i s t where mv: "(i, s, t) \<in> set (rbMoves st)"
    "k = KeyPlacementInstance i \<or> k = KeyPlacementNodeInstance t i"
    by (auto simp: rebalancePlacedInstances_def putKeys_def buildRebalanceMoveChanges_def Let_def)
  from safe mv(1) have "isMovable (rebalanceInputOf nodes instances p res ks g pl pinned) s (i, s)"
    unfolding safeMoves_def by blast
  then show thesis using that [OF mv(2)] by (auto simp: isMovable_def split: option.splits)
qed

lemma placement_keys:
  "KeyPlacementInstance i \<noteq> KeyPlacementNodeInstance n j"
  "KeyPlacementInstance i = KeyPlacementInstance j \<longleftrightarrow> i = j"
  "KeyPlacementInstance i \<noteq> KeyDerivedInstanceControllerStopped j"
  "KeyPlacementInstance i \<noteq> KeyDerivedSchedulerUnplacedReason j"
  "KeyPlacementInstance i \<noteq> KeyDerivedSchedulerUnplacedRequirements j"
  by (simp_all add: key_defs)

lemma reason_keys:
  "KeyDerivedSchedulerUnplacedReason i = KeyDerivedSchedulerUnplacedReason j \<longleftrightarrow> i = j"
  "KeyDerivedSchedulerUnplacedReason i \<noteq> KeyPlacementInstance j"
  "KeyDerivedSchedulerUnplacedReason i \<noteq> KeyPlacementNodeInstance n j"
  "KeyDerivedSchedulerUnplacedReason i \<noteq> KeyDerivedInstanceControllerStopped j"
  "KeyDerivedSchedulerUnplacedReason i \<noteq> KeyDerivedSchedulerUnplacedRequirements j"
proof -
  have "last (KeyDerivedSchedulerUnplacedReason i) \<noteq> last (KeyDerivedSchedulerUnplacedRequirements j)"
    by (simp add: key_defs)
  then show "KeyDerivedSchedulerUnplacedReason i \<noteq> KeyDerivedSchedulerUnplacedRequirements j" by metis
qed (simp_all add: key_defs)

subsection \<open>The placement changes of a cycle\<close>

lemma placeBatchLoop_fst: "set (map fst (fst (placeBatchLoop b is c st))) \<subseteq> set is"
proof (induction "is" arbitrary: c st)
  case (Cons i "is")
  have "fst (placeBatchLoop b (i # is) c st) = [] \<or>
      (\<exists>n c' st'. fst (placeBatchLoop b (i # is) c st) = (i, n) # fst (placeBatchLoop b is c' st'))"
    by (auto simp: Let_def case_prod_beta)
  then show ?case
  proof (elim disjE exE)
    fix n c' st' assume "fst (placeBatchLoop b (i # is) c st) = (i, n) # fst (placeBatchLoop b is c' st')"
    with Cons.IH [of c' st'] show ?thesis by auto
  qed simp
qed simp

definition changesWithin :: "string list \<Rightarrow> Change list \<Rightarrow> bool" where
  "changesWithin is cs \<longleftrightarrow> (\<exists>ps. cs = changesOf ps \<and> fst ` set ps \<subseteq> set is)"

lemma changesWithin_append: "changesWithin is cs \<Longrightarrow> changesWithin is ds \<Longrightarrow> changesWithin is (cs @ ds)"
  unfolding changesWithin_def by (metis changesOf_append le_supI image_Un set_append)

lemma changesWithin_Nil: "changesWithin is []"
  by (auto simp: changesWithin_def changesOf_def intro!: exI [of _ "[]"])

lemma changesWithin_mono: "changesWithin is cs \<Longrightarrow> set is \<subseteq> set js \<Longrightarrow> changesWithin js cs"
  by (auto simp: changesWithin_def)

lemma changesWithin_batch: "changesWithin is (fst (placeBatchedInstances s is st))"
proof -
  let ?b = "batchOf s st"
  have "fst (placeBatchedInstances s is st) = changesOf (fst (placeBatchLoop ?b is (batchCache ?b st) st))"
    by (simp add: placeBatchedInstances_def changesOf_def Let_def case_prod_beta)
  with placeBatchLoop_fst [of ?b "is"] show ?thesis unfolding changesWithin_def by (metis image_set)
qed

lemma changesWithin_ungrouped: "changesWithin is (fst (placeUngroupedInstances is st))"
proof -
  let ?m = "groupInstancesByService is (psInstances st)"
  have "changesWithin is (fst (fold (placeServiceBatch ?m) ss p))"
    if "changesWithin is (fst p)" "set ss \<subseteq> set (map fst ?m)" for ss p
    using that
  proof (induction ss arbitrary: p)
    case (Cons s ss)
    have "the (map_of ?m s) = filter (\<lambda>i. instanceService (psInstances st) i = s) is"
      using Cons.prems(2) by (intro groupInstancesByService_the) simp
    then have "changesWithin is (fst (placeBatchedInstances s (the (map_of ?m s)) (snd p)))"
      by (intro changesWithin_mono [OF changesWithin_batch]) auto
    then have "changesWithin is (fst (placeServiceBatch ?m s p))" using Cons.prems(1)
      by (cases p) (auto simp: placeServiceBatch_def intro: changesWithin_append split: prod.splits)
    with Cons show ?case by simp
  qed simp
  then show ?thesis by (simp add: placeUngroupedInstances_def Let_def sortedServiceNames_def changesWithin_Nil)
qed

lemma placeOneGroup_changes: "changesWithin is (fst (placeOneGroup g is st))"
proof -
  have "changesOf (map (\<lambda>i. (i, t)) is) = concat (map (\<lambda>i. placementChanges i t) is)" for t
    by (simp add: changesOf_def comp_def)
  then have "fst (placeOneGroup g is st) = changesOf (if groupTarget g is st = [] then [] else map (\<lambda>i. (i, groupTarget g is st)) is)"
    by (simp add: placeOneGroup_def Let_def) (simp add: changesOf_def)
  then show ?thesis unfolding changesWithin_def by (intro exI conjI) (auto split: if_splits)
qed

lemma changesWithin_grouped:
  assumes "\<And>g l. map_of grouped g = Some l \<Longrightarrow> set l \<subseteq> set is"
  shows "changesWithin is (fst (placeGroupedInstances grouped st))"
proof -
  have "changesWithin is (fst (fold (placeGroupStep grouped) gs p))"
    if "changesWithin is (fst p)" "set gs \<subseteq> set (map fst grouped)" for gs p
    using that
  proof (induction gs arbitrary: p)
    case (Cons g gs)
    obtain l where l: "map_of grouped g = Some l" using Cons.prems(2) by (metis list.set_intros(1) map_of_eq_None_iff
          not_None_eq image_set subsetD)
    obtain cs1 st1 where run: "placeOneGroup g l (snd p) = (cs1, st1)" by (metis prod.exhaust)
    have "changesWithin is cs1"
      using changesWithin_mono [OF placeOneGroup_changes [of l g "snd p"]] assms [OF l] run by simp
    then have "changesWithin is (fst p @ cs1)" using Cons.prems(1) by (rule changesWithin_append [rotated])
    moreover have "placeGroupStep grouped g p = (fst p @ cs1, st1)" using l run by (cases p) (simp add: placeGroupStep_def)
    ultimately show ?case using Cons.IH [of "(fst p @ cs1, st1)"] Cons.prems(2) by simp
  qed simp
  then show ?thesis by (simp add: placeGroupedInstances_def changesWithin_Nil)
qed

lemma partition_within:
  "(\<forall>g l. map_of (fst (partitionUnplacedByGroup u instances sg)) g = Some l \<longrightarrow> set l \<subseteq> set u) \<and>
   set (snd (partitionUnplacedByGroup u instances sg)) \<subseteq> set u"
proof -
  show ?thesis unfolding partitionUnplacedByGroup_def
  proof (rule List.fold_invariant [where Q = "\<lambda>i. i \<in> set u" and
        P = "\<lambda>p. (\<forall>g l. map_of (fst p) g = Some l \<longrightarrow> set l \<subseteq> set u) \<and> set (snd p) \<subseteq> set u"])
    fix i and p :: "(string \<times> string list) list \<times> string list"
    assume i: "i \<in> set u" and p: "(\<forall>g l. map_of (fst p) g = Some l \<longrightarrow> set l \<subseteq> set u) \<and> set (snd p) \<subseteq> set u"
    obtain gs us where pe: "p = (gs, us)" by (cases p)
    have "set (case map_of gs g of None \<Rightarrow> [] | Some is \<Rightarrow> is) \<subseteq> set u" for g
      using p by (cases "map_of gs g") (simp_all add: pe)
    with i p show "(\<forall>g l. map_of (fst (partitionStep instances sg i p)) g = Some l \<longrightarrow> set l \<subseteq> set u) \<and>
        set (snd (partitionStep instances sg i p)) \<subseteq> set u"
      by (auto simp: partitionStep_def pe update_conv split: option.splits if_splits)
  qed simp_all
qed

lemma changesWithin_attempt:
  "changesWithin u (attemptPlacements u nodes instances p res ks sg)"
proof -
  define st where "st = initialPlacementState nodes instances p res ks sg"
  obtain gs us where part: "partitionUnplacedByGroup u instances sg = (gs, us)" by (cases "partitionUnplacedByGroup u instances sg")
  obtain cs1 st1 where one: "placeGroupedInstances gs st = (cs1, st1)" by (cases "placeGroupedInstances gs st")
  obtain cs2 st2 where two: "placeUngroupedInstances us st1 = (cs2, st2)" by (cases "placeUngroupedInstances us st1")
  note w = partition_within [of u instances sg, unfolded part fst_conv snd_conv]
  have "changesWithin u cs1" using changesWithin_grouped [of gs u st] w one by simp
  moreover have "changesWithin u cs2" using changesWithin_mono [OF changesWithin_ungrouped [of us st1]] w two by simp
  ultimately show ?thesis
    by (simp add: attemptPlacements_def st_def [symmetric] part one two Let_def changesWithin_Nil changesWithin_append)
qed

lemma collectPlaced_iff:
  "i \<in> set (collectPlacedInstanceIDs cs) \<longleftrightarrow> slash \<notin> set i \<and> KeyPlacementInstance i \<in> putKeys cs"
proof -
  define step where "step = (\<lambda>(c :: Change) placed.
             if chType c = OpPut \<and> HasPrefix (chKey c) ScanPlacements
             then (let instanceID = TrimPrefix (chKey c) ScanPlacements
                   in if \<not> Contains instanceID ''/'' then List.insert instanceID placed else placed)
             else placed)"
  have key: "KeyPlacementInstance i = ScanPlacements @ i" by (simp add: key_defs scan_defs)
  have step: "i \<in> set (step c placed) \<longleftrightarrow> i \<in> set placed \<or> (slash \<notin> set i \<and> chType c = OpPut \<and> chKey c = KeyPlacementInstance i)"
    for c placed
    unfolding key step_def by (auto simp: Let_def TrimPrefix_def Contains_single prefix_def)
  have "i \<in> set (fold step cs placed) \<longleftrightarrow> i \<in> set placed \<or> (slash \<notin> set i \<and> KeyPlacementInstance i \<in> putKeys cs)" for placed
    by (induction cs arbitrary: placed) (auto simp: step putKeys_def)
  then show ?thesis by (simp add: collectPlacedInstanceIDs_def step_def)
qed

lemma SplitN_first: "SplitN s c (Suc (Suc n)) = a # rest \<Longrightarrow> c \<notin> set a \<or> rest = []"
  by (auto split: list.splits dest: set_takeWhileD)

lemma extractInstance_ids: "i \<in> fst ` set (extractInstanceInfoFromFacts fs) \<Longrightarrow> slash \<notin> set i"
proof -
  have "\<forall>i\<in>fst ` set (extractInstanceInfoFromFacts fs). slash \<notin> set i"
    unfolding extractInstanceInfoFromFacts_def
  proof (rule fold_invariant [where P = "\<lambda>m. \<forall>i\<in>fst ` set m. slash \<notin> set i"])
    fix f :: Fact and m :: instanceMap assume m: "\<forall>i\<in>fst ` set m. slash \<notin> set i"
    show "\<forall>i\<in>fst ` set (case factParts ScanObservedInstances 2 f of
             [instanceID, field] \<Rightarrow>
               AList.update instanceID
                 (applyInstanceField field (Value f)
                    (case map_of m instanceID of None \<Rightarrow> zeroInstanceInfo | Some info \<Rightarrow> info)) m
           | _ \<Rightarrow> m). slash \<notin> set i"
    proof (cases "\<exists>a b. factParts ScanObservedInstances 2 f = [a, b]")
      case True
      then obtain a b where ab: "factParts ScanObservedInstances 2 f = [a, b]" by blast
      then have "slash \<notin> set a" using SplitN_first [of _ slash 0 a "[b]"] by (simp add: factParts_def numeral_2_eq_2)
      with m ab show ?thesis by (simp add: dom_update)
    qed (use m in \<open>auto split: list.splits\<close>)
  qed simp
  then show "i \<in> fst ` set (extractInstanceInfoFromFacts fs) \<Longrightarrow> slash \<notin> set i" by blast
qed

lemma unplaced_pending:
  assumes "i \<in> set (findUnplacedPendingInstances (markInstancesStillStarting (extractInstanceInfoFromFacts fs) sp) p)"
  shows "slash \<notin> set i"
    "\<exists>info. map_of (markInstancesStillStarting (extractInstanceInfoFromFacts fs) sp) i = Some info \<and> siState info = InstancePending"
proof -
  let ?m = "markInstancesStillStarting (extractInstanceInfoFromFacts fs) sp"
  have fst: "map fst ?m = map fst (extractInstanceInfoFromFacts fs)" by (auto simp: markInstancesStillStarting_def)
  from assms obtain info where info: "(i, info) \<in> set ?m" "siState info = InstancePending"
    by (auto simp: findUnplacedPendingInstances_def)
  have "i \<in> set (map fst ?m)" using info(1) by force
  then show "slash \<notin> set i" using extractInstance_ids [of i fs] by (metis fst image_set)
  have "distinct (map fst ?m)" using extractInstanceInfo_distinct [of fs] unfolding fst .
  then show "\<exists>info. map_of ?m i = Some info \<and> siState info = InstancePending"
    using info by (intro exI [of _ info]) (simp add: map_of_is_SomeI)
qed

subsection \<open>Victims\<close>

definition lawfulVictim :: "string list \<Rightarrow> nodeMap \<Rightarrow> instanceMap \<Rightarrow> placementMap \<Rightarrow> constraintMap \<Rightarrow> (string \<Rightarrow> int) \<Rightarrow> string list \<Rightarrow>
    string \<Rightarrow> bool" where
  "lawfulVictim requesters nodes instances placements constraints priorities stateful v \<longleftrightarrow>
     (\<exists>n node info r rinfo. (v, n) \<in> set placements \<and> map_of nodes n = Some node \<and> snState node = NodeAlive \<and>
        map_of instances v = Some info \<and> siState info = InstanceRunning \<and> siService info \<notin> set stateful \<and>
        (\<forall>k. constraints (siService info) = Some k \<longrightarrow> spMode k \<noteq> ''per-node'') \<and>
        r \<in> set requesters \<and> map_of instances r = Some rinfo \<and>
        priorities (siService info) < priorities (siService rinfo))"

lemma findPreemptionVictim_sound:
  assumes "findPreemptionVictim s pr nodes instances placements priorities constraints stateful preempted = (v, n)" and "v \<noteq> []"
  shows "(v, n) \<in> set placements" "isVictim s pr nodes instances priorities constraints stateful preempted (v, n)"
proof -
  have "(v, n) \<in> set (filter (isVictim s pr nodes instances priorities constraints stateful preempted) placements)"
    using assms unfolding findPreemptionVictim_def
    by (metis (no_types, lifting) list.set_intros(1) list.simps(4,5) neq_Nil_conv prod.inject set_sort)
  then show "(v, n) \<in> set placements" "isVictim s pr nodes instances priorities constraints stateful preempted (v, n)" by simp_all
qed

lemma preemptLoop_sound:
  assumes "length pre \<le> maxPreemptionsPerCycle"
  shows "length pre + length (preemptLoop nodes instances placements constraints priorities stateful rs pre) \<le> maxPreemptionsPerCycle \<and>
    distinct (preemptLoop nodes instances placements constraints priorities stateful rs pre) \<and>
    set (preemptLoop nodes instances placements constraints priorities stateful rs pre) \<inter> set pre = {} \<and>
    (\<forall>v\<in>set (preemptLoop nodes instances placements constraints priorities stateful rs pre).
       lawfulVictim rs nodes instances placements constraints priorities stateful v)"
  using assms
proof (induction rs arbitrary: pre)
  case (Cons r rs)
  let ?L = "\<lambda>rs pre. preemptLoop nodes instances placements constraints priorities stateful rs pre"
  let ?law = "\<lambda>rs. lawfulVictim rs nodes instances placements constraints priorities stateful"
  have mono: "?law (r # rs) v" if "?law rs v" for v using that unfolding lawfulVictim_def by (metis list.set_intros(2))
  show ?case
  proof (cases "length pre \<ge> maxPreemptionsPerCycle \<or> map_of instances r = None")
    case True
    with Cons.IH [OF Cons.prems] Cons.prems mono show ?thesis by auto
  next
    case False
    then obtain info where info: "map_of instances r = Some info" and len: "length pre < maxPreemptionsPerCycle" by auto
    obtain v n where vn: "findPreemptionVictim (siService info) (priorities (siService info)) nodes instances placements
        priorities constraints stateful pre = (v, n)" by (metis prod.exhaust)
    show ?thesis
    proof (cases "priorities (siService info) = 0 \<or> v = []")
      case True
      then have "?L (r # rs) pre = ?L rs pre" using info len vn by simp
      with Cons.IH [OF Cons.prems] mono show ?thesis by simp
    next
      case False
      then have eq: "?L (r # rs) pre = v # ?L rs (v # pre)" using info len vn by simp
      note v = findPreemptionVictim_sound [OF vn]
      have "?law (r # rs) v" "v \<notin> set pre"
        using v False info by (auto simp: isVictim_def lawfulVictim_def split: option.splits) fastforce+
      with Cons.IH [of "v # pre"] len mono show ?thesis unfolding eq by auto
    qed
  qed
qed simp

subsection \<open>Properties\<close>

text \<open>C25. Preemption is bounded and lawful. A cycle stops at most three instances, none twice. Each
  victim is running on an alive node, belongs to a service that is neither stateful nor per-node, and
  has a strictly lower priority than some pending instance that the cycle could not place.\<close>

theorem preemption_lawful:
  "\<exists>vs. attemptPreemptions unplaced placed nodes instances placements constraints priorities stateful =
       map (\<lambda>v. putChange [] (KeyDerivedInstanceControllerStopped v) ''true'') vs \<and>
     length vs \<le> maxPreemptionsPerCycle \<and> distinct vs \<and>
     list_all (lawfulVictim (filter (\<lambda>i. i \<notin> set placed) unplaced) nodes instances placements constraints priorities stateful) vs"
proof -
  let ?rs = "sort_key (\<lambda>i. (- priorities (instanceService instances i), i)) (filter (\<lambda>i. i \<notin> set placed) unplaced)"
  let ?vs = "preemptLoop nodes instances placements constraints priorities stateful ?rs []"
  have "lawfulVictim ?rs nodes instances placements constraints priorities stateful =
      lawfulVictim (filter (\<lambda>i. i \<notin> set placed) unplaced) nodes instances placements constraints priorities stateful"
    by (intro ext) (simp add: lawfulVictim_def)
  with preemptLoop_sound [of "[]" nodes instances placements constraints priorities stateful ?rs]
  have "length ?vs \<le> maxPreemptionsPerCycle \<and> distinct ?vs \<and>
     list_all (lawfulVictim (filter (\<lambda>i. i \<notin> set placed) unplaced) nodes instances placements constraints priorities stateful) ?vs"
    by (simp add: list_all_iff)
  moreover have "attemptPreemptions unplaced placed nodes instances placements constraints priorities stateful =
       map (\<lambda>v. putChange [] (KeyDerivedInstanceControllerStopped v) ''true'') ?vs" by (simp add: attemptPreemptions_def Let_def)
  ultimately show ?thesis by blast
qed


definition exampleCluster :: nodeMap where
  "exampleCluster = extractNodeInfoFromFacts exampleNodeFacts"

definition exampleInstances :: instanceMap where
  "exampleInstances = map (\<lambda>i. (i, exampleInstance ''web'' ''running'')) [''i1'', ''i2'', ''i3'', ''i4'']"

definition examplePlacements :: placementMap where
  "examplePlacements = map (\<lambda>i. (i, ''n1'')) [''i1'', ''i2'', ''i3'', ''i4'']"

definition rebalanceConstraint :: servicePlacementConstraint where
  "rebalanceConstraint = zeroConstraint\<lparr>spRebalance := True\<rparr>"

lemma exampleCluster_ok: "nodesOk exampleCluster" "permutes (\<lambda>r xs. xs)" "distinct (map fst examplePlacements)"
  by (simp_all add: exampleCluster_def extractNodeInfo_ok permutes_def examplePlacements_def)


text \<open>C19. Rebalancing comes to rest. When the moves of every cycle are applied and nothing else
  changes, a cycle that changes nothing is reached after at most half the initial sum of squared
  loads many cycles, whatever order the unstable sort leaves nodes of equal load in.\<close>

theorem rebalance_converges:
  assumes "permutes slice" and "nodesOk nodes" and "distinct (map fst placements)"
  shows "\<exists>k. 2 * int k \<le> potential (set (collectAliveNodeIDs nodes)) (runLoad instances placements) \<and>
    (rebalanceCycle slice nodes instances resources constraints g pinned ^^ Suc k) placements =
    (rebalanceCycle slice nodes instances resources constraints g pinned ^^ k) placements"
proof (rule funpow_descends [where I = "\<lambda>p. distinct (map fst p)" and x = placements])
  show "distinct (map fst placements)" by (rule assms(3))
next
  fix p :: placementMap assume "distinct (map fst p)"
  from rebalanceCycle_step [OF assms(2,1) this, of instances resources constraints g pinned]
  show "distinct (map fst (rebalanceCycle slice nodes instances resources constraints g pinned p)) \<and>
      0 \<le> potential (set (collectAliveNodeIDs nodes)) (runLoad instances p) \<and>
      (rebalanceCycle slice nodes instances resources constraints g pinned p \<noteq> p \<longrightarrow>
       potential (set (collectAliveNodeIDs nodes)) (runLoad instances (rebalanceCycle slice nodes instances resources constraints g pinned p)) + 2
         \<le> potential (set (collectAliveNodeIDs nodes)) (runLoad instances p))"
    by (simp add: potential_nonneg)
qed

theorem rebalance_converges_witness:
  "\<exists>k. 2 * int k \<le> potential (set (collectAliveNodeIDs exampleCluster)) (runLoad exampleInstances examplePlacements) \<and>
    (rebalanceCycle (\<lambda>r xs. xs) exampleCluster exampleInstances Map.empty [''web'' \<mapsto> rebalanceConstraint] Map.empty [] ^^ Suc k) examplePlacements =
    (rebalanceCycle (\<lambda>r xs. xs) exampleCluster exampleInstances Map.empty [''web'' \<mapsto> rebalanceConstraint] Map.empty [] ^^ k) examplePlacements"
  by (rule rebalance_converges [OF exampleCluster_ok(2,1,3)])

text \<open>The rebalancer can move an instance to a node that its service excludes. No alive node
  carries the required label, so the constraint filter returns every node, and two running instances
  are moved from one unsuitable node to another.\<close>

lemma rebalance_ignores_required_labels:
  "\<exists>cs. rebalancePlacedInstances (\<lambda>r xs. xs) exampleCluster exampleInstances examplePlacements Map.empty
       [''web'' \<mapsto> rebalanceConstraint\<lparr>spRequire := [(''disk'', ''ssd'')]\<rparr>] Map.empty [] [] = cs \<and>
     putChange ''rebalance/i1'' (KeyPlacementInstance ''i1'') ''n2'' \<in> set cs \<and>
     map_option (\<lambda>n. satisfiesRequireLabelsForNode n [(''disk'', ''ssd'')]) (map_of exampleCluster ''n2'') = Some False"
proof -
  have "putChange ''rebalance/i1'' (KeyPlacementInstance ''i1'') ''n2'' \<in> set
      (rebalancePlacedInstances (\<lambda>r xs. xs) exampleCluster exampleInstances examplePlacements Map.empty
       [''web'' \<mapsto> rebalanceConstraint\<lparr>spRequire := [(''disk'', ''ssd'')]\<rparr>] Map.empty [] [])" by code_simp
  moreover have "map_option (\<lambda>n. satisfiesRequireLabelsForNode n [(''disk'', ''ssd'')]) (map_of exampleCluster ''n2'') = Some False"
    by code_simp
  ultimately show ?thesis by blast
qed


text \<open>The answers of a sequence of cycles about deferring.\<close>

fun deferrals :: "(int \<times> placementMap \<times> string list) list \<Rightarrow> Scheduler \<Rightarrow> bool list" where
  "deferrals [] s = []"
| "deferrals ((now, p, u) # calls) s =
     (let (d, s') = shouldDeferInitialPlacement now p u s in d # deferrals calls s')"

lemma deferrals_from:
  assumes "firstPendingSeenAt s = Some t" and "list_all id (deferrals calls s)" and "calls \<noteq> []"
  shows "fst (last calls) - t < placementGracePeriod s"
  using assms
proof (induction calls)
  case (Cons c calls)
  obtain now p u where c: "c = (now, p, u)" by (metis prod.exhaust)
  have d: "shouldDeferInitialPlacement now p u s = (True, s)" "now - t < placementGracePeriod s"
    using Cons.prems(1,2) by (auto simp: c shouldDeferInitialPlacement_def Let_def split: if_splits)
  show ?case
  proof (cases "calls = []")
    case True
    with d(2) show ?thesis by (simp add: c)
  next
    case False
    with Cons.IH [OF Cons.prems(1) _ False] Cons.prems(2) d(1) show ?thesis by (simp add: c)
  qed
qed simp

text \<open>C27. The initial placement is not deferred for ever: while every cycle since a start without a
  recorded time defers, the time that has passed since the first of them is below the grace period, so
  the first cycle after the period places.\<close>

theorem grace_period_bounded:
  assumes "firstPendingSeenAt s = None" and "calls \<noteq> []" and "list_all id (deferrals calls s)"
  shows "fst (last calls) - fst (hd calls) < placementGracePeriod s"
proof -
  obtain now p u rest where c: "calls = (now, p, u) # rest" using assms(2) by (metis neq_Nil_conv prod.exhaust)
  have d: "shouldDeferInitialPlacement now p u s = (True, s\<lparr>firstPendingSeenAt := Some now\<rparr>)" "0 < placementGracePeriod s"
    using assms(1,3) by (auto simp: c shouldDeferInitialPlacement_def Let_def split: if_splits)
  show ?thesis
  proof (cases "rest = []")
    case True
    with d(2) show ?thesis by (simp add: c)
  next
    case False
    with deferrals_from [of "s\<lparr>firstPendingSeenAt := Some now\<rparr>" now rest] assms(3) d(1) show ?thesis by (simp add: c)
  qed
qed

theorem grace_period_bounded_witness:
  "deferrals [(5, [], [''i1'']), (9, [], [''i1'']), (16, [], [''i1''])] (SetPlacementGracePeriod 10 NewScheduler) = [True, True, False] \<and>
   (9 :: int) - 5 < 10"
proof -
  have "deferrals [(5, [], [''i1'']), (9, [], [''i1'']), (16, [], [''i1''])] (SetPlacementGracePeriod 10 NewScheduler) = [True, True, False]"
    by (simp add: shouldDeferInitialPlacement_def SetPlacementGracePeriod_def NewScheduler_def)
  moreover have "list_all id (deferrals [(5, [], [''i1'']), (9, [], [''i1''])] (SetPlacementGracePeriod 10 NewScheduler))"
    by (simp add: shouldDeferInitialPlacement_def SetPlacementGracePeriod_def NewScheduler_def)
  ultimately show ?thesis
    using grace_period_bounded [of "SetPlacementGracePeriod 10 NewScheduler" "[(5, [], [''i1'']), (9, [], [''i1''])]"]
    by (simp add: SetPlacementGracePeriod_def NewScheduler_def)
qed

text \<open>The parts of a cycle.\<close>

lemma Reconcile_parts:
  assumes "Reconcile now marshal slice fs sched = (cs, sched')"
  obtains cs0 pl pre emit cln reb u instances ps res ks g
  where "cs = cs0 @ pre @ emit @ cln @ reb" "cs0 = changesOf ps" "pl = collectPlacedInstanceIDs cs0"
    "instances = markInstancesStillStarting (extractInstanceInfoFromFacts fs) (extractServicesWithStartupProbe fs)"
    "u = findUnplacedPendingInstances instances (extractPlacementsFromFacts fs)"
    "pre = attemptPreemptions u pl (extractNodeInfoFromFacts fs) instances (extractPlacementsFromFacts fs) ks
       (extractServicePriorities fs) (extractStatefulServices fs)"
    "emit = emitUnplacedDemandFacts marshal u pl (extractNodeInfoFromFacts fs) instances res ks"
    "cln = cleanupStaleUnplacedFacts fs (extractPlacementsFromFacts fs) pl"
    "reb = rebalancePlacedInstances slice (extractNodeInfoFromFacts fs) instances (extractPlacementsFromFacts fs) res ks g pl
       (extractRebalancePinnedServices fs (extractStatefulServices fs))"
proof -
  define instances where "instances = markInstancesStillStarting (extractInstanceInfoFromFacts fs) (extractServicesWithStartupProbe fs)"
  define p where "p = extractPlacementsFromFacts fs"
  define nodes where "nodes = extractNodeInfoFromFacts fs"
  define res where "res = extractServiceResourcesFromFacts fs"
  define ks where "ks = applyVolumeHomeNodeConstraints (extractPlacementConstraints fs) fs"
  define sg where "sg = extractServiceGroupMemberships fs"
  define u where "u = findUnplacedPendingInstances instances p"
  obtain d s' where ds: "shouldDeferInitialPlacement now p u sched = (d, s')" by (metis prod.exhaust)
  define cs0 where "cs0 = (if d \<or> u = [] then [] else attemptPlacements u nodes instances p res ks sg)"
  define pl where "pl = collectPlacedInstanceIDs cs0"
  have "cs = cs0 @ attemptPreemptions u pl nodes instances p ks (extractServicePriorities fs) (extractStatefulServices fs) @
      emitUnplacedDemandFacts marshal u pl nodes instances res ks @ cleanupStaleUnplacedFacts fs p pl @
      rebalancePlacedInstances slice nodes instances p res ks sg pl (extractRebalancePinnedServices fs (extractStatefulServices fs))"
    using assms ds unfolding Reconcile_def Let_def instances_def [symmetric] p_def [symmetric] nodes_def [symmetric]
      res_def [symmetric] ks_def [symmetric] sg_def [symmetric] u_def [symmetric]
    by (simp add: cs0_def pl_def)
  moreover have "changesWithin u cs0" unfolding cs0_def by (simp add: changesWithin_attempt changesWithin_Nil)
  then obtain ps where "cs0 = changesOf ps" unfolding changesWithin_def by blast
  ultimately show thesis
    by (rule that [OF _ _ pl_def instances_def u_def [unfolded p_def] refl refl refl refl, unfolded p_def [symmetric] nodes_def [symmetric]])
qed

text \<open>C20. A cycle accounts for every pending instance without a placement: the changes either place it
  or report it as unplaced demand, and never both.\<close>

theorem Reconcile_accounts_for_pending:
  assumes "permutes slice"
    and "i \<in> set (findUnplacedPendingInstances
           (markInstancesStillStarting (extractInstanceInfoFromFacts fs) (extractServicesWithStartupProbe fs))
           (extractPlacementsFromFacts fs))"
    and "Reconcile now marshal slice fs sched = (cs, sched')"
  shows "KeyPlacementInstance i \<in> putKeys cs \<longleftrightarrow> KeyDerivedSchedulerUnplacedReason i \<notin> putKeys cs"
proof -
  obtain cs0 pl pre emit cln reb u instances ps res ks g where
    cs: "cs = cs0 @ pre @ emit @ cln @ reb" and ps: "cs0 = changesOf ps" and pl: "pl = collectPlacedInstanceIDs cs0"
    and inst: "instances = markInstancesStillStarting (extractInstanceInfoFromFacts fs) (extractServicesWithStartupProbe fs)"
    and u: "u = findUnplacedPendingInstances instances (extractPlacementsFromFacts fs)"
    and pre: "pre = attemptPreemptions u pl (extractNodeInfoFromFacts fs) instances (extractPlacementsFromFacts fs) ks
       (extractServicePriorities fs) (extractStatefulServices fs)"
    and emit: "emit = emitUnplacedDemandFacts marshal u pl (extractNodeInfoFromFacts fs) instances res ks"
    and cln: "cln = cleanupStaleUnplacedFacts fs (extractPlacementsFromFacts fs) pl"
    and reb: "reb = rebalancePlacedInstances slice (extractNodeInfoFromFacts fs) instances (extractPlacementsFromFacts fs) res ks g pl
       (extractRebalancePinnedServices fs (extractStatefulServices fs))"
    by (rule Reconcile_parts [OF assms(3)])
  have iu: "i \<in> set u" using assms(2) by (simp add: u inst)
  note pend = unplaced_pending [OF assms(2), folded inst]
  have pli: "i \<in> set pl \<longleftrightarrow> KeyPlacementInstance i \<in> putKeys cs0" unfolding pl collectPlaced_iff using pend(1) by simp
  note rebk = putKeys_rebalance [OF extractNodeInfo_ok extractPlacements_distinct assms(1)]
  have reb1: "KeyPlacementInstance i \<notin> putKeys reb"
  proof
    assume "KeyPlacementInstance i \<in> putKeys reb"
    from rebk [OF this [unfolded reb]]
    obtain j n info where "KeyPlacementInstance i = KeyPlacementInstance j \<or> KeyPlacementInstance i = KeyPlacementNodeInstance n j"
      "map_of instances j = Some info" "siState info = InstanceRunning" by blast
    with pend(2) show False by (auto simp: placement_keys InstanceRunning_def InstancePending_def)
  qed
  have reb2: "KeyDerivedSchedulerUnplacedReason i \<notin> putKeys reb"
  proof
    assume "KeyDerivedSchedulerUnplacedReason i \<in> putKeys reb"
    from rebk [OF this [unfolded reb]] show False by (metis reason_keys(2,3))
  qed
  have pre0: "KeyPlacementInstance i \<notin> putKeys pre" "KeyDerivedSchedulerUnplacedReason i \<notin> putKeys pre"
    using putKeys_preempt placement_keys(3) reason_keys(4) unfolding pre by (metis rangeE subsetD)+
  have e: "KeyPlacementInstance i \<notin> putKeys emit" "KeyDerivedSchedulerUnplacedReason i \<in> putKeys emit \<longleftrightarrow> i \<notin> set pl"
    using iu unfolding emit putKeys_emit by (auto simp: placement_keys reason_keys)
  have c0: "KeyDerivedSchedulerUnplacedReason i \<notin> putKeys cs0"
    unfolding ps putKeys_changesOf by (auto simp: reason_keys)
  show ?thesis unfolding cs putKeys_append cln putKeys_cleanup using reb1 reb2 pre0 e c0 pli by simp
qed

definition reconcileFacts :: "Fact list" where
  "reconcileFacts =
     [exampleFact ''desired/service/web/resources/cpu'' ''200'',
      exampleFact ''observed/instance/i1/service'' ''web'', exampleFact ''observed/instance/i1/state'' ''pending'',
      exampleFact ''observed/instance/i2/service'' ''web'', exampleFact ''observed/instance/i2/state'' ''pending''] @
     exampleNodeFacts"

theorem Reconcile_accounts_for_pending_witness:
  "\<exists>cs s. Reconcile 0 (\<lambda>_. Some ''{}'') (\<lambda>r xs. xs) reconcileFacts (SetPlacementGracePeriod 0 NewScheduler) = (cs, s) \<and>
     KeyPlacementInstance ''i1'' \<in> putKeys cs \<and> KeyDerivedSchedulerUnplacedReason ''i2'' \<in> putKeys cs \<and>
     KeyPlacementInstance ''i2'' \<notin> putKeys cs"
proof -
  let ?r = "Reconcile 0 (\<lambda>_. Some ''{}'') (\<lambda>r xs. xs) reconcileFacts (SetPlacementGracePeriod 0 NewScheduler)"
  have "list_ex (\<lambda>c. chType c = OpPut \<and> chKey c = KeyPlacementInstance ''i1'') (fst ?r)"
    "list_ex (\<lambda>c. chType c = OpPut \<and> chKey c = KeyDerivedSchedulerUnplacedReason ''i2'') (fst ?r)" by code_simp+
  then have k: "KeyPlacementInstance ''i1'' \<in> putKeys (fst ?r)" "KeyDerivedSchedulerUnplacedReason ''i2'' \<in> putKeys (fst ?r)"
    by (simp_all add: putKeys_def list_ex_iff)
  have "''i2'' \<in> set (findUnplacedPendingInstances
      (markInstancesStillStarting (extractInstanceInfoFromFacts reconcileFacts) (extractServicesWithStartupProbe reconcileFacts))
      (extractPlacementsFromFacts reconcileFacts))" by code_simp
  from Reconcile_accounts_for_pending [OF exampleCluster_ok(2) this prod.collapse [symmetric]] k(2)
  have "KeyPlacementInstance ''i2'' \<notin> putKeys (fst ?r)" by blast
  with k show ?thesis by (metis prod.collapse)
qed

end
