(* ===== verification/Runner.thy ===== *)
theory Runner
  imports Fact_Keys Prefix_Search "HOL-Library.Product_Lexorder" "HOL-Library.List_Lexorder" "HOL-Library.Char_ord"
begin

text \<open>
  The controller runner (\<open>controllers/runner.go\<close>, \<open>controllers/delta_buffer.go\<close>): the scan,
  reconcile and commit cycle with optimistic concurrency, the write domains, the change groups and the
  transaction budget, and the forwarding of watch events. Between two accesses of the runner the
  store may change in any way: \<open>env k\<close> is what the other clients did before access \<open>k\<close>. A controller is
  the record of its methods over a state of its own.
\<close>

subsection \<open>Limits\<close>

definition etcdTransactionOperationLimit :: int where "etcdTransactionOperationLimit = 128"
definition maxTransactionChanges :: nat where "maxTransactionChanges = 60"
definition reconcileRetryBaseDelayMs :: int where "reconcileRetryBaseDelayMs = 10"
definition reconcileRetryMaxDelayMs :: int where "reconcileRetryMaxDelayMs = 500"
definition defaultMaxReconciliationAttempts :: int where "defaultMaxReconciliationAttempts = 5"

definition controllerRestartBackoffDelays :: "nat list" where
  "controllerRestartBackoffDelays = [100, 500, 1000, 2000, 5000, 30000]"

subsection \<open>Controllers and the runner\<close>

datatype DeltaError = ErrDeltaFallback | DeltaFailed string

record 'c Controller =
  ctName :: string
  ctWatch :: "string list"
  ctReconcile :: "Fact list \<Rightarrow> 'c \<Rightarrow> (string + Change list) \<times> 'c"
  ctReconcileDelta :: "(Fact list \<Rightarrow> Event list \<Rightarrow> 'c \<Rightarrow> (DeltaError + Change list) \<times> 'c) option"
  ctPostCommit :: "('c \<Rightarrow> 'c) option"

datatype RunnerError =
    StoreFailed StoreError
  | ReconcileFailed string
  | DuplicateKey string string
  | GroupTooLarge string string nat nat
  | ContextDone

record Runner =
  maxReconciliationAttempts :: int
  maxInputKeyGuards :: int

definition NewRunner :: Runner where
  "NewRunner = \<lparr>maxReconciliationAttempts = defaultMaxReconciliationAttempts, maxInputKeyGuards = -1\<rparr>"

definition SetMaxReconciliationAttempts :: "int \<Rightarrow> Runner \<Rightarrow> Runner" where
  "SetMaxReconciliationAttempts maxAttempts rn =
     rn\<lparr>maxReconciliationAttempts := (if maxAttempts < 1 then 1 else maxAttempts)\<rparr>"

definition SetMaxInputKeyGuards :: "int \<Rightarrow> Runner \<Rightarrow> Runner" where
  "SetMaxInputKeyGuards maxGuards rn = rn\<lparr>maxInputKeyGuards := maxGuards\<rparr>"

subsection \<open>Write domains\<close>

definition controllerOutputPrefixes :: "string \<rightharpoonup> string list" where
  "controllerOutputPrefixes = map_of
     [(''intent-resolver'', [''effective/service/'']),
      (''instance'', [''observed/instance/'', ''derived/instance/'']),
      (''scheduler'', [''placement/'', ''derived/scheduler/unplaced/'', ''derived/instance/'']),
      (''endpoint'', [''endpoint/'']),
      (''failure'', [''observed/instance/'', ''derived/instance/'', ''derived/crash-loop/'']),
      (''node-failure'', [''observed/node/'', ''derived/instance/'']),
      (''network'', [''network/vip/'', ''network/dns/'']),
      (''autoscale'', [''intent/autoscaler/'']),
      (''rollout'', [''observed/instance/'', ''derived/service/'', ''desired/service/'']),
      (''storage'', [''observed/volume/'', ''derived/volume/'']),
      (''warm-zero'', [''derived/service/'']),
      (''init'', [''derived/instance/'']),
      (''credential-broker'', [''derived/credential/'']),
      (''cloud-node-lifecycle'', [''observed/cloud/instance/'', ''observed/node/'']),
      (''cloud-loadbalancer'', [''observed/cloud/loadbalancer/'', ''derived/cloud/loadbalancer/'']),
      (''cloud-routes'', [''observed/cloud/route/'', ''derived/cloud/route/'']),
      (''eviction'', [''derived/instance/'', ''derived/node/'']),
      (''drain'', [''derived/node/'']),
      (''cluster-autoscale'', [''derived/capacity/request/'']),
      (''route'', [''derived/route/'']),
      (''auth'', [])]"

fun isKeyWithinWriteDomain :: "string \<Rightarrow> string list \<Rightarrow> bool" where
  "isKeyWithinWriteDomain key [] = False"
| "isKeyWithinWriteDomain key (p # ps) = (if HasPrefix key p then True else isKeyWithinWriteDomain key ps)"

definition enforceWriteDomain :: "string \<Rightarrow> Change list \<Rightarrow> Change list" where
  "enforceWriteDomain controllerName changes =
     (case controllerOutputPrefixes controllerName of
        None \<Rightarrow> changes
      | Some allowed \<Rightarrow> filter (\<lambda>c. isKeyWithinWriteDomain (chKey c) allowed) changes)"

subsection \<open>Groups and the budget\<close>

definition opOrd :: "OpType \<Rightarrow> nat" where
  "opOrd t = (case t of OpPut \<Rightarrow> 0 | OpDelete \<Rightarrow> 1)"

definition sortChangesByGroupAndKey :: "Change list \<Rightarrow> Change list" where
  "sortChangesByGroupAndKey changes = sort_key (\<lambda>c. (chGroup c, chKey c, opOrd (chType c))) changes"

fun findDuplicateFrom :: "string list \<Rightarrow> Change list \<Rightarrow> string" where
  "findDuplicateFrom seen [] = []"
| "findDuplicateFrom seen (c # cs) =
     (if chKey c \<in> set seen then chKey c else findDuplicateFrom (chKey c # seen) cs)"

definition findDuplicateChangeKey :: "Change list \<Rightarrow> string" where
  "findDuplicateChangeKey changes = findDuplicateFrom [] changes"

text \<open>The members of the group that a sorted list of changes starts with.\<close>

definition leadingGroup :: "Change list \<Rightarrow> nat" where
  "leadingGroup cs =
     (case cs of [] \<Rightarrow> 0
      | c # rest \<Rightarrow> if chGroup c = [] then 1 else Suc (length (takeWhile (\<lambda>d. chGroup d = chGroup c) rest)))"

lemma leadingGroup_pos: "cs \<noteq> [] \<Longrightarrow> 0 < leadingGroup cs"
  by (cases cs) (simp_all add: leadingGroup_def)

text \<open>The loop of \<open>takeWholeGroups\<close> over the remaining changes; the error is the group and its size.\<close>

function takeGroupsLoop :: "nat \<Rightarrow> Change list \<Rightarrow> Change list \<Rightarrow> (string \<times> nat) + Change list \<times> nat" where
  "takeGroupsLoop limit selected changes =
     (if changes = [] then Inr (selected, 0)
      else let groupSize = leadingGroup changes
           in if groupSize > limit then Inl (chGroup (hd changes), groupSize)
              else if length selected + groupSize > limit then Inr (selected, length changes)
              else takeGroupsLoop limit (selected @ take groupSize changes) (drop groupSize changes))"
  by pat_completeness auto

termination
  by (relation "measure (\<lambda>(limit, selected, changes). length changes)") (auto simp: leadingGroup_pos)

declare takeGroupsLoop.simps [simp del]

definition takeWholeGroups :: "Change list \<Rightarrow> nat \<Rightarrow> (string \<times> nat) + Change list \<times> nat" where
  "takeWholeGroups changes limit = takeGroupsLoop limit [] changes"

definition validateAndCapChanges :: "string \<Rightarrow> Change list \<Rightarrow> RunnerError + Change list" where
  "validateAndCapChanges controllerName changes0 =
     (let changes = sortChangesByGroupAndKey changes0;
          duplicateKey = findDuplicateChangeKey changes
      in if duplicateKey \<noteq> [] then Inl (DuplicateKey controllerName duplicateKey)
         else if length changes > maxTransactionChanges
         then (case takeWholeGroups changes maxTransactionChanges of
                 Inl (g, n) \<Rightarrow> Inl (GroupTooLarge controllerName g n maxTransactionChanges)
               | Inr (selected, deferred) \<Rightarrow> Inr selected)
         else Inr changes)"

subsection \<open>The transaction\<close>

definition scannedRevisions :: "Fact list \<Rightarrow> string \<rightharpoonup> int" where
  "scannedRevisions fs = fold (\<lambda>f m. m(Key f \<mapsto> Revision f)) fs Map.empty"

definition changeGuard :: "(string \<rightharpoonup> int) \<Rightarrow> Change \<Rightarrow> Compare list" where
  "changeGuard revisions c =
     (case revisions (chKey c) of
        Some r \<Rightarrow> [\<lparr>CmpKey = chKey c, CmpRevision = r\<rparr>]
      | None \<Rightarrow> if chType c = OpPut then [\<lparr>CmpKey = chKey c, CmpRevision = 0\<rparr>] else [])"

definition changeOp :: "Change \<Rightarrow> Op" where
  "changeOp c = \<lparr>OpKind = chType c, OpKey = chKey c, OpValue = chValue c\<rparr>"

fun guardLoop :: "int \<Rightarrow> string list \<Rightarrow> string list \<Rightarrow> Fact list \<Rightarrow> Compare list \<Rightarrow> Compare list" where
  "guardLoop inputKeyLimit changeKeys writePrefixes [] compares = compares"
| "guardLoop inputKeyLimit changeKeys writePrefixes (f # fs) compares =
     (if int (length compares) \<ge> inputKeyLimit then compares
      else if Key f \<in> set changeKeys \<or> \<not> isKeyWithinWriteDomain (Key f) writePrefixes
      then guardLoop inputKeyLimit changeKeys writePrefixes fs compares
      else guardLoop inputKeyLimit changeKeys writePrefixes fs
             (compares @ [\<lparr>CmpKey = Key f, CmpRevision = Revision f\<rparr>]))"

definition appendInputKeyGuards :: "Runner \<Rightarrow> string \<Rightarrow> Compare list \<Rightarrow> Op list \<Rightarrow> string list \<Rightarrow> Fact list \<Rightarrow> Compare list" where
  "appendInputKeyGuards rn controllerName compares ops changeKeys fs =
     (if maxInputKeyGuards rn = 0 then compares
      else let writePrefixes = (case controllerOutputPrefixes controllerName of None \<Rightarrow> [] | Some ps \<Rightarrow> ps);
               etcdCapacity = etcdTransactionOperationLimit - int (length ops);
               inputKeyLimit =
                 (if maxInputKeyGuards rn > 0
                  then (let l = int (length compares) + maxInputKeyGuards rn
                        in if l > etcdCapacity then etcdCapacity else l)
                  else etcdCapacity)
           in guardLoop inputKeyLimit changeKeys writePrefixes fs compares)"

definition buildReconciliationTransaction :: "Runner \<Rightarrow> string \<Rightarrow> Change list \<Rightarrow> Fact list \<Rightarrow> Compare list \<times> Op list" where
  "buildReconciliationTransaction rn controllerName changes fs =
     (let ops = map changeOp changes;
          compares = concat (map (changeGuard (scannedRevisions fs)) changes)
      in (appendInputKeyGuards rn controllerName compares ops (map chKey changes) fs, ops))"

subsection \<open>One attempt\<close>

type_synonym interference = "nat \<Rightarrow> MemoryStore \<Rightarrow> MemoryStore"
type_synonym world = "MemoryStore \<times> nat"

fun scanFactsForController :: "interference \<Rightarrow> string list \<Rightarrow> world \<Rightarrow> (RunnerError + Fact list) \<times> world" where
  "scanFactsForController env [] w = (Inr [], w)"
| "scanFactsForController env (p # ps) (s, t) =
     (let s1 = env t s
      in case ScanWithRevision p s1 of
           Inl e \<Rightarrow> (Inl (StoreFailed e), (s1, Suc t))
         | Inr r \<Rightarrow>
             (case scanFactsForController env ps (s1, Suc t) of
                (Inl e, w) \<Rightarrow> (Inl e, w)
              | (Inr fs, w) \<Rightarrow> (Inr (ScanFacts r @ fs), w)))"

definition computeReconciliationChanges :: "('c, 'x) Controller_scheme \<Rightarrow> Fact list \<Rightarrow> Event list \<Rightarrow> 'c \<Rightarrow> (RunnerError + Change list) \<times> 'c" where
  "computeReconciliationChanges ctl allFacts deltaEvents c =
     (let full = (\<lambda>c. case ctReconcile ctl allFacts c of
                       (Inl e, c') \<Rightarrow> (Inl (ReconcileFailed e), c')
                     | (Inr cs, c') \<Rightarrow> (Inr cs, c'))
      in case ctReconcileDelta ctl of
           None \<Rightarrow> full c
         | Some delta \<Rightarrow>
             if deltaEvents = [] then full c
             else (case delta allFacts deltaEvents c of
                     (Inl ErrDeltaFallback, c') \<Rightarrow> full c'
                   | (Inl (DeltaFailed e), c') \<Rightarrow> (Inl (ReconcileFailed e), c')
                   | (Inr cs, c') \<Rightarrow> (Inr cs, c')))"

definition executePendingPostCommitOperations :: "('c, 'x) Controller_scheme \<Rightarrow> 'c \<Rightarrow> 'c" where
  "executePendingPostCommitOperations ctl c = (case ctPostCommit ctl of None \<Rightarrow> c | Some f \<Rightarrow> f c)"

text \<open>What is committed, \<open>None\<close> when there is nothing to commit.\<close>

definition prepareTransaction :: "Runner \<Rightarrow> ('c, 'x) Controller_scheme \<Rightarrow> Fact list \<Rightarrow> Change list \<Rightarrow>
    RunnerError + (Compare list \<times> Op list) option" where
  "prepareTransaction rn ctl allFacts changes0 =
     (let changes1 = enforceWriteDomain (ctName ctl) changes0
      in if changes1 = [] then Inr None
         else case validateAndCapChanges (ctName ctl) changes1 of
                Inl e \<Rightarrow> Inl e
              | Inr changes \<Rightarrow> Inr (Some (buildReconciliationTransaction rn (ctName ctl) changes allFacts)))"

definition commitTransaction :: "interference \<Rightarrow> ('c, 'x) Controller_scheme \<Rightarrow> Compare list \<Rightarrow> Op list \<Rightarrow> world \<Rightarrow> 'c \<Rightarrow>
    (RunnerError + bool) \<times> world \<times> 'c" where
  "commitTransaction env ctl compares ops w c =
     (let s1 = env (snd w) (fst w)
      in case Transaction compares ops [] s1 of
           (Inl e, s2) \<Rightarrow> (Inl (StoreFailed e), (s2, Suc (snd w)), c)
         | (Inr False, s2) \<Rightarrow> (Inr True, (s2, Suc (snd w)), c)
         | (Inr True, s2) \<Rightarrow> (Inr False, (s2, Suc (snd w)), executePendingPostCommitOperations ctl c))"

text \<open>The result is whether a conflict was detected.\<close>

definition attemptSingleReconciliation :: "interference \<Rightarrow> Runner \<Rightarrow> ('c, 'x) Controller_scheme \<Rightarrow> Event list \<Rightarrow> world \<Rightarrow> 'c \<Rightarrow>
    (RunnerError + bool) \<times> world \<times> 'c" where
  "attemptSingleReconciliation env rn ctl deltaEvents w c =
     (case scanFactsForController env (ctWatch ctl) w of
        (Inl e, w1) \<Rightarrow> (Inl e, w1, c)
      | (Inr fs, w1) \<Rightarrow>
          let allFacts = SortFacts fs
          in case computeReconciliationChanges ctl allFacts deltaEvents c of
               (Inl e, c1) \<Rightarrow> (Inl e, w1, c1)
             | (Inr changes, c1) \<Rightarrow>
                 if changes = [] then (Inr False, w1, executePendingPostCommitOperations ctl c1)
                 else case prepareTransaction rn ctl allFacts changes of
                        Inl e \<Rightarrow> (Inl e, w1, c1)
                      | Inr None \<Rightarrow> (Inr False, w1, c1)
                      | Inr (Some (compares, ops)) \<Rightarrow> commitTransaction env ctl compares ops w1 c1)"

subsection \<open>The cycle\<close>

text \<open>The delay before retry \<open>attemptIndex\<close>, without the jitter: \<open>10 * (1 << attemptIndex)\<close> in 64 bits.\<close>

definition retryBaseDelayMs :: "nat \<Rightarrow> int" where
  "retryBaseDelayMs attemptIndex =
     (let d = wrap64 (reconcileRetryBaseDelayMs * wrap64 (2 ^ attemptIndex))
      in if d > reconcileRetryMaxDelayMs then reconcileRetryMaxDelayMs else d)"

text \<open>\<open>rand.Intn(n)\<close> panics unless \<open>n > 0\<close>; otherwise it is a number below \<open>n\<close>.\<close>

definition jitterDefined :: "nat \<Rightarrow> bool" where
  "jitterDefined attemptIndex \<longleftrightarrow> retryBaseDelayMs attemptIndex + 1 > 0"

text \<open>The attempts from \<open>attemptIndex\<close> on, \<open>n\<close> of them left. \<open>cancelled i\<close> says that the context is
  done while the runner waits after attempt \<open>i\<close>. The result is the error, if any.\<close>

fun reconciliationLoop :: "interference \<Rightarrow> (nat \<Rightarrow> bool) \<Rightarrow> Runner \<Rightarrow> ('c, 'x) Controller_scheme \<Rightarrow> Event list \<Rightarrow> nat \<Rightarrow> nat \<Rightarrow>
    world \<Rightarrow> 'c \<Rightarrow> RunnerError option \<times> world \<times> 'c" where
  "reconciliationLoop env cancelled rn ctl deltaEvents attemptIndex 0 w c = (None, w, c)"
| "reconciliationLoop env cancelled rn ctl deltaEvents attemptIndex (Suc n) w c =
     (case attemptSingleReconciliation env rn ctl (if attemptIndex = 0 then deltaEvents else []) w c of
        (Inl e, w1, c1) \<Rightarrow> (Some e, w1, c1)
      | (Inr False, w1, c1) \<Rightarrow> (None, w1, c1)
      | (Inr True, w1, c1) \<Rightarrow>
          if cancelled attemptIndex then (Some ContextDone, w1, c1)
          else reconciliationLoop env cancelled rn ctl deltaEvents (Suc attemptIndex) n w1 c1)"

definition executeReconciliationCycle :: "interference \<Rightarrow> (nat \<Rightarrow> bool) \<Rightarrow> Runner \<Rightarrow> ('c, 'x) Controller_scheme \<Rightarrow> Event list \<Rightarrow>
    world \<Rightarrow> 'c \<Rightarrow> RunnerError option \<times> world \<times> 'c" where
  "executeReconciliationCycle env cancelled rn ctl deltaEvents w c =
     reconciliationLoop env cancelled rn ctl deltaEvents 0 (nat (maxReconciliationAttempts rn)) w c"

definition restartDelay :: "nat \<Rightarrow> nat" where
  "restartDelay failures = controllerRestartBackoffDelays ! min failures (length controllerRestartBackoffDelays - 1)"

subsection \<open>Delta buffer\<close>

record deltaBuffer =
  coalescedEvents :: "(string \<times> Event) list"
  deltaOverflow :: bool

definition newDeltaBuffer :: deltaBuffer where
  "newDeltaBuffer = \<lparr>coalescedEvents = [], deltaOverflow = False\<rparr>"

definition appendEvent :: "Event \<Rightarrow> deltaBuffer \<Rightarrow> deltaBuffer" where
  "appendEvent ev b =
     (let k = Key (EvFact ev);
          ev' = (case map_of (coalescedEvents b) k of None \<Rightarrow> ev | Some e \<Rightarrow> ev\<lparr>EvPrev := EvPrev e\<rparr>)
      in b\<lparr>coalescedEvents := AList.update k ev' (coalescedEvents b)\<rparr>)"

definition markOverflow :: "deltaBuffer \<Rightarrow> deltaBuffer" where
  "markOverflow b = b\<lparr>deltaOverflow := True\<rparr>"

definition drain :: "deltaBuffer \<Rightarrow> Event list \<times> deltaBuffer" where
  "drain b =
     (if deltaOverflow b then ([], \<lparr>coalescedEvents = [], deltaOverflow = False\<rparr>)
      else (map snd (coalescedEvents b), b\<lparr>coalescedEvents := []\<rparr>))"

text \<open>One event, or \<open>None\<close> for a closed channel: the buffer (if the controller takes deltas), whether a
  reconciliation is triggered, whether the watch is lost.\<close>

definition forwardWatchEvent :: "Event option \<Rightarrow> deltaBuffer option \<Rightarrow> deltaBuffer option \<times> bool \<times> bool" where
  "forwardWatchEvent received buffer =
     (case received of
        None \<Rightarrow> (buffer, False, True)
      | Some ev \<Rightarrow>
          (map_option (\<lambda>b. let b1 = (if EvType ev = EventOverflow \<or> EvType ev = EventCompacted then markOverflow b else b)
                           in if EvType ev = EventPut \<or> EvType ev = EventDelete then appendEvent ev b1 else b1) buffer,
           True, False))"

subsection \<open>Groups stay whole\<close>

lemma sorted_groups: "sorted (map chGroup (sortChangesByGroupAndKey cs))"
proof -
  let ?f = "\<lambda>c. (chGroup c, chKey c, opOrd (chType c))"
  have "sorted_wrt (\<lambda>x y. ?f x \<le> ?f y) (sortChangesByGroupAndKey cs)"
    using sorted_sort_key [of ?f cs] unfolding sortChangesByGroupAndKey_def sorted_map .
  then show ?thesis unfolding sorted_map by (rule sorted_wrt_mono_rel [rotated]) (auto simp: less_eq_prod_def)
qed

lemma leadingGroup_le: "leadingGroup cs \<le> length cs"
  by (cases cs) (auto simp: leadingGroup_def length_takeWhile_le)

lemma dropWhile_sorted:
  fixes g :: "'b \<Rightarrow> 'a :: linorder"
  shows "sorted (x # map g rest) \<Longrightarrow> y \<in> set (dropWhile (\<lambda>d. g d = x) rest) \<Longrightarrow> g y \<noteq> x"
proof (induction rest)
  case (Cons r rs)
  show ?case
  proof (cases "g r = x")
    case True
    with Cons show ?thesis by simp
  next
    case False
    with Cons.prems have "x < g r" "g r \<le> g y" by auto
    then show ?thesis by auto
  qed
qed simp

lemma leadingGroup_whole:
  assumes "sorted (map chGroup cs)" and "c \<in> set (take (leadingGroup cs) cs)" and "d \<in> set (drop (leadingGroup cs) cs)"
    and "chGroup c \<noteq> []"
  shows "chGroup c \<noteq> chGroup d"
proof (cases cs)
  case Nil
  with assms show ?thesis by simp
next
  case (Cons x rest)
  show ?thesis
  proof (cases "chGroup x = []")
    case True
    with assms(2,4) Cons show ?thesis by (simp add: leadingGroup_def)
  next
    case False
    let ?P = "\<lambda>d. chGroup d = chGroup x"
    have n: "leadingGroup cs = Suc (length (takeWhile ?P rest))" using False Cons by (simp add: leadingGroup_def)
    have c: "chGroup c = chGroup x" using assms(2) Cons n by (auto simp: takeWhile_eq_take [symmetric] dest: set_takeWhileD)
    have d: "d \<in> set (dropWhile ?P rest)" using assms(3) Cons n by (simp add: dropWhile_eq_drop)
    from assms(1) have "sorted (chGroup x # map chGroup rest)" by (simp add: Cons)
    from dropWhile_sorted [OF this d] c show ?thesis by metis
  qed
qed

lemma takeGroupsLoop_spec:
  assumes "takeGroupsLoop limit selected cs = Inr (sel, deferred)" and "length selected \<le> limit" and "sorted (map chGroup cs)"
  shows "\<exists>pre suf. cs = pre @ suf \<and> sel = selected @ pre \<and> deferred = length suf \<and> length sel \<le> limit \<and>
    (\<forall>c\<in>set pre. \<forall>d\<in>set suf. chGroup c \<noteq> [] \<longrightarrow> chGroup c \<noteq> chGroup d) \<and>
    (selected = [] \<and> cs \<noteq> [] \<longrightarrow> pre \<noteq> [])"
  using assms
proof (induction limit selected cs rule: takeGroupsLoop.induct)
  case (1 limit selected cs)
  let ?n = "leadingGroup cs"
  show ?case
  proof (cases "cs = []")
    case True
    with 1(2,3) show ?thesis by (simp add: takeGroupsLoop.simps)
  next
    case False
    with 1(2) have small: "?n \<le> limit" by (auto simp: takeGroupsLoop.simps Let_def split: if_splits)
    show ?thesis
    proof (cases "length selected + ?n > limit")
      case True
      with 1(2,3) False small show ?thesis
        by (intro exI [of _ "[]"] exI [of _ cs]) (auto simp: takeGroupsLoop.simps Let_def)
    next
      case fits: False
      have rec: "takeGroupsLoop limit (selected @ take ?n cs) (drop ?n cs) = Inr (sel, deferred)"
        using 1(2) False small fits by (simp add: takeGroupsLoop.simps [of limit selected cs] Let_def)
      have len: "length (selected @ take ?n cs) \<le> limit" using fits by simp
      have srt: "sorted (map chGroup (drop ?n cs))" using 1(4) by (metis drop_map sorted_wrt_drop)
      from 1(1) [OF False refl _ _ rec len srt] small fits
      obtain pre suf where ps: "drop ?n cs = pre @ suf" "sel = (selected @ take ?n cs) @ pre" "deferred = length suf"
        "length sel \<le> limit" "\<forall>c\<in>set pre. \<forall>d\<in>set suf. chGroup c \<noteq> [] \<longrightarrow> chGroup c \<noteq> chGroup d" by auto
      have "\<forall>c\<in>set (take ?n cs). \<forall>d\<in>set suf. chGroup c \<noteq> [] \<longrightarrow> chGroup c \<noteq> chGroup d"
        using leadingGroup_whole [OF 1(4)] ps(1) by auto
      moreover have "cs = (take ?n cs @ pre) @ suf" using ps(1) by (metis append.assoc append_take_drop_id)
      moreover have "take ?n cs \<noteq> []" using False leadingGroup_pos [OF False] by simp
      ultimately show ?thesis using ps(2-5) by (intro exI [of _ "take ?n cs @ pre"] exI [of _ suf]) auto
    qed
  qed
qed

lemma findDuplicateFrom_none:
  "findDuplicateFrom seen cs = [] \<Longrightarrow> \<forall>c\<in>set cs. chKey c \<noteq> [] \<Longrightarrow>
     distinct (map chKey cs) \<and> set (map chKey cs) \<inter> set seen = {}"
  by (induction seen cs rule: findDuplicateFrom.induct) (auto split: if_splits)

lemma mset_sortChanges [simp]: "mset (sortChangesByGroupAndKey cs) = mset cs" "length (sortChangesByGroupAndKey cs) = length cs"
  "set (sortChangesByGroupAndKey cs) = set cs"
  by (simp_all add: sortChangesByGroupAndKey_def)

lemma sortChanges_Nil [simp]: "sortChangesByGroupAndKey cs = [] \<longleftrightarrow> cs = []"
  by (metis length_0_conv mset_sortChanges(2))

lemma validateAndCap_spec:
  assumes "validateAndCapChanges n cs = Inr sel"
  shows "\<exists>deferred. sortChangesByGroupAndKey cs = sel @ deferred \<and> length sel \<le> maxTransactionChanges \<and>
    (\<forall>c\<in>set sel. \<forall>d\<in>set deferred. chGroup c \<noteq> [] \<longrightarrow> chGroup c \<noteq> chGroup d) \<and>
    (cs \<noteq> [] \<longrightarrow> sel \<noteq> []) \<and> ((\<forall>c\<in>set cs. chKey c \<noteq> []) \<longrightarrow> distinct (map chKey cs))"
proof -
  let ?s = "sortChangesByGroupAndKey cs"
  have dup: "findDuplicateChangeKey ?s = []" using assms by (auto simp: validateAndCapChanges_def Let_def split: if_splits)
  have d: "distinct (map chKey cs)" if "\<forall>c\<in>set cs. chKey c \<noteq> []"
  proof -
    have "distinct (map chKey ?s)" using findDuplicateFrom_none [of "[]" ?s] dup that by (simp add: findDuplicateChangeKey_def)
    moreover have "mset (map chKey ?s) = mset (map chKey cs)" by simp
    ultimately show ?thesis using mset_eq_imp_distinct_iff by blast
  qed
  show ?thesis
  proof (cases "length cs > maxTransactionChanges")
    case True
    with assms dup obtain def where "takeWholeGroups ?s maxTransactionChanges = Inr (sel, def)"
      by (auto simp: validateAndCapChanges_def Let_def split: sum.splits prod.splits)
    moreover have "?s \<noteq> []" using True by auto
    ultimately obtain pre suf where
      ps: "?s = pre @ suf" "sel = [] @ pre" "length sel \<le> maxTransactionChanges"
      "\<forall>c\<in>set pre. \<forall>d\<in>set suf. chGroup c \<noteq> [] \<longrightarrow> chGroup c \<noteq> chGroup d" "pre \<noteq> []"
      using takeGroupsLoop_spec [of maxTransactionChanges "[]" ?s, OF _ _ sorted_groups] unfolding takeWholeGroups_def
      by (metis le0 list.size(3))
    with d show ?thesis by (intro exI [of _ suf]) simp
  next
    case False
    with assms dup have "sel = ?s" by (simp add: validateAndCapChanges_def Let_def)
    with False d show ?thesis by (intro exI [of _ "[]"]) simp
  qed
qed

subsection \<open>The transaction fits\<close>

lemma changeGuard_length: "length (concat (map (changeGuard m) cs)) \<le> length cs"
proof (induction cs)
  case (Cons c cs)
  have "length (changeGuard m c) \<le> 1" by (auto simp: changeGuard_def split: option.splits)
  with Cons show ?case by simp
qed simp

lemma guardLoop_length:
  "int (length (guardLoop limit ks ps fs cmps)) \<le> max limit (int (length cmps))"
  by (induction limit ks ps fs cmps rule: guardLoop.induct) (auto simp: max_def split: if_splits)

lemma guardLoop_prefix: "\<exists>more. guardLoop limit ks ps fs cmps = cmps @ more \<and>
    (\<forall>c\<in>set more. \<exists>f\<in>set fs. CmpKey c = Key f \<and> CmpRevision c = Revision f)"
proof (induction limit ks ps fs cmps rule: guardLoop.induct)
  case (2 limit ks ps f fs cmps)
  then show ?case by (auto split: if_splits)
qed simp

lemma build_fits:
  assumes "length cs \<le> maxTransactionChanges" and "buildReconciliationTransaction rn n cs fs = (cmps, ops)"
  shows "length cmps + length ops \<le> memoryStoreTransactionOperationLimit"
proof -
  let ?c = "concat (map (changeGuard (scannedRevisions fs)) cs)"
  have ops: "length ops = length cs" using assms(2) by (auto simp: buildReconciliationTransaction_def Let_def)
  have cap: "int (length ?c) \<le> etcdTransactionOperationLimit - int (length ops)"
    using changeGuard_length [of "scannedRevisions fs" cs] assms(1) ops
    by (simp add: maxTransactionChanges_def etcdTransactionOperationLimit_def)
  have "int (length cmps) \<le> etcdTransactionOperationLimit - int (length ops)"
  proof (cases "maxInputKeyGuards rn = 0")
    case True
    with assms(2) cap show ?thesis by (auto simp: buildReconciliationTransaction_def appendInputKeyGuards_def Let_def)
  next
    case False
    then obtain limit ps where "cmps = guardLoop limit (map chKey cs) ps fs ?c"
      "limit \<le> etcdTransactionOperationLimit - int (length ops)"
      using assms(2) ops by (auto simp: buildReconciliationTransaction_def appendInputKeyGuards_def Let_def)
    with guardLoop_length [of limit "map chKey cs" ps fs ?c] cap show ?thesis by simp
  qed
  then show ?thesis by (simp add: etcdTransactionOperationLimit_def memoryStoreTransactionOperationLimit_def)
qed

subsection \<open>Guards against concurrent writers\<close>

text \<open>Other clients do what any client of the store can do.\<close>

definition lawfulEnv :: "interference \<Rightarrow> bool" where
  "lawfulEnv env \<longleftrightarrow> (\<forall>k s. \<exists>P P'. mem_steps (s, P) (env k s, P'))"

lemma lawfulEnv_step: "lawfulEnv env \<Longrightarrow> dataInv s \<Longrightarrow> dataInv (env k s) \<and> freshWrites s (env k s)"
  unfolding lawfulEnv_def using mem_steps_inv by (metis fst_conv)

definition seenIn :: "Fact \<Rightarrow> MemoryStore \<Rightarrow> bool" where
  "seenIn f s \<longleftrightarrow> (\<exists>s0. dataInv s0 \<and> facts s0 (Key f) = Some f \<and> freshWrites s0 s)"

lemma seenIn_later: "seenIn f s \<Longrightarrow> freshWrites s s' \<Longrightarrow> seenIn f s'"
  unfolding seenIn_def by (meson freshWrites_trans)

lemma seenIn_same_revision:
  assumes "seenIn f s" and "facts s (Key f) = Some g" and "Revision g = Revision f"
  shows "g = f"
proof -
  obtain s0 where s0: "dataInv s0" "facts s0 (Key f) = Some f" "freshWrites s0 s"
    using assms(1) unfolding seenIn_def by blast
  have "facts s0 (Key f) = Some g \<or> currentRevision s0 < Revision g"
    using s0(3) assms(2) unfolding freshWrites_def by blast
  moreover have "\<not> currentRevision s0 < Revision g"
    using dataInv_factD [OF s0(1,2)] unfolding assms(3) by linarith
  ultimately show ?thesis unfolding s0(2) by simp
qed

lemma seenIn_revision: "seenIn f s \<Longrightarrow> Revision f \<noteq> 0"
  unfolding seenIn_def by (metis dataInv_factD less_irrefl)

lemma scan_seen:
  assumes "lawfulEnv env" and "dataInv s" and "scanFactsForController env ps (s, t) = (Inr fs, (s', t'))"
  shows "dataInv s' \<and> freshWrites s s' \<and> (\<forall>f\<in>set fs. seenIn f s')"
  using assms(2,3)
proof (induction ps arbitrary: s t fs)
  case (Cons p ps)
  let ?s = "env t s"
  have env: "dataInv ?s" "freshWrites s ?s" using lawfulEnv_step [OF assms(1) Cons.prems(1)] by simp_all
  have op: "\<not> isClosed ?s" using Cons.prems(2) by (auto simp: ScanWithRevision_def Let_def)
  obtain gs where rec: "scanFactsForController env ps (?s, Suc t) = (Inr gs, (s', t'))"
    and fs: "fs = collectFactPointers p ?s @ gs"
    using Cons.prems(2) op by (auto simp: ScanWithRevision_def Let_def split: prod.splits sum.splits)
  note ih = Cons.IH [OF env(1) rec]
  have "seenIn f s'" if "f \<in> set (collectFactPointers p ?s)" for f
    using collectFactPointers_exact(2) [OF env(1)] that env(1) ih by (auto simp: seenIn_def)
  with ih fs env(2) show ?case by (auto intro: freshWrites_trans)
qed simp

lemma scannedRevisions_Some: "scannedRevisions fs k = Some r \<Longrightarrow> \<exists>f\<in>set fs. Key f = k \<and> Revision f = r"
proof -
  have "fold (\<lambda>f m. m(Key f \<mapsto> Revision f)) fs m k = Some r \<Longrightarrow> m k = Some r \<or> (\<exists>f\<in>set fs. Key f = k \<and> Revision f = r)" for m
    by (induction fs arbitrary: m) (fastforce split: if_splits)+
  then show "scannedRevisions fs k = Some r \<Longrightarrow> \<exists>f\<in>set fs. Key f = k \<and> Revision f = r"
    unfolding scannedRevisions_def by fastforce
qed

lemma scannedRevisions_None: "scannedRevisions fs k = None \<longleftrightarrow> k \<notin> Key ` set fs"
proof -
  have "fold (\<lambda>f m. m(Key f \<mapsto> Revision f)) fs m k = None \<longleftrightarrow> m k = None \<and> k \<notin> Key ` set fs" for m
    by (induction fs arbitrary: m) auto
  then show ?thesis by (simp add: scannedRevisions_def)
qed

text \<open>What a committed operation found: the fact that was scanned, or, if none was scanned under its
  key, none at all for a put.\<close>

definition guardedOp :: "Fact list \<Rightarrow> MemoryStore \<Rightarrow> Op \<Rightarrow> bool" where
  "guardedOp fs s op \<longleftrightarrow>
     (if OpKey op \<in> Key ` set fs then (\<exists>f\<in>set fs. Key f = OpKey op \<and> facts s (OpKey op) = Some f)
      else OpKind op = OpPut \<longrightarrow> facts s (OpKey op) = None)"

lemma changeGuard_holds:
  assumes "preconditionsHold (changeGuard (scannedRevisions fs) c) (facts s)" and "\<forall>f\<in>set fs. seenIn f s"
  shows "guardedOp fs s (changeOp c)"
proof (cases "scannedRevisions fs (chKey c)")
  case None
  with assms(1) scannedRevisions_None [of fs "chKey c"] show ?thesis
    by (auto simp: changeGuard_def guardedOp_def changeOp_def preconditionsHold_def split: if_splits)
next
  case (Some r)
  then obtain f where f: "f \<in> set fs" "Key f = chKey c" "Revision f = r" using scannedRevisions_Some by blast
  have "r \<noteq> 0" using seenIn_revision [of f s] assms(2) f by auto
  with assms(1) Some obtain g where g: "facts s (chKey c) = Some g" "Revision g = r"
    by (auto simp: changeGuard_def preconditionsHold_def)
  have "g = f" by (rule seenIn_same_revision [of f s]) (use assms(2) f g in auto)
  moreover have "chKey c \<in> Key ` set fs" using f by force
  ultimately show ?thesis using f g by (auto simp: guardedOp_def changeOp_def)
qed

lemma build_guards:
  assumes "buildReconciliationTransaction rn n cs fs = (cmps, ops)" and "preconditionsHold cmps (facts s)"
    and "\<forall>f\<in>set fs. seenIn f s"
  shows "\<forall>op\<in>set ops. guardedOp fs s op" "ops = map changeOp cs"
proof -
  let ?c = "concat (map (changeGuard (scannedRevisions fs)) cs)"
  show ops: "ops = map changeOp cs" using assms(1) by (auto simp: buildReconciliationTransaction_def Let_def)
  have "\<exists>more. appendInputKeyGuards rn n ?c ops (map chKey cs) fs = ?c @ more"
    unfolding appendInputKeyGuards_def Let_def using guardLoop_prefix by (metis append_Nil2)
  then obtain more where "cmps = ?c @ more"
    using assms(1) by (auto simp: buildReconciliationTransaction_def Let_def)
  then have "preconditionsHold (changeGuard (scannedRevisions fs) c) (facts s)" if "c \<in> set cs" for c
    using assms(2) that unfolding preconditionsHold_def by fastforce
  then show "\<forall>op\<in>set ops. guardedOp fs s op" using changeGuard_holds [OF _ assms(3)] by (auto simp: ops)
qed

lemma prepare_spec:
  assumes "prepareTransaction rn ctl fs cs = Inr (Some (cmps, ops))"
  shows "length cmps + length ops \<le> memoryStoreTransactionOperationLimit"
    "\<And>s. preconditionsHold cmps (facts s) \<Longrightarrow> \<forall>f\<in>set fs. seenIn f s \<Longrightarrow> \<forall>op\<in>set ops. guardedOp fs s op"
    "set ops \<subseteq> changeOp ` set (enforceWriteDomain (ctName ctl) cs)"
proof -
  obtain sel where sel: "validateAndCapChanges (ctName ctl) (enforceWriteDomain (ctName ctl) cs) = Inr sel"
    and build: "buildReconciliationTransaction rn (ctName ctl) sel fs = (cmps, ops)"
    using assms by (auto simp: prepareTransaction_def Let_def split: if_splits sum.splits)
  from validateAndCap_spec [OF sel] obtain def where
    def: "sortChangesByGroupAndKey (enforceWriteDomain (ctName ctl) cs) = sel @ def" "length sel \<le> maxTransactionChanges" by blast
  show "length cmps + length ops \<le> memoryStoreTransactionOperationLimit" by (rule build_fits [OF def(2) build])
  show "\<forall>op\<in>set ops. guardedOp fs s op" if "preconditionsHold cmps (facts s)" "\<forall>f\<in>set fs. seenIn f s" for s
    by (rule build_guards(1) [OF build that])
  have "set sel \<subseteq> set (enforceWriteDomain (ctName ctl) cs)" using arg_cong [OF def(1), of set] by auto
  moreover have "ops = map changeOp sel" using build by (auto simp: buildReconciliationTransaction_def Let_def)
  ultimately show "set ops \<subseteq> changeOp ` set (enforceWriteDomain (ctName ctl) cs)" by auto
qed

lemma isKeyWithinWriteDomain_iff: "isKeyWithinWriteDomain k ps \<longleftrightarrow> (\<exists>p\<in>set ps. HasPrefix k p)"
  by (induction ps) auto

subsection \<open>Ungrouped changes come first\<close>

lemma sorted_groups_split:
  fixes g :: "'b \<Rightarrow> 'a :: {linorder, order_bot}"
  shows "sorted (map g xs) \<Longrightarrow> xs = filter (\<lambda>x. g x = bot) xs @ filter (\<lambda>x. g x \<noteq> bot) xs"
proof (induction xs)
  case (Cons x xs)
  show ?case
  proof (cases "g x = bot")
    case True
    with Cons show ?thesis by simp
  next
    case False
    have "\<forall>y\<in>set (x # xs). g y \<noteq> bot"
    proof
      fix y assume "y \<in> set (x # xs)"
      then have "g x \<le> g y" using Cons.prems by auto
      with False show "g y \<noteq> bot" by (metis bot.extremum_uniqueI)
    qed
    then have "filter (\<lambda>x. g x = bot) (x # xs) = []" "filter (\<lambda>x. g x \<noteq> bot) (x # xs) = x # xs"
      by (simp_all add: filter_empty_conv filter_id_conv)
    then show ?thesis by simp
  qed
qed simp

lemma takeGroupsLoop_ungrouped:
  assumes "takeGroupsLoop limit selected (us @ gs) = Inr (sel, deferred)"
    and "\<forall>c\<in>set us. chGroup c = []" and "length selected + length us \<ge> limit" and "length selected \<le> limit"
  shows "\<exists>pre. sel = selected @ pre \<and> set pre \<subseteq> set us"
  using assms
proof (induction us arbitrary: selected)
  case Nil
  then have "length selected = limit" by simp
  with Nil.prems(1) leadingGroup_pos [of gs] show ?case
    by (auto simp: takeGroupsLoop.simps Let_def split: if_splits)
next
  case (Cons u us)
  have n: "leadingGroup ((u # us) @ gs) = 1" using Cons.prems(2) by (simp add: leadingGroup_def)
  show ?case
  proof (cases "length selected + 1 > limit")
    case True
    with Cons.prems(1) n show ?thesis by (auto simp: takeGroupsLoop.simps Let_def split: if_splits)
  next
    case False
    then have "takeGroupsLoop limit (selected @ [u]) (us @ gs) = Inr (sel, deferred)"
      using Cons.prems(1) n by (subst (asm) takeGroupsLoop.simps) (simp add: Let_def split: if_splits)
    from Cons.IH [OF this] Cons.prems(2,3) False obtain pre where "sel = (selected @ [u]) @ pre" "set pre \<subseteq> set us" by auto
    then show ?thesis by (intro exI [of _ "u # pre"]) auto
  qed
qed

lemma ungrouped_fill_budget:
  assumes "validateAndCapChanges n cs = Inr sel" and "length (filter (\<lambda>c. chGroup c = []) cs) \<ge> maxTransactionChanges"
    and "length cs > maxTransactionChanges"
  shows "\<forall>c\<in>set sel. chGroup c = []"
proof -
  let ?s = "sortChangesByGroupAndKey cs"
  let ?us = "filter (\<lambda>c. chGroup c = []) ?s"
  have split: "?s = ?us @ filter (\<lambda>c. chGroup c \<noteq> []) ?s"
    using sorted_groups_split [OF sorted_groups [of cs]] by (simp add: bot_list_def)
  have "mset ?us = mset (filter (\<lambda>c. chGroup c = []) cs)" by (simp only: mset_filter mset_sortChanges)
  then have len: "length ?us = length (filter (\<lambda>c. chGroup c = []) cs)" by (metis size_mset)
  from assms(1,3) obtain def where "takeGroupsLoop maxTransactionChanges [] ?s = Inr (sel, def)"
    by (auto simp: validateAndCapChanges_def takeWholeGroups_def Let_def split: if_splits sum.splits prod.splits)
  then have run: "takeGroupsLoop maxTransactionChanges [] (?us @ filter (\<lambda>c. chGroup c \<noteq> []) ?s) = Inr (sel, def)"
    using split by simp
  from takeGroupsLoop_ungrouped [OF run] assms(2) len show ?thesis by auto
qed

subsection \<open>Coalesced deltas\<close>

lemma applyEvent_other: "Key (EvFact ev) \<noteq> k \<Longrightarrow> applyEvent ev m k = m k"
  by (simp add: applyEvent_def split: EventType.splits)

lemma applyEvent_same:
  "Key (EvFact ev) = k \<Longrightarrow> EvType ev \<in> {EventPut, EventDelete} \<Longrightarrow>
     applyEvent ev m k = (if EvType ev = EventPut then Some (EvFact ev) else None)"
  by (auto simp: applyEvent_def)

text \<open>The value of a key after a list of events is decided by its last event.\<close>

lemma fold_applyEvent:
  assumes "\<forall>ev\<in>set evs. EvType ev \<in> {EventPut, EventDelete}"
  shows "fold applyEvent evs m k =
    (let l = filter (\<lambda>ev. Key (EvFact ev) = k) evs
     in if l = [] then m k else if EvType (last l) = EventPut then Some (EvFact (last l)) else None)"
  using assms
proof (induction evs rule: rev_induct)
  case (snoc ev evs)
  show ?case
  proof (cases "Key (EvFact ev) = k")
    case True
    with snoc.prems applyEvent_same [OF True] show ?thesis by (simp add: Let_def)
  next
    case False
    with snoc applyEvent_other [OF False] show ?thesis by simp
  qed
qed simp

definition bufferOf :: "Event list \<Rightarrow> deltaBuffer" where
  "bufferOf evs = fold appendEvent evs newDeltaBuffer"

text \<open>What the buffer holds for a key: the last event, with the previous fact of the first.\<close>

definition coalesced :: "Event list \<Rightarrow> string \<Rightarrow> Event option" where
  "coalesced evs k =
     (let l = filter (\<lambda>ev. Key (EvFact ev) = k) evs
      in if l = [] then None else Some ((last l)\<lparr>EvPrev := EvPrev (hd l)\<rparr>))"

lemma bufferOf_inv:
  "distinct (map fst (coalescedEvents (bufferOf evs))) \<and> \<not> deltaOverflow (bufferOf evs) \<and>
   (\<forall>k. map_of (coalescedEvents (bufferOf evs)) k = coalesced evs k)"
proof (induction evs rule: rev_induct)
  case Nil
  then show ?case by (simp add: bufferOf_def newDeltaBuffer_def coalesced_def)
next
  case (snoc ev evs)
  let ?b = "bufferOf evs" and ?k = "Key (EvFact ev)"
  have b: "bufferOf (evs @ [ev]) = appendEvent ev ?b" by (simp add: bufferOf_def)
  have eq: "coalescedEvents (appendEvent ev ?b) =
      AList.update ?k (case coalesced evs ?k of None \<Rightarrow> ev | Some e \<Rightarrow> ev\<lparr>EvPrev := EvPrev e\<rparr>) (coalescedEvents ?b)"
    using snoc by (simp add: appendEvent_def Let_def)
  have "coalesced (evs @ [ev]) k =
      (if k = ?k then Some (case coalesced evs ?k of None \<Rightarrow> ev | Some e \<Rightarrow> ev\<lparr>EvPrev := EvPrev e\<rparr>) else coalesced evs k)" for k
    by (auto simp: coalesced_def Let_def)
  with snoc show ?case unfolding b eq
    by (simp add: update_conv distinct_update) (simp add: appendEvent_def Let_def)
qed

lemma coalesced_last:
  assumes "coalesced evs k = Some e"
  shows "Key (EvFact e) = k" "\<exists>x\<in>set evs. EvType e = EvType x" "filter (\<lambda>ev. Key (EvFact ev) = k) evs \<noteq> []"
    "EvType e = EvType (last (filter (\<lambda>ev. Key (EvFact ev) = k) evs))"
    "EvFact e = EvFact (last (filter (\<lambda>ev. Key (EvFact ev) = k) evs))"
    "EvPrev e = EvPrev (hd (filter (\<lambda>ev. Key (EvFact ev) = k) evs))"
proof -
  let ?l = "filter (\<lambda>ev. Key (EvFact ev) = k) evs"
  have l: "?l \<noteq> []" "e = (last ?l)\<lparr>EvPrev := EvPrev (hd ?l)\<rparr>" using assms by (auto simp: coalesced_def Let_def split: if_splits)
  have mem: "last ?l \<in> set ?l" by (rule last_in_set [OF l(1)])
  show "Key (EvFact e) = k" using mem l(2) by simp
  show "\<exists>x\<in>set evs. EvType e = EvType x" using mem l(2) by (intro bexI [of _ "last ?l"]) simp_all
  show "?l \<noteq> []" by (rule l(1))
  show "EvType e = EvType (last ?l)" "EvFact e = EvFact (last ?l)" "EvPrev e = EvPrev (hd ?l)" by (simp_all add: l(2))
qed

lemma filter_key_distinct: "distinct (map f xs) \<Longrightarrow> x \<in> set xs \<Longrightarrow> filter (\<lambda>y. f y = f x) xs = [x]"
  by (induction xs) (auto simp: filter_empty_conv image_iff)

lemma find_hd_filter: "filter P xs \<noteq> [] \<Longrightarrow> find P xs = Some (hd (filter P xs))"
  by (induction xs) auto

subsection \<open>Properties\<close>


definition exampleController :: "unit Controller" where
  "exampleController =
     \<lparr>ctName = ''scheduler'', ctWatch = [''placement/''],
      ctReconcile = (\<lambda>fs c. (Inr [putChange [] ''placement/instance/a'' ''n1''], c)),
      ctReconcileDelta = None, ctPostCommit = None\<rparr>"



text \<open>Seventy-two changes in groups of three: twenty groups are committed.\<close>

definition threeChanges :: "char \<Rightarrow> Change list" where
  "threeChanges g = map (\<lambda>k. putChange [g] (g # k) []) [''1'', ''2'', ''3'']"


text \<open>C10. What the runner commits always fits one transaction: the compares and operations together
  stay within the store's limit, whatever the number of changes, scanned facts and configured guards.\<close>

theorem transaction_within_limit:
  assumes "prepareTransaction rn ctl fs cs = Inr (Some (cmps, ops))"
  shows "length cmps + length ops \<le> memoryStoreTransactionOperationLimit \<and>
    (\<forall>s. \<not> isClosed s \<longrightarrow> fst (Transaction cmps ops [] s) = Inr (preconditionsHold cmps (facts s)))"
proof -
  note fits = prepare_spec(1) [OF assms]
  have "fst (Transaction cmps ops [] s) = Inr (preconditionsHold cmps (facts s))" if "\<not> isClosed s" for s
  proof -
    obtain u met ev where td: "TransactionData cmps ops [] s = (u, met, ev)" by (metis prod.exhaust)
    with TransactionData_events [OF td] fits that show ?thesis by (simp add: Transaction_def Let_def)
  qed
  with fits show ?thesis by blast
qed

definition guardFacts :: "Fact list" where
  "guardFacts = map (\<lambda>k. \<lparr>Key = ''placement/'' @ k, Value = [], Revision = 1, CreateRevision = 1, LeaseID = 0\<rparr>)
     [''b'', ''c'', ''d'', ''e'']"

text \<open>One change, four scanned facts inside the write domain and at most two guards of inputs.\<close>

theorem transaction_within_limit_witness:
  "\<exists>cmps ops. prepareTransaction (SetMaxInputKeyGuards 2 NewRunner) exampleController guardFacts [putChange [] ''placement/a'' ''n1''] =
       Inr (Some (cmps, ops)) \<and>
     length cmps = 3 \<and> length ops = 1 \<and> length cmps + length ops \<le> memoryStoreTransactionOperationLimit"
proof -
  have "case prepareTransaction (SetMaxInputKeyGuards 2 NewRunner) exampleController guardFacts [putChange [] ''placement/a'' ''n1''] of
      Inr (Some (cmps, ops)) \<Rightarrow> length cmps = 3 \<and> length ops = 1 | _ \<Rightarrow> False" by code_simp
  then obtain cmps ops where r: "prepareTransaction (SetMaxInputKeyGuards 2 NewRunner) exampleController guardFacts
      [putChange [] ''placement/a'' ''n1''] = Inr (Some (cmps, ops))" "length cmps = 3" "length ops = 1"
    by (auto split: sum.splits option.splits prod.splits)
  from transaction_within_limit [OF r(1)] r show ?thesis by blast
qed

text \<open>C11. Coalescing loses nothing that a controller can see. For put and delete events the drained
  buffer has one event per key, it turns any view of the facts into the same view as the whole
  stream of events does, and every event of it carries the previous fact of the first event of its key.\<close>

theorem coalesced_delta_equivalent:
  assumes "\<forall>ev\<in>set evs. EvType ev \<in> {EventPut, EventDelete}"
  shows "let drained = fst (drain (bufferOf evs))
    in distinct (map (\<lambda>ev. Key (EvFact ev)) drained) \<and> fold applyEvent drained m = fold applyEvent evs m \<and>
       (\<forall>d\<in>set drained. \<exists>first\<in>set evs. Some first = find (\<lambda>ev. Key (EvFact ev) = Key (EvFact d)) evs \<and> EvPrev d = EvPrev first)"
proof -
  let ?b = "bufferOf evs" and ?d = "map snd (coalescedEvents (bufferOf evs))"
  note inv = bufferOf_inv [of evs]
  have drained: "fst (drain ?b) = ?d" using inv by (simp add: drain_def)
  have pair: "coalesced evs k = Some d" if "(k, d) \<in> set (coalescedEvents ?b)" for k d
    using that inv by (metis map_of_is_SomeI)
  have mem: "d \<in> set ?d \<longleftrightarrow> coalesced evs (Key (EvFact d)) = Some d" for d
  proof
    assume "d \<in> set ?d"
    then obtain k where "(k, d) \<in> set (coalescedEvents ?b)" by auto
    from pair [OF this] show "coalesced evs (Key (EvFact d)) = Some d" using coalesced_last(1) by metis
  next
    assume "coalesced evs (Key (EvFact d)) = Some d"
    then have "(Key (EvFact d), d) \<in> set (coalescedEvents ?b)" using inv by (metis map_of_SomeD)
    then show "d \<in> set ?d" by force
  qed
  have "map (\<lambda>ev. Key (EvFact ev)) ?d = map fst (coalescedEvents ?b)"
    unfolding map_map by (rule map_cong) (auto dest!: pair dest: coalesced_last(1))
  then have dist: "distinct (map (\<lambda>ev. Key (EvFact ev)) ?d)" using inv by metis
  have tys: "\<forall>ev\<in>set ?d. EvType ev \<in> {EventPut, EventDelete}"
  proof
    fix d assume "d \<in> set ?d"
    then have "coalesced evs (Key (EvFact d)) = Some d" using mem by simp
    from coalesced_last(2) [OF this] assms show "EvType d \<in> {EventPut, EventDelete}" by auto
  qed
  have "fold applyEvent ?d m k = fold applyEvent evs m k" for k
  proof (cases "coalesced evs k")
    case None
    have "filter (\<lambda>ev. Key (EvFact ev) = k) ?d = []" using mem None by (auto simp: filter_empty_conv simp del: set_map)
    moreover have "filter (\<lambda>ev. Key (EvFact ev) = k) evs = []" using None by (auto simp: coalesced_def Let_def split: if_splits)
    ultimately show ?thesis unfolding fold_applyEvent [OF tys] fold_applyEvent [OF assms] by simp
  next
    case (Some e)
    note l = coalesced_last [OF Some]
    have "e \<in> set ?d" using mem Some l(1) by metis
    from filter_key_distinct [OF dist this] have "filter (\<lambda>ev. Key (EvFact ev) = k) ?d = [e]" using l(1) by metis
    then show ?thesis unfolding fold_applyEvent [OF tys] fold_applyEvent [OF assms] Let_def using l(3-5) by simp
  qed
  moreover have "\<exists>first\<in>set evs. Some first = find (\<lambda>ev. Key (EvFact ev) = Key (EvFact d)) evs \<and> EvPrev d = EvPrev first"
    if "d \<in> set ?d" for d
  proof -
    have "coalesced evs (Key (EvFact d)) = Some d" using mem that by simp
    note l = coalesced_last [OF this]
    from find_hd_filter [OF l(3)] hd_in_set [OF l(3)] l(6) show ?thesis by auto
  qed
  ultimately show ?thesis unfolding drained Let_def using dist by (simp add: fun_eq_iff)
qed

definition exampleEvent :: "EventType \<Rightarrow> string \<Rightarrow> string \<Rightarrow> Event" where
  "exampleEvent t k v = \<lparr>EvType = t, EvFact = \<lparr>Key = k, Value = v, Revision = 1, CreateRevision = 1, LeaseID = 0\<rparr>, EvPrev = None\<rparr>"

theorem coalesced_delta_equivalent_witness:
  "let evs = [exampleEvent EventPut ''a'' ''1'', exampleEvent EventPut ''b'' ''1'', exampleEvent EventPut ''a'' ''2'', exampleEvent EventDelete ''b'' []]
   in map EvType (fst (drain (bufferOf evs))) = [EventPut, EventDelete] \<and>
      fold applyEvent (fst (drain (bufferOf evs))) Map.empty = fold applyEvent evs Map.empty"
proof -
  let ?evs = "[exampleEvent EventPut ''a'' ''1'', exampleEvent EventPut ''b'' ''1'', exampleEvent EventPut ''a'' ''2'', exampleEvent EventDelete ''b'' []]"
  have "\<forall>ev\<in>set ?evs. EvType ev \<in> {EventPut, EventDelete}" by (simp add: exampleEvent_def)
  moreover have "map EvType (fst (drain (bufferOf ?evs))) = [EventPut, EventDelete]" by code_simp
  ultimately show ?thesis using coalesced_delta_equivalent [of ?evs Map.empty] by (simp add: Let_def)
qed

text \<open>The delay between conflict retries. Up to the sixtieth attempt the base delay lies between 10 and
  500 milliseconds, so the call of the random generator is defined; after the sixty-first conflict the
  64-bit product is negative and that call panics.\<close>

lemma retry_delay_bounds:
  "list_all (\<lambda>a. 10 \<le> retryBaseDelayMs a \<and> retryBaseDelayMs a \<le> 500 \<and> jitterDefined a) [0..<60] \<and> \<not> jitterDefined 60"
proof -
  have small: "wrap64 (2 ^ a) = 2 ^ a" "wrap64 (10 * 2 ^ a) = 10 * 2 ^ a" "(1 :: int) \<le> 2 ^ a" if "a \<le> 59" for a
  proof -
    have p: "(2 :: int) ^ a \<le> 2 ^ 59" by (rule power_increasing [OF that]) simp
    show "(1 :: int) \<le> 2 ^ a" by simp
    with p show "wrap64 (2 ^ a) = 2 ^ a" "wrap64 (10 * 2 ^ a) = 10 * 2 ^ a" by (simp_all add: wrap64_def)
  qed
  have "10 \<le> retryBaseDelayMs a \<and> retryBaseDelayMs a \<le> 500 \<and> jitterDefined a" if "a \<le> 59" for a
    using small [OF that]
    by (simp add: retryBaseDelayMs_def jitterDefined_def reconcileRetryBaseDelayMs_def reconcileRetryMaxDelayMs_def Let_def)
  moreover have "\<not> jitterDefined 60" by code_simp
  ultimately show ?thesis by (simp add: list_all_iff)
qed

end
