(* ===== verification/Leader_Election.thy ===== *)
theory Leader_Election
  imports Runner Go_Strconv
begin

text \<open>
  Leader election between control-plane nodes, \<^verbatim>\<open>src/controllers/leader.go\<close>, and the high-availability
  runner that starts and stops the controllers from its callbacks, \<^verbatim>\<open>src/controllers/ha_runner.go\<close>.

  Each node executes \<open>tryAcquireOrRenew\<close> and \<open>release\<close> under its own mutex, but its store calls
  interleave with those of every other node. The functions are therefore cut at their store calls:
  an \<open>ElectionPhase\<close> is the continuation of a node that waits for a call, and one definition per
  stretch between two calls says what the node does with the answer. A transaction takes effect
  in one step and its answer arrives in a later one, since the code reads the clock again
  when the answer is there. A call may be answered, refused without effect, or lose its answer
  after it took effect; the code treats every error alike, so one error value stands for all. Times
  are nanoseconds of one clock that all nodes share; skew between clocks is not modelled. The
  goroutine that runs the controllers is represented by the flag that says whether
  \<open>cancelRunner\<close> is set; logging and metrics are left out.
\<close>

subsection \<open>Election and runner of a node\<close>

record LeaderElection =
  leNodeID :: string
  leLeaseDuration :: int
  leRenewInterval :: int
  isLeader :: bool
  lastSuccessfulRenewal :: int

record LeaderElectionConfig =
  cfgNodeID :: string
  cfgLeaseDuration :: int
  cfgRenewInterval :: int

record HARunner =
  haElection :: LeaderElection
  cancelRunner :: bool

datatype CallOutcome = Answered | Refused | AnswerLost

datatype ElectionPhase =
    Idle
  | Stopped
  | LeaseRead int
  | LeaseAcquire int
  | LeaseTakeover int int
  | AcquireReply int "StoreError + bool"
  | HolderRead int
  | LeaseRenew int int
  | RenewReply int "StoreError + bool"
  | ReleaseRead
  | ReleaseCommit int
  | ReleaseReply

definition leaderLeaseKey :: string where
  "leaderLeaseKey = ''leader/controlplane''"

definition leaderLeaseHolderKey :: string where
  "leaderLeaseHolderKey = ''leader/controlplane/holder''"

definition millisecond :: int where
  "millisecond = 1000000"

definition defaultLeaderLeaseDuration :: int where
  "defaultLeaderLeaseDuration = 15000000000"

definition defaultLeaderLeaseRenewInterval :: int where
  "defaultLeaderLeaseRenewInterval = 5000000000"

text \<open>The zero \<open>time.Time\<close>, the first of January of the year 1, in nanoseconds since 1970.\<close>

definition zeroTime :: int where
  "zeroTime = - 62135596800000000000"

definition NewLeaderElection :: "LeaderElectionConfig \<Rightarrow> LeaderElection" where
  "NewLeaderElection config =
     \<lparr>leNodeID = cfgNodeID config,
      leLeaseDuration = (if cfgLeaseDuration config = 0 then defaultLeaderLeaseDuration else cfgLeaseDuration config),
      leRenewInterval = (if cfgRenewInterval config = 0 then defaultLeaderLeaseRenewInterval else cfgRenewInterval config),
      isLeader = False, lastSuccessfulRenewal = zeroTime\<rparr>"

definition NewHARunner :: "string \<Rightarrow> HARunner" where
  "NewHARunner nodeID =
     \<lparr>haElection = NewLeaderElection \<lparr>cfgNodeID = nodeID, cfgLeaseDuration = 0, cfgRenewInterval = 0\<rparr>,
      cancelRunner = False\<rparr>"

definition startControllers :: "HARunner \<Rightarrow> HARunner" where
  "startControllers h = (if cancelRunner h then h else h\<lparr>cancelRunner := True\<rparr>)"

definition stopControllers :: "HARunner \<Rightarrow> HARunner" where
  "stopControllers h = (if cancelRunner h then h\<lparr>cancelRunner := False\<rparr> else h)"

subsection \<open>Lease timestamps\<close>

text \<open>\<open>fmt.Sscanf\<close> with the verb \<open>%d\<close>: blanks, a sign, decimal digits; what follows is not read.\<close>

definition sscanfInt :: "string \<Rightarrow> int option" where
  "sscanfInt v =
     (let v1 = dropWhile (\<lambda>c. c \<in> {CHR '' '', CHR 0x09, CHR 0x0B, CHR 0x0C, CHR 0x0D}) v;
          sign = (if v1 \<noteq> [] \<and> (hd v1 = CHR ''+'' \<or> hd v1 = CHR ''-'') then [hd v1] else []);
          digits = takeWhile isDigit (drop (length sign) v1)
      in if digits = [] then None
         else case ParseInt (sign @ digits) of (n, None) \<Rightarrow> Some n | (n, Some e) \<Rightarrow> None)"

definition parseLeaseTimestamp :: "string \<Rightarrow> int" where
  "parseLeaseTimestamp v = millisecond * (case sscanfInt v of None \<Rightarrow> 0 | Some millis \<Rightarrow> millis)"

definition leaseTimestamp :: "int \<Rightarrow> string" where
  "leaseTimestamp now = Itoa (now div millisecond)"

text \<open>\<open>time.Time.Sub\<close> saturates at the bounds of a \<open>Duration\<close>.\<close>

definition timeSub :: "int \<Rightarrow> int \<Rightarrow> int" where
  "timeSub a b = max (- (2 ^ 63)) (min maxInt (a - b))"

subsection \<open>Acquiring\<close>

definition tryAcquireOrRenew :: "int \<Rightarrow> LeaderElection \<Rightarrow> ElectionPhase" where
  "tryAcquireOrRenew now e = (if isLeader e then HolderRead now else LeaseRead now)"

definition checkLease :: "int \<Rightarrow> StoreError + Fact \<Rightarrow> LeaderElection \<Rightarrow> ElectionPhase" where
  "checkLease now answer e =
     (case answer of
        Inl err \<Rightarrow> LeaseAcquire now
      | Inr leaseFact \<Rightarrow>
          if timeSub now (parseLeaseTimestamp (Value leaseFact)) > leLeaseDuration e
          then LeaseTakeover now (Revision leaseFact) else Idle)"

definition leaseOps :: "string \<Rightarrow> int \<Rightarrow> Op list" where
  "leaseOps nodeID now =
     [\<lparr>OpKind = OpPut, OpKey = leaderLeaseKey, OpValue = leaseTimestamp now\<rparr>,
      \<lparr>OpKind = OpPut, OpKey = leaderLeaseHolderKey, OpValue = nodeID\<rparr>]"

definition leaseAcquired :: "int \<Rightarrow> StoreError + bool \<Rightarrow> HARunner \<Rightarrow> HARunner" where
  "leaseAcquired clock answer h =
     (if answer = Inr True
      then startControllers (h\<lparr>haElection := (haElection h)\<lparr>isLeader := True, lastSuccessfulRenewal := clock\<rparr>\<rparr>)
      else h)"

subsection \<open>Renewing\<close>

definition relinquishLeadership :: "HARunner \<Rightarrow> HARunner" where
  "relinquishLeadership h = stopControllers (h\<lparr>haElection := (haElection h)\<lparr>isLeader := False\<rparr>\<rparr>)"

definition handleTransientRenewalFailure :: "int \<Rightarrow> HARunner \<Rightarrow> HARunner" where
  "handleTransientRenewalFailure clock h =
     (if timeSub clock (lastSuccessfulRenewal (haElection h)) > leLeaseDuration (haElection h)
      then relinquishLeadership h else h)"

definition checkHolder :: "int \<Rightarrow> int \<Rightarrow> StoreError + Fact \<Rightarrow> HARunner \<Rightarrow> HARunner \<times> ElectionPhase" where
  "checkHolder now clock answer h =
     (case answer of
        Inl err \<Rightarrow> (handleTransientRenewalFailure clock h, Idle)
      | Inr holderFact \<Rightarrow>
          if Value holderFact \<noteq> leNodeID (haElection h) then (relinquishLeadership h, Idle)
          else (h, LeaseRenew now (Revision holderFact)))"

definition renewOps :: "int \<Rightarrow> Op list" where
  "renewOps now = [\<lparr>OpKind = OpPut, OpKey = leaderLeaseKey, OpValue = leaseTimestamp now\<rparr>]"

definition leaseRenewed :: "int \<Rightarrow> StoreError + bool \<Rightarrow> HARunner \<Rightarrow> HARunner" where
  "leaseRenewed clock answer h =
     (case answer of
        Inl err \<Rightarrow> handleTransientRenewalFailure clock h
      | Inr renewed \<Rightarrow>
          if \<not> renewed then relinquishLeadership h
          else h\<lparr>haElection := (haElection h)\<lparr>lastSuccessfulRenewal := clock\<rparr>\<rparr>)"

subsection \<open>Releasing\<close>

definition release :: "LeaderElection \<Rightarrow> ElectionPhase" where
  "release e = (if \<not> isLeader e then Stopped else ReleaseRead)"

definition checkReleaseHolder :: "StoreError + Fact \<Rightarrow> HARunner \<Rightarrow> HARunner \<times> ElectionPhase" where
  "checkReleaseHolder answer h =
     (case answer of
        Inl err \<Rightarrow> (h\<lparr>haElection := (haElection h)\<lparr>isLeader := False\<rparr>\<rparr>, Stopped)
      | Inr holderFact \<Rightarrow>
          if Value holderFact \<noteq> leNodeID (haElection h)
          then (h\<lparr>haElection := (haElection h)\<lparr>isLeader := False\<rparr>\<rparr>, Stopped)
          else (h, ReleaseCommit (Revision holderFact)))"

definition releaseOps :: "Op list" where
  "releaseOps =
     [\<lparr>OpKind = OpDelete, OpKey = leaderLeaseKey, OpValue = []\<rparr>,
      \<lparr>OpKind = OpDelete, OpKey = leaderLeaseHolderKey, OpValue = []\<rparr>]"

definition leaseReleased :: "HARunner \<Rightarrow> HARunner" where
  "leaseReleased h = stopControllers (h\<lparr>haElection := (haElection h)\<lparr>isLeader := False\<rparr>\<rparr>)"

definition CurrentLeader :: "MemoryStore \<Rightarrow> string" where
  "CurrentLeader s = (case Get leaderLeaseHolderKey s of Inl err \<Rightarrow> [] | Inr holderFact \<Rightarrow> Value holderFact)"

subsection \<open>The control plane\<close>

definition answered :: "CallOutcome \<Rightarrow> StoreError + 'a \<Rightarrow> StoreError + 'a" where
  "answered oc r = (if oc = Answered then r else Inl ErrStoreClosed)"

definition transact :: "CallOutcome \<Rightarrow> Compare list \<Rightarrow> Op list \<Rightarrow> MemoryStore \<Rightarrow> (StoreError + bool) \<times> MemoryStore" where
  "transact oc cmps ops s =
     (if oc = Refused then (Inl ErrStoreClosed, s)
      else let (r, s') = Transaction cmps ops [] s in (answered oc r, s'))"

type_synonym electionNode = "HARunner \<times> ElectionPhase"

text \<open>The store call a node waits for, with the stretch of code that prepares it and, for a read, the
  stretch that handles the answer.\<close>

fun performCall :: "CallOutcome \<Rightarrow> int \<Rightarrow> electionNode \<Rightarrow> MemoryStore \<Rightarrow> (electionNode \<times> MemoryStore) option" where
  "performCall oc clock (h, LeaseRead now) s =
     Some ((h, checkLease now (answered oc (Get leaderLeaseKey s)) (haElection h)), s)"
| "performCall oc clock (h, LeaseAcquire now) s =
     (let (r, s') = transact oc [\<lparr>CmpKey = leaderLeaseKey, CmpRevision = 0\<rparr>] (leaseOps (leNodeID (haElection h)) now) s
      in Some ((h, AcquireReply now r), s'))"
| "performCall oc clock (h, LeaseTakeover now rv) s =
     (let (r, s') = transact oc [\<lparr>CmpKey = leaderLeaseKey, CmpRevision = rv\<rparr>] (leaseOps (leNodeID (haElection h)) now) s
      in Some ((h, AcquireReply now r), s'))"
| "performCall oc clock (h, HolderRead now) s =
     Some (checkHolder now clock (answered oc (Get leaderLeaseHolderKey s)) h, s)"
| "performCall oc clock (h, LeaseRenew now rv) s =
     (let (r, s') = transact oc [\<lparr>CmpKey = leaderLeaseHolderKey, CmpRevision = rv\<rparr>] (renewOps now) s
      in Some ((h, RenewReply now r), s'))"
| "performCall oc clock (h, ReleaseRead) s =
     Some (checkReleaseHolder (answered oc (Get leaderLeaseHolderKey s)) h, s)"
| "performCall oc clock (h, ReleaseCommit rv) s =
     (let (r, s') = transact oc [\<lparr>CmpKey = leaderLeaseHolderKey, CmpRevision = rv\<rparr>] releaseOps s
      in Some ((h, ReleaseReply), s'))"
| "performCall oc clock (h, p) s = None"

text \<open>The answer to a transaction arrives, at most \<open>\<delta>\<close> after the clock was read for it.\<close>

fun handleReply :: "int \<Rightarrow> int \<Rightarrow> electionNode \<Rightarrow> electionNode option" where
  "handleReply \<delta> clock (h, AcquireReply now r) =
     (if clock \<le> now + \<delta> then Some (leaseAcquired clock r h, Idle) else None)"
| "handleReply \<delta> clock (h, RenewReply now r) =
     (if clock \<le> now + \<delta> then Some (leaseRenewed clock r h, Idle) else None)"
| "handleReply \<delta> clock (h, ReleaseReply) = Some (leaseReleased h, Stopped)"
| "handleReply \<delta> clock (h, p) = None"

record controlPlane =
  cpStore :: MemoryStore
  cpNodes :: "string \<Rightarrow> electionNode"
  cpClock :: int

datatype electionAction =
  Advance int | Tick string | Shutdown string | Restart string | Call string CallOutcome | Reply string

definition setNode :: "string \<Rightarrow> electionNode \<Rightarrow> controlPlane \<Rightarrow> controlPlane" where
  "setNode n x cp = cp\<lparr>cpNodes := (cpNodes cp)(n := x)\<rparr>"

text \<open>One step of the control plane: time passes, a timer of \<open>Run\<close> fires or its context ends, a process is
  restarted, a store call takes effect, or the answer to a transaction arrives.\<close>

fun electionStep :: "int \<Rightarrow> electionAction \<Rightarrow> controlPlane \<Rightarrow> controlPlane option" where
  "electionStep \<delta> (Advance t) cp = (if cpClock cp \<le> t \<and> in64 t then Some (cp\<lparr>cpClock := t\<rparr>) else None)"
| "electionStep \<delta> (Tick n) cp =
     (case cpNodes cp n of (h, p) \<Rightarrow>
        if p = Idle then Some (setNode n (h, tryAcquireOrRenew (cpClock cp) (haElection h)) cp) else None)"
| "electionStep \<delta> (Shutdown n) cp =
     (case cpNodes cp n of (h, p) \<Rightarrow>
        if p = Idle then Some (setNode n (h, release (haElection h)) cp) else None)"
| "electionStep \<delta> (Restart n) cp = Some (setNode n (NewHARunner n, Idle) cp)"
| "electionStep \<delta> (Call n oc) cp =
     (case performCall oc (cpClock cp) (cpNodes cp n) (cpStore cp) of
        None \<Rightarrow> None
      | Some (x, s) \<Rightarrow> Some (setNode n x (cp\<lparr>cpStore := s\<rparr>)))"
| "electionStep \<delta> (Reply n) cp =
     (case handleReply \<delta> (cpClock cp) (cpNodes cp n) of None \<Rightarrow> None | Some x \<Rightarrow> Some (setNode n x cp))"

fun runElection :: "int \<Rightarrow> electionAction list \<Rightarrow> controlPlane \<Rightarrow> controlPlane option" where
  "runElection \<delta> [] cp = Some cp"
| "runElection \<delta> (a # as) cp =
     (case electionStep \<delta> a cp of None \<Rightarrow> None | Some cp' \<Rightarrow> runElection \<delta> as cp')"

definition initialControlPlane :: "MemoryStore \<Rightarrow> controlPlane" where
  "initialControlPlane s = \<lparr>cpStore = s, cpNodes = (\<lambda>n. (NewHARunner n, Idle)), cpClock = 0\<rparr>"

text \<open>The control plane starts on a store without a lease. Every other client of the store may do what it
  likes except write the two keys of the election.\<close>

inductive election_reachable :: "int \<Rightarrow> controlPlane \<Rightarrow> bool" for \<delta> where
  start: "dataInv s \<Longrightarrow> facts s leaderLeaseKey = None \<Longrightarrow> facts s leaderLeaseHolderKey = None \<Longrightarrow>
    election_reachable \<delta> (initialControlPlane s)"
| act: "election_reachable \<delta> cp \<Longrightarrow> electionStep \<delta> a cp = Some cp' \<Longrightarrow> election_reachable \<delta> cp'"
| other: "election_reachable \<delta> cp \<Longrightarrow> mem_steps (cpStore cp, P) (s, P') \<Longrightarrow>
    facts s leaderLeaseKey = facts (cpStore cp) leaderLeaseKey \<Longrightarrow>
    facts s leaderLeaseHolderKey = facts (cpStore cp) leaderLeaseHolderKey \<Longrightarrow>
    election_reachable \<delta> (cp\<lparr>cpStore := s\<rparr>)"
subsection \<open>Lemmas\<close>

abbreviation leaseValue :: "MemoryStore \<Rightarrow> string option" where
  "leaseValue s \<equiv> storeValues s leaderLeaseKey"

abbreviation holderValue :: "MemoryStore \<Rightarrow> string option" where
  "holderValue s \<equiv> storeValues s leaderLeaseHolderKey"

lemma leader_keys [simp]: "leaderLeaseKey \<noteq> leaderLeaseHolderKey" "leaderLeaseHolderKey \<noteq> leaderLeaseKey"
  by (simp_all add: leaderLeaseKey_def leaderLeaseHolderKey_def)

lemma runner_callbacks [simp]:
  "haElection (startControllers h) = haElection h" "haElection (stopControllers h) = haElection h"
  "cancelRunner (startControllers h)" "\<not> cancelRunner (stopControllers h)"
  by (simp_all add: startControllers_def stopControllers_def)

lemma timeSub_gt: "D < timeSub a b \<Longrightarrow> - (2 ^ 63) \<le> D \<Longrightarrow> D < a - b"
  unfolding timeSub_def by linarith

lemma digits_utoa: "\<forall>c\<in>set (utoa n). isDigit c"
proof (induction n rule: utoa.induct)
  case (1 n)
  then show ?case by (auto simp: utoa.simps [of n] isDigit_def digitChar_def)
qed

lemma sscanfInt_Itoa: "0 \<le> n \<Longrightarrow> in64 n \<Longrightarrow> sscanfInt (Itoa n) = Some n"
proof -
  assume n: "0 \<le> n" "in64 n"
  let ?v = "utoa (nat n)"
  have it: "Itoa n = ?v" using n(1) by (simp add: Itoa_def)
  obtain c cs where v: "?v = c # cs" by (metis utoa_nonempty list.exhaust)
  have c: "isDigit c" using utoa_hd [of "nat n"] v by simp
  then have ns: "c \<notin> {CHR '' '', CHR 0x09, CHR 0x0B, CHR 0x0C, CHR 0x0D}" "c \<noteq> CHR ''+''" "c \<noteq> CHR ''-''"
    by (auto simp: isDigit_def)
  have tw: "takeWhile isDigit ?v = ?v" using digits_utoa by (simp add: takeWhile_eq_all_conv)
  have dw: "dropWhile (\<lambda>c. c \<in> {CHR '' '', CHR 0x09, CHR 0x0B, CHR 0x0C, CHR 0x0D}) ?v = ?v"
    unfolding v using ns(1) by simp
  have "ParseInt ?v = (n, None)" using ParseInt_Itoa [OF n(2)] it by simp
  moreover have "hd ?v = c" by (simp add: v)
  ultimately show ?thesis unfolding it sscanfInt_def Let_def dw using ns(2,3) tw v by simp
qed

lemma leaseTimestamp_bounds:
  assumes "0 \<le> now" and "in64 now"
  shows "now < parseLeaseTimestamp (leaseTimestamp now) + millisecond"
proof -
  let ?d = "now div millisecond"
  have m: "millisecond * ?d + now mod millisecond = now" by (rule mult_div_mod_eq)
  have r: "0 \<le> now mod millisecond" "now mod millisecond < millisecond" by (simp_all add: millisecond_def)
  have d: "0 \<le> ?d" using assms(1) by (simp add: millisecond_def pos_imp_zdiv_nonneg_iff)
  have "?d \<le> now" using m r d unfolding millisecond_def by linarith
  with d have "in64 ?d" using assms(2) by (simp add: in64_def)
  then have "parseLeaseTimestamp (leaseTimestamp now) = millisecond * ?d"
    using sscanfInt_Itoa [OF d] by (simp add: parseLeaseTimestamp_def leaseTimestamp_def)
  with m r show ?thesis by linarith
qed

lemma transact_effect:
  assumes "transact oc cmps ops s = (r, s')" and "dataInv s"
  shows "dataInv s'" and "freshWrites s s'"
    and "storeValues s' = storeValues s \<or> preconditionsHold cmps (facts s) \<and> storeValues s' = fold specOp ops (storeValues s)"
    and "r = Inr True \<Longrightarrow> preconditionsHold cmps (facts s) \<and> storeValues s' = fold specOp ops (storeValues s)"
proof -
  obtain s1 met evs where t: "TransactionData cmps ops [] s = (s1, met, evs)" by (metis prod.exhaust)
  note ev = TransactionData_events [OF t] and st = TransactionData_step [OF t assms(2)]
  have f: "\<not> met \<Longrightarrow> facts s1 = facts s"
    using t by (auto simp: TransactionData_def Let_def split: if_splits prod.splits)
  have c: "s' = s \<and> r \<noteq> Inr True \<or> s' = broadcastAll evs s1 \<and> (r = Inr True \<longrightarrow> met)"
    using assms(1) t by (auto simp: transact_def Transaction_def answered_def Let_def split: if_splits prod.splits)
  have "dataInv s' \<and> freshWrites s s' \<and>
    (storeValues s' = storeValues s \<or> preconditionsHold cmps (facts s) \<and> storeValues s' = fold specOp ops (storeValues s)) \<and>
    (r = Inr True \<longrightarrow> preconditionsHold cmps (facts s) \<and> storeValues s' = fold specOp ops (storeValues s))"
  proof (cases "s' = s \<and> r \<noteq> Inr True")
    case True
    with assms(2) show ?thesis by simp
  next
    case False
    with c have s': "s' = broadcastAll evs s1" "r = Inr True \<longrightarrow> met" by blast+
    have bc: "facts s' = facts s1" "dataInv s'" "currentRevision s' = currentRevision s1"
      using st dataInv_cong [of s' s1] by (auto simp: s'(1))
    then have v: "storeValues s' = storeValues s1" by (simp add: storeValues_def)
    have "\<not> met \<Longrightarrow> storeValues s1 = storeValues s" using f by (simp add: storeValues_def)
    then show ?thesis using bc ev st s'(2) by (cases met) (auto simp: v freshWrites_def)
  qed
  then show "dataInv s'" "freshWrites s s'"
    "storeValues s' = storeValues s \<or> preconditionsHold cmps (facts s) \<and> storeValues s' = fold specOp ops (storeValues s)"
    "r = Inr True \<Longrightarrow> preconditionsHold cmps (facts s) \<and> storeValues s' = fold specOp ops (storeValues s)" by blast+
qed

lemma lease_ops_effect:
  "fold specOp (leaseOps n now) m leaderLeaseKey = Some (leaseTimestamp now)"
  "fold specOp (leaseOps n now) m leaderLeaseHolderKey = Some n"
  "fold specOp (renewOps now) m leaderLeaseKey = Some (leaseTimestamp now)"
  "fold specOp (renewOps now) m leaderLeaseHolderKey = m leaderLeaseHolderKey"
  "fold specOp releaseOps m leaderLeaseKey = None"
  "fold specOp releaseOps m leaderLeaseHolderKey = None"
  by (simp_all add: leaseOps_def renewOps_def releaseOps_def specOp_def)
subsection \<open>The invariant of the election\<close>

text \<open>A node claims the lease from time \<open>x\<close> on when it leads on the strength of a renewal answered
  at \<open>x + \<delta>\<close>, or when a successful transaction stamped \<open>x\<close> waits for its answer. A claim is covered when the
  store names the node as the holder of a lease stamped no earlier, or when the lease has had
  the time to expire since.\<close>

definition leading :: "electionNode \<Rightarrow> bool" where
  "leading x \<longleftrightarrow> isLeader (haElection (fst x)) \<and> snd x \<noteq> ReleaseReply"

fun pendingClaim :: "ElectionPhase \<Rightarrow> int set" where
  "pendingClaim (AcquireReply t (Inr True)) = {t}"
| "pendingClaim (RenewReply t (Inr True)) = {t}"
| "pendingClaim p = {}"

definition claims :: "int \<Rightarrow> electionNode \<Rightarrow> int set" where
  "claims \<delta> x = (if leading x then {lastSuccessfulRenewal (haElection (fst x)) - \<delta>} else {}) \<union> pendingClaim (snd x)"

definition holdsLease :: "MemoryStore \<Rightarrow> string \<Rightarrow> int \<Rightarrow> bool" where
  "holdsLease s n x \<longleftrightarrow> holderValue s = Some n \<and> (\<exists>v. leaseValue s = Some v \<and> x < parseLeaseTimestamp v + millisecond)"

definition lapsed :: "int \<Rightarrow> int \<Rightarrow> bool" where
  "lapsed c x \<longleftrightarrow> x + defaultLeaderLeaseDuration < c + millisecond"

definition covered :: "MemoryStore \<Rightarrow> int \<Rightarrow> string \<Rightarrow> int \<Rightarrow> bool" where
  "covered s c n x \<longleftrightarrow> holdsLease s n x \<or> lapsed c x"

definition sawHolder :: "MemoryStore \<Rightarrow> string \<Rightarrow> int \<Rightarrow> bool" where
  "sawHolder s n r \<longleftrightarrow> (\<exists>g. seenIn g s \<and> Key g = leaderLeaseHolderKey \<and> Value g = n \<and> Revision g = r)"

definition sawExpired :: "MemoryStore \<Rightarrow> int \<Rightarrow> int \<Rightarrow> bool" where
  "sawExpired s t r \<longleftrightarrow> (\<exists>g. seenIn g s \<and> Key g = leaderLeaseKey \<and> Revision g = r \<and>
     defaultLeaderLeaseDuration < t - parseLeaseTimestamp (Value g))"

definition phaseInv :: "MemoryStore \<Rightarrow> int \<Rightarrow> LeaderElection \<Rightarrow> ElectionPhase \<Rightarrow> bool" where
  "phaseInv s c e p \<longleftrightarrow>
     (case p of
        LeaseRead t \<Rightarrow> 0 \<le> t \<and> t \<le> c
      | LeaseAcquire t \<Rightarrow> 0 \<le> t \<and> t \<le> c
      | LeaseTakeover t r \<Rightarrow> 0 \<le> t \<and> t \<le> c \<and> sawExpired s t r
      | AcquireReply t a \<Rightarrow> 0 \<le> t \<and> t \<le> c
      | HolderRead t \<Rightarrow> 0 \<le> t \<and> t \<le> c \<and> (isLeader e \<longrightarrow> lastSuccessfulRenewal e \<le> t)
      | LeaseRenew t r \<Rightarrow> 0 \<le> t \<and> t \<le> c \<and> (isLeader e \<longrightarrow> lastSuccessfulRenewal e \<le> t) \<and> sawHolder s (leNodeID e) r
      | RenewReply t a \<Rightarrow> 0 \<le> t \<and> t \<le> c
      | ReleaseCommit r \<Rightarrow> sawHolder s (leNodeID e) r
      | _ \<Rightarrow> True)"

definition nodeInv :: "int \<Rightarrow> MemoryStore \<Rightarrow> int \<Rightarrow> string \<Rightarrow> electionNode \<Rightarrow> bool" where
  "nodeInv \<delta> s c n x \<longleftrightarrow>
     leNodeID (haElection (fst x)) = n \<and> leLeaseDuration (haElection (fst x)) = defaultLeaderLeaseDuration \<and>
     (isLeader (haElection (fst x)) \<longrightarrow> lastSuccessfulRenewal (haElection (fst x)) \<le> c) \<and>
     phaseInv s c (haElection (fst x)) (snd x) \<and> (\<forall>y\<in>claims \<delta> x. covered s c n y)"

definition clockOk :: "int \<Rightarrow> bool" where
  "clockOk c \<longleftrightarrow> 0 \<le> c \<and> in64 c"

definition storeOk :: "MemoryStore \<Rightarrow> bool" where
  "storeOk s \<longleftrightarrow> dataInv s \<and> (leaseValue s = None \<longleftrightarrow> holderValue s = None)"

definition electionInv :: "int \<Rightarrow> controlPlane \<Rightarrow> bool" where
  "electionInv \<delta> cp \<longleftrightarrow> storeOk (cpStore cp) \<and> clockOk (cpClock cp) \<and>
     (\<forall>n. nodeInv \<delta> (cpStore cp) (cpClock cp) n (cpNodes cp n))"

lemma covered_earlier: "covered s c n x \<Longrightarrow> y \<le> x \<Longrightarrow> covered s c n y"
  unfolding covered_def holdsLease_def lapsed_def by force

lemma phaseInv_later:
  assumes "phaseInv s c e p" and "freshWrites s s'" and "c \<le> c'"
  shows "phaseInv s' c' e p"
proof -
  have "sawHolder s n r \<Longrightarrow> sawHolder s' n r" "sawExpired s t r \<Longrightarrow> sawExpired s' t r" for n r t
    unfolding sawHolder_def sawExpired_def using seenIn_later [OF _ assms(2)] by blast+
  then show ?thesis using assms(1,3) unfolding phaseInv_def by (auto split: ElectionPhase.splits)
qed

text \<open>A node that does nothing keeps its part of the invariant when a store change either leaves
  the election keys alone or lapses every claim on the lease that the node might have.\<close>

lemma nodeInv_bystander:
  assumes "nodeInv \<delta> s c n x" and "freshWrites s s'" and "c \<le> c'"
    and "leaseValue s' = leaseValue s \<and> holderValue s' = holderValue s \<or> (\<forall>y. holdsLease s n y \<longrightarrow> lapsed c y)"
  shows "nodeInv \<delta> s' c' n x"
proof -
  have "covered s' c' n y" if "covered s c n y" for y
    using that assms(3,4) unfolding covered_def holdsLease_def lapsed_def by auto
  with assms(1,3) phaseInv_later [OF _ assms(2,3)] show ?thesis unfolding nodeInv_def by auto
qed

lemma seen_now: "dataInv s \<Longrightarrow> facts s k = Some f \<Longrightarrow> seenIn f s \<and> Key f = k"
  unfolding seenIn_def using dataInv_factD freshWrites_refl by metis

lemma holder_compare:
  assumes "preconditionsHold [\<lparr>CmpKey = leaderLeaseHolderKey, CmpRevision = r\<rparr>] (facts s)" and "sawHolder s n r"
  shows "holderValue s = Some n"
proof -
  obtain g where g: "seenIn g s" "Key g = leaderLeaseHolderKey" "Value g = n" "Revision g = r"
    using assms(2) unfolding sawHolder_def by blast
  have "r \<noteq> 0" using seenIn_revision [OF g(1)] g(4) by simp
  then obtain f where f: "facts s leaderLeaseHolderKey = Some f" "Revision f = r"
    using assms(1) by (auto simp: preconditionsHold_def)
  have "f = g" by (rule seenIn_same_revision [OF g(1)]) (simp_all add: f g)
  with f g show ?thesis by (simp add: storeValues_def)
qed

lemma expired_compare:
  assumes "preconditionsHold [\<lparr>CmpKey = leaderLeaseKey, CmpRevision = r\<rparr>] (facts s)" and "sawExpired s t r"
    and "t \<le> c" and "holdsLease s n y"
  shows "lapsed c y"
proof -
  obtain g where g: "seenIn g s" "Key g = leaderLeaseKey" "Revision g = r"
      "defaultLeaderLeaseDuration < t - parseLeaseTimestamp (Value g)"
    using assms(2) unfolding sawExpired_def by blast
  have "r \<noteq> 0" using seenIn_revision [OF g(1)] g(3) by simp
  then obtain f where f: "facts s leaderLeaseKey = Some f" "Revision f = r"
    using assms(1) by (auto simp: preconditionsHold_def)
  have "f = g" by (rule seenIn_same_revision [OF g(1)]) (simp_all add: f g)
  then have "leaseValue s = Some (Value g)" using f by (simp add: storeValues_def)
  with assms(3,4) g(4) show ?thesis unfolding holdsLease_def lapsed_def by auto
qed

lemma absent_compare:
  assumes "preconditionsHold [\<lparr>CmpKey = leaderLeaseKey, CmpRevision = 0\<rparr>] (facts s)"
  shows "\<not> holdsLease s n y"
  using assms unfolding preconditionsHold_def holdsLease_def by (simp add: storeValues_def)
lemma pendingClaim_reply [simp]:
  "pendingClaim (AcquireReply t r) = (if r = Inr True then {t} else {})"
  "pendingClaim (RenewReply t r) = (if r = Inr True then {t} else {})"
  by (cases r; simp)+

lemma leading_simps [simp]:
  "leading (h, p) \<longleftrightarrow> isLeader (haElection h) \<and> p \<noteq> ReleaseReply"
  by (simp add: leading_def)

lemma claims_simps: "claims \<delta> (h, p) =
    (if isLeader (haElection h) \<and> p \<noteq> ReleaseReply then {lastSuccessfulRenewal (haElection h) - \<delta>} else {}) \<union> pendingClaim p"
  by (simp add: claims_def)

definition callOk :: "int \<Rightarrow> MemoryStore \<Rightarrow> int \<Rightarrow> string \<Rightarrow> electionNode \<Rightarrow> MemoryStore \<Rightarrow> bool" where
  "callOk \<delta> s c n x s' \<longleftrightarrow> storeOk s' \<and> freshWrites s s' \<and> nodeInv \<delta> s' c n x \<and>
     (\<forall>m. m \<noteq> n \<longrightarrow> leaseValue s' = leaseValue s \<and> holderValue s' = holderValue s \<or> (\<forall>y. holdsLease s m y \<longrightarrow> lapsed c y))"

lemma stamp_after: "clockOk c \<Longrightarrow> 0 \<le> t \<Longrightarrow> t \<le> c \<Longrightarrow> t < parseLeaseTimestamp (leaseTimestamp t) + millisecond"
  by (rule leaseTimestamp_bounds) (auto simp: clockOk_def in64_def)

lemma acquire_commit:
  assumes tr: "transact oc cmps (leaseOps n t) s = (r, s')" and s: "storeOk s" and c: "clockOk c"
    and inv: "nodeInv \<delta> s c n (h, p)" and p: "p \<noteq> ReleaseReply" "0 \<le> t" "t \<le> c"
    and lapse: "\<And>m y. preconditionsHold cmps (facts s) \<Longrightarrow> holdsLease s m y \<Longrightarrow> lapsed c y"
  shows "callOk \<delta> s c n (h, AcquireReply t r) s'"
proof -
  note ef = transact_effect [OF tr s [unfolded storeOk_def, THEN conjunct1]]
  have t: "t < parseLeaseTimestamp (leaseTimestamp t) + millisecond"
    by (rule stamp_after [OF c p(2,3)])
  have keys: "(leaseValue s' = leaseValue s \<and> holderValue s' = holderValue s) \<or>
      (leaseValue s' = Some (leaseTimestamp t) \<and> holderValue s' = Some n \<and> (\<forall>m y. holdsLease s m y \<longrightarrow> lapsed c y))"
    using ef(3) lapse by (auto simp: lease_ops_effect)
  have cov: "covered s' c n y" if "covered s c n y" for y
    using that keys unfolding covered_def holdsLease_def by auto
  have "covered s' c n t" if "r = Inr True"
    using ef(4) [OF that] t unfolding covered_def holdsLease_def by (simp add: lease_ops_effect)
  moreover have "covered s' c n y" if "y \<in> claims \<delta> (h, AcquireReply t r)" "\<not> (y = t \<and> r = Inr True)" for y
    using that p(1) inv cov by (auto simp: claims_simps nodeInv_def split: if_splits)
  ultimately have "nodeInv \<delta> s' c n (h, AcquireReply t r)"
    using inv p unfolding nodeInv_def by (auto simp: phaseInv_def)
  moreover have "storeOk s'" using s ef(1) keys unfolding storeOk_def by auto
  ultimately show ?thesis unfolding callOk_def using ef(2) keys by blast
qed

lemma renew_commit:
  assumes tr: "transact oc [\<lparr>CmpKey = leaderLeaseHolderKey, CmpRevision = rv\<rparr>] (renewOps t) s = (r, s')"
    and s: "storeOk s" and c: "clockOk c" and d: "0 \<le> \<delta>" and inv: "nodeInv \<delta> s c n (h, LeaseRenew t rv)"
  shows "callOk \<delta> s c n (h, RenewReply t r) s'"
proof -
  note ef = transact_effect [OF tr s [unfolded storeOk_def, THEN conjunct1]]
  have ph: "0 \<le> t" "t \<le> c" "isLeader (haElection h) \<Longrightarrow> lastSuccessfulRenewal (haElection h) \<le> t" "sawHolder s n rv"
    using inv by (auto simp: nodeInv_def phaseInv_def)
  have t: "t < parseLeaseTimestamp (leaseTimestamp t) + millisecond"
    by (rule stamp_after [OF c ph(1,2)])
  have keys: "(leaseValue s' = leaseValue s \<and> holderValue s' = holderValue s) \<or>
      (leaseValue s' = Some (leaseTimestamp t) \<and> holderValue s' = Some n \<and> holderValue s = Some n)"
    using ef(3) holder_compare [OF _ ph(4)] by (auto simp: lease_ops_effect)
  have cov: "covered s' c n y" if "covered s c n y" "y \<le> t" for y
    using that keys t unfolding covered_def holdsLease_def by auto
  have "covered s' c n t" if "r = Inr True"
    using ef(4) [OF that] holder_compare [OF _ ph(4)] t unfolding covered_def holdsLease_def by (auto simp: lease_ops_effect)
  moreover have "covered s' c n y" if "y \<in> claims \<delta> (h, RenewReply t r)" "\<not> (y = t \<and> r = Inr True)" for y
    using that inv cov ph(3) d by (auto simp: claims_simps nodeInv_def split: if_splits)
  ultimately have "nodeInv \<delta> s' c n (h, RenewReply t r)"
    using inv ph unfolding nodeInv_def by (auto simp: phaseInv_def)
  moreover have "storeOk s'" using s ef(1) keys unfolding storeOk_def by auto
  moreover have "\<forall>m. m \<noteq> n \<longrightarrow> leaseValue s' = leaseValue s \<and> holderValue s' = holderValue s \<or> (\<forall>y. holdsLease s m y \<longrightarrow> lapsed c y)"
    using keys unfolding holdsLease_def by auto
  ultimately show ?thesis unfolding callOk_def using ef(2) by blast
qed

lemma release_commit:
  assumes tr: "transact oc [\<lparr>CmpKey = leaderLeaseHolderKey, CmpRevision = rv\<rparr>] releaseOps s = (r, s')"
    and s: "storeOk s" and inv: "nodeInv \<delta> s c n (h, ReleaseCommit rv)"
  shows "callOk \<delta> s c n (h, ReleaseReply) s'"
proof -
  note ef = transact_effect [OF tr s [unfolded storeOk_def, THEN conjunct1]]
  have ph: "sawHolder s n rv" using inv by (auto simp: nodeInv_def phaseInv_def)
  have keys: "(leaseValue s' = leaseValue s \<and> holderValue s' = holderValue s) \<or>
      (leaseValue s' = None \<and> holderValue s' = None \<and> holderValue s = Some n)"
    using ef(3) holder_compare [OF _ ph] by (auto simp: lease_ops_effect)
  have "nodeInv \<delta> s' c n (h, ReleaseReply)"
    using inv unfolding nodeInv_def by (auto simp: phaseInv_def claims_simps)
  moreover have "storeOk s'" using s ef(1) keys unfolding storeOk_def by auto
  moreover have "\<forall>m. m \<noteq> n \<longrightarrow> leaseValue s' = leaseValue s \<and> holderValue s' = holderValue s \<or> (\<forall>y. holdsLease s m y \<longrightarrow> lapsed c y)"
    using keys unfolding holdsLease_def by auto
  ultimately show ?thesis unfolding callOk_def using ef(2) by blast
qed
lemma callOk_read: "storeOk s \<Longrightarrow> nodeInv \<delta> s c n x \<Longrightarrow> callOk \<delta> s c n x s"
  by (simp add: callOk_def)

lemma Get_Inr: "Get k s = Inr f \<Longrightarrow> facts s k = Some f"
  by (auto simp: Get_def split: if_splits option.splits)

lemma answered_Inr: "answered oc r = Inr f \<Longrightarrow> r = Inr f"
  by (auto simp: answered_def split: if_splits)

text \<open>What a node does to its own record never adds a claim, except for a transaction that succeeded.\<close>

lemma transient_election:
  "haElection (handleTransientRenewalFailure c h) \<in> {haElection h, (haElection h)\<lparr>isLeader := False\<rparr>}"
  "haElection (relinquishLeadership h) = (haElection h)\<lparr>isLeader := False\<rparr>"
  by (simp_all add: handleTransientRenewalFailure_def relinquishLeadership_def)

lemma nodeInv_quiet:
  assumes "nodeInv \<delta> s c n (h, p)" and "p \<noteq> ReleaseReply" and "pendingClaim p' = {}" and "phaseInv s c (haElection h') p'"
    and "haElection h' \<in> {haElection h, (haElection h)\<lparr>isLeader := False\<rparr>}"
  shows "nodeInv \<delta> s c n (h', p')"
  using assms by (auto simp: nodeInv_def claims_simps)

lemma checkLease_inv:
  assumes "nodeInv \<delta> s c n (h, LeaseRead t)" and "dataInv s"
  shows "nodeInv \<delta> s c n (h, checkLease t (answered oc (Get leaderLeaseKey s)) (haElection h))"
proof -
  have t: "0 \<le> t" "t \<le> c" and d: "leLeaseDuration (haElection h) = defaultLeaderLeaseDuration"
    using assms(1) by (auto simp: nodeInv_def phaseInv_def)
  show ?thesis
  proof (cases "answered oc (Get leaderLeaseKey s)")
    case (Inl e)
    then show ?thesis using nodeInv_quiet [OF assms(1), of "LeaseAcquire t" h] t by (simp add: checkLease_def phaseInv_def)
  next
    case (Inr f)
    have f: "seenIn f s" "Key f = leaderLeaseKey" using seen_now [OF assms(2) Get_Inr [OF answered_Inr [OF Inr]]] by simp_all
    have "sawExpired s t (Revision f)" if "defaultLeaderLeaseDuration < timeSub t (parseLeaseTimestamp (Value f))"
      using timeSub_gt [OF that] f unfolding sawExpired_def by (auto simp: defaultLeaderLeaseDuration_def)
    then show ?thesis
      using nodeInv_quiet [OF assms(1), of "LeaseTakeover t (Revision f)" h] nodeInv_quiet [OF assms(1), of Idle h] t
      by (simp add: checkLease_def Inr d phaseInv_def)
  qed
qed

lemma checkHolder_inv:
  assumes "nodeInv \<delta> s c n (h, HolderRead t)" and "dataInv s"
  shows "nodeInv \<delta> s c n (checkHolder t c (answered oc (Get leaderLeaseHolderKey s)) h)"
proof -
  have t: "0 \<le> t" "t \<le> c" "isLeader (haElection h) \<longrightarrow> lastSuccessfulRenewal (haElection h) \<le> t" and n: "leNodeID (haElection h) = n"
    using assms(1) by (auto simp: nodeInv_def phaseInv_def)
  show ?thesis
  proof (cases "answered oc (Get leaderLeaseHolderKey s)")
    case (Inl e)
    then show ?thesis
      using nodeInv_quiet [OF assms(1), of Idle "handleTransientRenewalFailure c h"] transient_election(1) [of c h]
      by (auto simp: checkHolder_def phaseInv_def)
  next
    case (Inr f)
    have f: "seenIn f s" "Key f = leaderLeaseHolderKey" using seen_now [OF assms(2) Get_Inr [OF answered_Inr [OF Inr]]] by simp_all
    have "sawHolder s n (Revision f)" if "Value f = n" using f that unfolding sawHolder_def by blast
    then show ?thesis
      using nodeInv_quiet [OF assms(1), of "LeaseRenew t (Revision f)" h]
        nodeInv_quiet [OF assms(1), of Idle "relinquishLeadership h"] t n
      by (simp add: checkHolder_def Inr phaseInv_def transient_election)
  qed
qed

lemma checkReleaseHolder_inv:
  assumes "nodeInv \<delta> s c n (h, ReleaseRead)" and "dataInv s"
  shows "nodeInv \<delta> s c n (checkReleaseHolder (answered oc (Get leaderLeaseHolderKey s)) h)"
proof -
  have n: "leNodeID (haElection h) = n" using assms(1) by (simp add: nodeInv_def)
  let ?h = "h\<lparr>haElection := (haElection h)\<lparr>isLeader := False\<rparr>\<rparr>"
  have st: "nodeInv \<delta> s c n (?h, Stopped)" using nodeInv_quiet [OF assms(1), of Stopped ?h] by (simp add: phaseInv_def)
  show ?thesis
  proof (cases "answered oc (Get leaderLeaseHolderKey s)")
    case (Inl e)
    then show ?thesis using st by (simp add: checkReleaseHolder_def)
  next
    case (Inr f)
    have f: "seenIn f s" "Key f = leaderLeaseHolderKey" using seen_now [OF assms(2) Get_Inr [OF answered_Inr [OF Inr]]] by simp_all
    have "sawHolder s n (Revision f)" if "Value f = n" using f that unfolding sawHolder_def by blast
    then show ?thesis
      using nodeInv_quiet [OF assms(1), of "ReleaseCommit (Revision f)" h] st n
      by (simp add: checkReleaseHolder_def Inr phaseInv_def)
  qed
qed

lemma performCall_ok:
  assumes "performCall oc c x s = Some (x', s')" and s: "storeOk s" and c: "clockOk c" and d: "0 \<le> \<delta>"
    and inv: "nodeInv \<delta> s c n x"
  shows "callOk \<delta> s c n x' s'"
proof -
  have data: "dataInv s" using s by (simp add: storeOk_def)
  obtain h p where x: "x = (h, p)" by (metis prod.exhaust)
  note inv' = inv [unfolded x]
  have id: "leNodeID (haElection h) = n" using inv' by (simp add: nodeInv_def)
  show ?thesis
  proof (cases p)
    case (LeaseRead t)
    then show ?thesis using assms(1) callOk_read [OF s checkLease_inv [OF inv' [unfolded LeaseRead] data]] by (auto simp: x)
  next
    case (LeaseAcquire t)
    with inv' have t: "0 \<le> t" "t \<le> c" by (auto simp: nodeInv_def phaseInv_def)
    from assms(1) LeaseAcquire obtain r where
      "transact oc [\<lparr>CmpKey = leaderLeaseKey, CmpRevision = 0\<rparr>] (leaseOps n t) s = (r, s')" "x' = (h, AcquireReply t r)"
      by (auto simp: x id split: prod.splits)
    with acquire_commit [OF _ s c inv' _ t] absent_compare show ?thesis using LeaseAcquire by blast
  next
    case (LeaseTakeover t rv)
    with inv' have t: "0 \<le> t" "t \<le> c" "sawExpired s t rv" by (auto simp: nodeInv_def phaseInv_def)
    from assms(1) LeaseTakeover obtain r where
      "transact oc [\<lparr>CmpKey = leaderLeaseKey, CmpRevision = rv\<rparr>] (leaseOps n t) s = (r, s')" "x' = (h, AcquireReply t r)"
      by (auto simp: x id split: prod.splits)
    with acquire_commit [OF _ s c inv' _ t(1,2)] expired_compare [OF _ t(3,2)] show ?thesis using LeaseTakeover by blast
  next
    case (HolderRead t)
    then show ?thesis using assms(1) callOk_read [OF s checkHolder_inv [OF inv' [unfolded HolderRead] data]] by (auto simp: x)
  next
    case (LeaseRenew t rv)
    from assms(1) LeaseRenew obtain r where
      "transact oc [\<lparr>CmpKey = leaderLeaseHolderKey, CmpRevision = rv\<rparr>] (renewOps t) s = (r, s')" "x' = (h, RenewReply t r)"
      by (auto simp: x split: prod.splits)
    with renew_commit [OF _ s c d inv' [unfolded LeaseRenew]] show ?thesis by blast
  next
    case ReleaseRead
    then show ?thesis using assms(1) callOk_read [OF s checkReleaseHolder_inv [OF inv' [unfolded ReleaseRead] data]] by (auto simp: x)
  next
    case (ReleaseCommit rv)
    from assms(1) ReleaseCommit obtain r where
      "transact oc [\<lparr>CmpKey = leaderLeaseHolderKey, CmpRevision = rv\<rparr>] releaseOps s = (r, s')" "x' = (h, ReleaseReply)"
      by (auto simp: x split: prod.splits)
    with release_commit [OF _ s inv' [unfolded ReleaseCommit]] show ?thesis by blast
  qed (use assms(1) in \<open>simp_all add: x\<close>)
qed

lemma handleReply_inv:
  assumes "handleReply \<delta> c x = Some x'" and inv: "nodeInv \<delta> s c n x"
  shows "nodeInv \<delta> s c n x'"
proof -
  obtain h p where x: "x = (h, p)" by (metis prod.exhaust)
  note inv' = inv [unfolded x]
  show ?thesis
  proof (cases p)
    case (AcquireReply t r)
    with assms(1) have x': "x' = (leaseAcquired c r h, Idle)" and t: "c \<le> t + \<delta>" by (auto simp: x split: if_splits)
    show ?thesis
    proof (cases "r = Inr True")
      case True
      with inv' AcquireReply have "covered s c n t" by (simp add: nodeInv_def claims_simps)
      then have "covered s c n (c - \<delta>)" by (rule covered_earlier) (use t in simp)
      with inv' True show ?thesis by (simp add: x' leaseAcquired_def nodeInv_def claims_simps phaseInv_def)
    next
      case False
      then show ?thesis using nodeInv_quiet [OF inv', of Idle h] AcquireReply by (simp add: x' leaseAcquired_def phaseInv_def)
    qed
  next
    case (RenewReply t r)
    with assms(1) have x': "x' = (leaseRenewed c r h, Idle)" and t: "c \<le> t + \<delta>" by (auto simp: x split: if_splits)
    show ?thesis
    proof (cases "r = Inr True")
      case True
      with inv' RenewReply have "covered s c n t" by (simp add: nodeInv_def claims_simps)
      then have "covered s c n (c - \<delta>)" by (rule covered_earlier) (use t in simp)
      with inv' True show ?thesis by (simp add: x' leaseRenewed_def nodeInv_def claims_simps phaseInv_def)
    next
      case False
      then have "haElection (leaseRenewed c r h) \<in> {haElection h, (haElection h)\<lparr>isLeader := False\<rparr>}"
        using transient_election(1) [of c h] transient_election(2) [of h] by (cases r) (auto simp: leaseRenewed_def)
      then show ?thesis using nodeInv_quiet [OF inv', of Idle "leaseRenewed c r h"] RenewReply by (simp add: x' phaseInv_def)
    qed
  next
    case ReleaseReply
    with assms(1) have "x' = (leaseReleased h, Stopped)" by (simp add: x)
    with inv' show ?thesis by (simp add: leaseReleased_def nodeInv_def claims_simps phaseInv_def)
  qed (use assms(1) in \<open>simp_all add: x\<close>)
qed
lemma electionInv_initial:
  "dataInv s \<Longrightarrow> facts s leaderLeaseKey = None \<Longrightarrow> facts s leaderLeaseHolderKey = None \<Longrightarrow>
    electionInv \<delta> (initialControlPlane s)"
  by (auto simp: electionInv_def initialControlPlane_def storeOk_def clockOk_def in64_def nodeInv_def NewHARunner_def
      NewLeaderElection_def claims_simps phaseInv_def storeValues_def)

lemma electionInv_local:
  assumes "electionInv \<delta> cp" and "nodeInv \<delta> (cpStore cp) (cpClock cp) n x"
  shows "electionInv \<delta> (setNode n x cp)"
  using assms by (auto simp: electionInv_def setNode_def)

lemma electionInv_step:
  assumes "electionStep \<delta> a cp = Some cp'" and inv: "electionInv \<delta> cp" and d: "0 \<le> \<delta>"
  shows "electionInv \<delta> cp'"
proof -
  have node: "nodeInv \<delta> (cpStore cp) (cpClock cp) n (cpNodes cp n)" for n using inv by (simp add: electionInv_def)
  have c: "clockOk (cpClock cp)" and s: "storeOk (cpStore cp)" using inv by (simp_all add: electionInv_def)
  show ?thesis
  proof (cases a)
    case (Advance t)
    with assms(1) have t: "cpClock cp \<le> t" "in64 t" "cp' = cp\<lparr>cpClock := t\<rparr>" by (auto split: if_splits)
    have "nodeInv \<delta> (cpStore cp) t n (cpNodes cp n)" for n by (rule nodeInv_bystander [OF node _ t(1)]) simp_all
    then show ?thesis using inv t by (auto simp: electionInv_def clockOk_def)
  next
    case (Tick n)
    obtain h where h: "cpNodes cp n = (h, Idle)" "cp' = setNode n (h, tryAcquireOrRenew (cpClock cp) (haElection h)) cp"
      using assms(1) Tick by (auto split: prod.splits if_splits)
    have "nodeInv \<delta> (cpStore cp) (cpClock cp) n (h, tryAcquireOrRenew (cpClock cp) (haElection h))"
      using node [of n] c unfolding h(1) by (auto simp: tryAcquireOrRenew_def nodeInv_def claims_simps phaseInv_def clockOk_def)
    then show ?thesis unfolding h(2) by (rule electionInv_local [OF inv])
  next
    case (Shutdown n)
    obtain h where h: "cpNodes cp n = (h, Idle)" "cp' = setNode n (h, release (haElection h)) cp"
      using assms(1) Shutdown by (auto split: prod.splits if_splits)
    have "nodeInv \<delta> (cpStore cp) (cpClock cp) n (h, release (haElection h))"
      using node [of n] unfolding h(1) by (auto simp: release_def nodeInv_def claims_simps phaseInv_def)
    then show ?thesis unfolding h(2) by (rule electionInv_local [OF inv])
  next
    case (Restart n)
    have "nodeInv \<delta> (cpStore cp) (cpClock cp) n (NewHARunner n, Idle)"
      by (simp add: nodeInv_def NewHARunner_def NewLeaderElection_def claims_simps phaseInv_def)
    then show ?thesis using assms(1) Restart electionInv_local [OF inv] by auto
  next
    case (Call n oc)
    then obtain x s' where pc: "performCall oc (cpClock cp) (cpNodes cp n) (cpStore cp) = Some (x, s')"
      and cp': "cp' = setNode n x (cp\<lparr>cpStore := s'\<rparr>)"
      using assms(1) by (auto split: option.splits prod.splits)
    note ok = performCall_ok [OF pc s c d node]
    have "nodeInv \<delta> s' (cpClock cp) m (cpNodes cp m)" if "m \<noteq> n" for m
      by (rule nodeInv_bystander [OF node, of s']) (use ok that in \<open>auto simp: callOk_def\<close>)
    with ok show ?thesis using c by (auto simp: cp' electionInv_def setNode_def callOk_def)
  next
    case (Reply n)
    then obtain x where "handleReply \<delta> (cpClock cp) (cpNodes cp n) = Some x" and cp': "cp' = setNode n x cp"
      using assms(1) by (auto split: option.splits)
    then show ?thesis unfolding cp' by (intro electionInv_local [OF inv] handleReply_inv [OF _ node])
  qed
qed

lemma election_reachable_inv: "election_reachable \<delta> cp \<Longrightarrow> 0 \<le> \<delta> \<Longrightarrow> electionInv \<delta> cp"
proof (induction rule: election_reachable.induct)
  case (start s)
  then show ?case by (intro electionInv_initial)
next
  case (act cp a cp')
  then show ?case using electionInv_step by blast
next
  case (other cp P s P')
  then have inv: "electionInv \<delta> cp" by blast
  have ds: "dataInv (cpStore cp)" using inv by (simp add: electionInv_def storeOk_def)
  have s: "dataInv s" "freshWrites (cpStore cp) s" using mem_steps_inv [OF other.hyps(2)] ds by auto
  have v: "leaseValue s = leaseValue (cpStore cp)" "holderValue s = holderValue (cpStore cp)"
    using other.hyps by (simp_all add: storeValues_def)
  have "nodeInv \<delta> s (cpClock cp) n (cpNodes cp n)" for n
    by (rule nodeInv_bystander [of \<delta> "cpStore cp"]) (use inv s v in \<open>auto simp: electionInv_def\<close>)
  with inv s v show ?case by (auto simp: electionInv_def storeOk_def)
qed

subsection \<open>Properties\<close>

text \<open>C8. Leadership is exclusive up to the age of the lease. In every state that any interleaving of the
  control-plane nodes, lost and refused store calls, restarts, shutdowns and other clients can reach, when two nodes
  lead, one of them is not the holder named in the store, and that node has not had a renewal answered within
  the last lease duration less the time \<open>\<delta>\<close> a call may take and a millisecond of rounding.\<close>

theorem leader_exclusive:
  assumes "election_reachable \<delta> cp" and "0 \<le> \<delta>"
    and "leading (cpNodes cp a)" and "leading (cpNodes cp b)" and "a \<noteq> b"
  shows "\<exists>n\<in>{a, b}. holderValue (cpStore cp) \<noteq> Some n \<and>
    lastSuccessfulRenewal (haElection (fst (cpNodes cp n))) + defaultLeaderLeaseDuration < cpClock cp + \<delta> + millisecond"
proof -
  have inv: "electionInv \<delta> cp" by (rule election_reachable_inv [OF assms(1,2)])
  have old: "lastSuccessfulRenewal (haElection (fst (cpNodes cp n))) + defaultLeaderLeaseDuration < cpClock cp + \<delta> + millisecond"
    if "leading (cpNodes cp n)" "holderValue (cpStore cp) \<noteq> Some n" for n
  proof -
    let ?x = "lastSuccessfulRenewal (haElection (fst (cpNodes cp n))) - \<delta>"
    have "?x \<in> claims \<delta> (cpNodes cp n)" using that(1) by (simp add: claims_def)
    then have "covered (cpStore cp) (cpClock cp) n ?x" using inv by (simp add: electionInv_def nodeInv_def)
    with that(2) show ?thesis by (simp add: covered_def holdsLease_def lapsed_def)
  qed
  have "holderValue (cpStore cp) \<noteq> Some a \<or> holderValue (cpStore cp) \<noteq> Some b" using assms(5) by auto
  with old assms(3,4) show ?thesis by blast
qed

definition electionStore :: MemoryStore where
  "electionStore = NewMemoryStore\<lparr>eventHistory := newEventHistoryBuffer 4\<rparr>"

lemma electionStore_ok: "dataInv electionStore" "facts electionStore k = None"
  using dataInv_cong [of electionStore NewMemoryStore] dataInv_new by (simp_all add: electionStore_def)

lemma run_reachable: "runElection \<delta> as cp = Some cp' \<Longrightarrow> election_reachable \<delta> cp \<Longrightarrow> election_reachable \<delta> cp'"
  by (induction as arbitrary: cp) (auto split: option.splits intro: election_reachable.act)

lemma example_run:
  "(case runElection \<delta> as (initialControlPlane electionStore) of None \<Rightarrow> False | Some cp \<Rightarrow> P cp) \<Longrightarrow>
     \<exists>cp. election_reachable \<delta> cp \<and> P cp"
  using run_reachable [OF _ election_reachable.start [OF electionStore_ok(1) electionStore_ok(2) electionStore_ok(2)]] by (auto split: option.splits)

text \<open>In the run below the lease of \<open>a\<close> is stamped one second before the answer arrives.\<close>

definition overlapRun :: "electionAction list" where
  "overlapRun =
     [Advance 1000000000, Tick ''a'', Call ''a'' Answered, Call ''a'' Answered, Advance 2000000000, Reply ''a'',
      Advance 16001000000, Tick ''b'', Call ''b'' Answered, Call ''b'' Answered, Reply ''b'']"

theorem leader_exclusive_witness:
  "\<exists>cp. election_reachable 1000000000 cp \<and> leading (cpNodes cp ''a'') \<and> leading (cpNodes cp ''b'') \<and>
     (\<exists>n\<in>{''a'', ''b''}. holderValue (cpStore cp) \<noteq> Some n \<and>
        lastSuccessfulRenewal (haElection (fst (cpNodes cp n))) + defaultLeaderLeaseDuration < cpClock cp + 1000000000 + millisecond)"
proof -
  have "case runElection 1000000000 overlapRun (initialControlPlane electionStore) of None \<Rightarrow> False
      | Some cp \<Rightarrow> leading (cpNodes cp ''a'') \<and> leading (cpNodes cp ''b'')" by code_simp
  from example_run [OF this] obtain cp where
    cp: "election_reachable 1000000000 cp" "leading (cpNodes cp ''a'')" "leading (cpNodes cp ''b'')" by blast
  with leader_exclusive [OF cp(1) _ cp(2,3)] show ?thesis by auto
qed

text \<open>C38. Two nodes can lead within the lease duration that both of them measure. The stamp of a lease is read
  before the transaction that writes it and \<open>lastSuccessfulRenewal\<close> after its answer. When an answer takes a second,
  a second node takes over while the first still counts its last renewal as valid: a renewal failure at
  this moment does not make it step down, and the controllers of both run.\<close>

theorem leaders_overlap_within_lease:
  "\<exists>cp. election_reachable 1000000000 cp \<and>
     list_all (\<lambda>n. leading (cpNodes cp n) \<and> cancelRunner (fst (cpNodes cp n)) \<and>
        cpClock cp - lastSuccessfulRenewal (haElection (fst (cpNodes cp n))) \<le> defaultLeaderLeaseDuration \<and>
        handleTransientRenewalFailure (cpClock cp) (fst (cpNodes cp n)) = fst (cpNodes cp n)) [''a'', ''b'']"
  by (rule example_run [of _ _ overlapRun]) code_simp

text \<open>The two ways in which a shutdown goes wrong: the holder cannot be read, or the answer to the
  deletion of the lease is still on its way.\<close>

definition orphanRun :: "electionAction list" where
  "orphanRun =
     [Tick ''a'', Call ''a'' Answered, Call ''a'' Answered, Reply ''a'', Shutdown ''a'', Call ''a'' Refused,
      Advance 15001000000, Tick ''b'', Call ''b'' Answered, Call ''b'' Answered, Reply ''b'']"

definition earlyReleaseRun :: "electionAction list" where
  "earlyReleaseRun =
     [Tick ''a'', Call ''a'' Answered, Call ''a'' Answered, Reply ''a'', Shutdown ''a'', Call ''a'' Answered, Call ''a'' Answered,
      Tick ''b'', Call ''b'' Answered, Call ''b'' Answered, Reply ''b'']"

text \<open>C39. Controllers can outlive the release of leadership. When the holder cannot be read at
  shutdown, \<open>release\<close> clears \<open>isLeader\<close> and returns without the callback that stops the controllers: the node has
  left the election for good, its controllers still run, and another node leads with controllers of its own. And
  an orderly release deletes the lease before it stops the controllers, so that another node can lead in between
  without any delay at all.\<close>

theorem controllers_survive_release:
  "(\<exists>cp. election_reachable 0 cp \<and> snd (cpNodes cp ''a'') = Stopped \<and> \<not> isLeader (haElection (fst (cpNodes cp ''a''))) \<and>
      cancelRunner (fst (cpNodes cp ''a'')) \<and> leading (cpNodes cp ''b'') \<and> cancelRunner (fst (cpNodes cp ''b''))) \<and>
   (\<exists>cp. election_reachable 0 cp \<and> cpClock cp = 0 \<and> cancelRunner (fst (cpNodes cp ''a'')) \<and>
      leading (cpNodes cp ''b'') \<and> cancelRunner (fst (cpNodes cp ''b'')))"
proof (intro conjI)
  show "\<exists>cp. election_reachable 0 cp \<and> snd (cpNodes cp ''a'') = Stopped \<and> \<not> isLeader (haElection (fst (cpNodes cp ''a''))) \<and>
      cancelRunner (fst (cpNodes cp ''a'')) \<and> leading (cpNodes cp ''b'') \<and> cancelRunner (fst (cpNodes cp ''b''))"
    by (rule example_run [of _ _ orphanRun]) code_simp
  show "\<exists>cp. election_reachable 0 cp \<and> cpClock cp = 0 \<and> cancelRunner (fst (cpNodes cp ''a'')) \<and>
      leading (cpNodes cp ''b'') \<and> cancelRunner (fst (cpNodes cp ''b''))"
    by (rule example_run [of _ _ earlyReleaseRun]) code_simp
qed

lemma transact_open:
  assumes "\<not> isClosed s" and "preconditionsHold cmps (facts s)" and "length cmps + length ops \<le> memoryStoreTransactionOperationLimit"
    and "dataInv s"
  obtains s' where "transact Answered cmps ops s = (Inr True, s')" and "storeValues s' = fold specOp ops (storeValues s)"
    and "\<not> isClosed s'"
proof -
  obtain s1 met evs where t: "TransactionData cmps ops [] s = (s1, met, evs)" by (metis prod.exhaust)
  from TransactionData_events [OF t] assms(2) have met by simp
  moreover have "\<not> isClosed s1" using TransactionData_step [OF t assms(4)] assms(1) by (simp add: sameWatchers_def)
  ultimately have "transact Answered cmps ops s = (Inr True, broadcastAll evs s1)" "\<not> isClosed (broadcastAll evs s1)"
    using assms(1,3) t by (simp_all add: transact_def Transaction_def answered_def)
  with transact_effect(4) [OF _ assms(4)] that show ?thesis by blast
qed

text \<open>C24. A standby node takes over exactly when it may. On an open store without interference, a tick of a
  node that does not lead leaves everything as it is while the lease in the store is within the
  lease duration; when there is no lease or it has expired, the node leads at the end of the tick, its
  controllers run, the store names it as the holder, and the lease is stamped with the time of the tick.\<close>

theorem standby_takes_over:
  assumes "election_reachable \<delta> cp" and "0 \<le> \<delta>" and "\<not> isClosed (cpStore cp)"
    and "cpNodes cp n = (h, Idle)" and "\<not> isLeader (haElection h)"
  shows "if \<exists>f. facts (cpStore cp) leaderLeaseKey = Some f \<and>
           timeSub (cpClock cp) (parseLeaseTimestamp (Value f)) \<le> defaultLeaderLeaseDuration
    then runElection \<delta> [Tick n, Call n Answered] cp = Some cp
    else \<exists>cp'. runElection \<delta> [Tick n, Call n Answered, Call n Answered, Reply n] cp = Some cp' \<and>
      leading (cpNodes cp' n) \<and> cancelRunner (fst (cpNodes cp' n)) \<and> CurrentLeader (cpStore cp') = n \<and>
      leaseValue (cpStore cp') = Some (leaseTimestamp (cpClock cp))"
proof -
  let ?s = "cpStore cp" and ?now = "cpClock cp"
  have inv: "electionInv \<delta> cp" by (rule election_reachable_inv [OF assms(1,2)])
  then have "nodeInv \<delta> ?s ?now n (h, Idle)" and data: "dataInv ?s"
    unfolding electionInv_def storeOk_def assms(4) [symmetric] by blast+
  then have e: "leNodeID (haElection h) = n" "leLeaseDuration (haElection h) = defaultLeaderLeaseDuration"
    by (simp_all add: nodeInv_def)
  let ?chk = "checkLease ?now (Get leaderLeaseKey ?s) (haElection h)"
  have two: "runElection \<delta> (Tick n # Call n Answered # as) cp = runElection \<delta> as (setNode n (h, ?chk) cp)" for as
    using assms(4,5) by (simp add: tryAcquireOrRenew_def setNode_def answered_def)
  have commit: "\<exists>cp'. runElection \<delta> [Call n Answered, Reply n] (setNode n (h, p) cp) = Some cp' \<and>
      leading (cpNodes cp' n) \<and> cancelRunner (fst (cpNodes cp' n)) \<and> CurrentLeader (cpStore cp') = n \<and>
      leaseValue (cpStore cp') = Some (leaseTimestamp ?now)"
    if "p = LeaseAcquire ?now \<and> r = 0 \<or> p = LeaseTakeover ?now r"
      and "preconditionsHold [\<lparr>CmpKey = leaderLeaseKey, CmpRevision = r\<rparr>] (facts ?s)" for p r
  proof -
    note pre = that
    have len: "length [\<lparr>CmpKey = leaderLeaseKey, CmpRevision = r\<rparr>] + length (leaseOps n ?now) \<le> memoryStoreTransactionOperationLimit"
      by (simp add: leaseOps_def memoryStoreTransactionOperationLimit_def)
    obtain s' where s': "transact Answered [\<lparr>CmpKey = leaderLeaseKey, CmpRevision = r\<rparr>] (leaseOps n ?now) ?s = (Inr True, s')"
        "storeValues s' = fold specOp (leaseOps n ?now) (storeValues ?s)" "\<not> isClosed s'"
      by (rule transact_open [OF assms(3) pre(2) len data])
    have hv: "holderValue s' = Some n" "leaseValue s' = Some (leaseTimestamp ?now)" by (simp_all add: s'(2) lease_ops_effect)
    then have cl: "CurrentLeader s' = n" using s'(3) by (auto simp: CurrentLeader_def Get_def storeValues_def)
    show ?thesis using pre(1) assms(2) s'(1) hv cl by (auto simp: setNode_def e leaseAcquired_def)
  qed
  show ?thesis
  proof (cases "facts ?s leaderLeaseKey")
    case None
    then have "?chk = LeaseAcquire ?now" using assms(3) by (simp add: Get_def checkLease_def)
    then show ?thesis using None two commit [of "LeaseAcquire ?now" 0] by (simp add: preconditionsHold_def)
  next
    case (Some f)
    have r: "Revision f \<noteq> 0" using dataInv_factD [OF data Some] by simp
    show ?thesis
    proof (cases "timeSub ?now (parseLeaseTimestamp (Value f)) \<le> defaultLeaderLeaseDuration")
      case True
      then have "?chk = Idle" using assms(3) Some e by (simp add: Get_def checkLease_def)
      moreover have "setNode n (h, Idle) cp = cp" using assms(4) by (simp add: setNode_def fun_upd_idem)
      ultimately show ?thesis using True Some two [of "[]"] by simp
    next
      case False
      then have "?chk = LeaseTakeover ?now (Revision f)" using assms(3) Some e by (simp add: Get_def checkLease_def)
      then show ?thesis using False Some r two commit [of "LeaseTakeover ?now (Revision f)" "Revision f"]
        by (simp add: preconditionsHold_def)
    qed
  qed
qed

theorem standby_takes_over_witness:
  "\<exists>cp'. runElection 0 [Tick ''b'', Call ''b'' Answered, Call ''b'' Answered, Reply ''b''] (initialControlPlane electionStore) = Some cp' \<and>
     leading (cpNodes cp' ''b'') \<and> CurrentLeader (cpStore cp') = ''b''"
proof -
  let ?cp = "initialControlPlane electionStore"
  have st: "election_reachable 0 ?cp" by (rule election_reachable.start [OF electionStore_ok(1) electionStore_ok(2) electionStore_ok(2)])
  have "facts (cpStore ?cp) leaderLeaseKey = None" "\<not> isClosed (cpStore ?cp)"
    by (simp_all add: initialControlPlane_def electionStore_ok(2)) (simp add: electionStore_def)
  with standby_takes_over [OF st order_refl, of "''b''" "NewHARunner ''b''"] show ?thesis
    by (auto simp: initialControlPlane_def NewHARunner_def NewLeaderElection_def)
qed

end
