(* ===== verification/Controller_Order.thy ===== *)
theory Controller_Order
  imports Runner
begin

text \<open>
  The order of the controllers by data dependencies, \<^verbatim>\<open>src/controllers/topological_sort.go\<close>: a controller
  depends on every other one whose output prefixes overlap with the prefixes it watches, and Kahn's algorithm
  orders the controllers so that each runs after those it depends on.

  The dependency map is ranged over in an arbitrary order in Go. It is an association list here, and the
  order in which it is ranged over is an argument. The degrees are an association list as well, in which a missing
  entry reads as zero.
\<close>

subsection \<open>Kahn's algorithm\<close>

record topologicalSortResult =
  sortedControllers :: "string list"
  cyclicControllers :: "string list"

type_synonym degrees = "(string \<times> int) list"

definition degreeOf :: "degrees \<Rightarrow> string \<Rightarrow> int" where
  "degreeOf deg n = (case map_of deg n of None \<Rightarrow> 0 | Some v \<Rightarrow> v)"

definition zeroDegrees :: "string list \<Rightarrow> degrees" where
  "zeroDegrees names = fold (\<lambda>n deg. AList.update n 0 deg) names []"

definition addEdge :: "string \<times> string \<Rightarrow> degrees \<times> (string \<Rightarrow> string list) \<Rightarrow> degrees \<times> (string \<Rightarrow> string list)" where
  "addEdge e st =
     (case (e, st) of ((dependent, dependency), (deg, out)) \<Rightarrow>
        if map_of deg dependency = None then (deg, out)
        else if map_of deg dependent = None then (deg, out)
        else (AList.update dependent (degreeOf deg dependent + 1) deg, out(dependency := out dependency @ [dependent])))"

definition flatEdges :: "(string \<times> string list) list \<Rightarrow> (string \<times> string) list" where
  "flatEdges edges = concat (map (\<lambda>(dependent, ds). map (\<lambda>d. (dependent, d)) ds) edges)"

fun relax :: "string list \<Rightarrow> degrees \<Rightarrow> string list \<Rightarrow> degrees \<times> string list" where
  "relax [] deg queue = (deg, queue)"
| "relax (d # ds) deg queue =
     (let v = degreeOf deg d - 1
      in relax ds (AList.update d v deg) (if v = 0 then queue @ [d] else queue))"

definition positives :: "degrees \<Rightarrow> nat" where
  "positives deg = length (filter (\<lambda>(k, v). 0 < v) deg)"

lemma positives_update: "positives (AList.update d (degreeOf deg d - 1) deg) + (if degreeOf deg d = 1 then 1 else 0) \<le> positives deg"
  by (induction deg) (auto simp: positives_def degreeOf_def)

lemma relax_measure: "relax ds deg queue = (deg', queue') \<Longrightarrow> length queue' + positives deg' \<le> length queue + positives deg"
proof (induction ds arbitrary: deg queue)
  case (Cons d ds)
  from Cons.IH [OF Cons.prems [simplified Let_def relax.simps(2)]] positives_update [of d deg] show ?case by (auto split: if_splits)
qed simp

function kahnLoop :: "(string \<Rightarrow> string list) \<Rightarrow> degrees \<Rightarrow> string list \<Rightarrow> string list \<Rightarrow> string list" where
  "kahnLoop out deg [] sortedResult = sortedResult"
| "kahnLoop out deg (current # queue) sortedResult =
     (let (deg', queue') = relax (out current) deg queue in kahnLoop out deg' queue' (sortedResult @ [current]))"
  by pat_completeness auto
termination
  by (relation "measure (\<lambda>(out, deg, queue, res). length queue + positives deg)") (auto dest: relax_measure [OF sym])

definition topologicalSort :: "string list \<Rightarrow> (string \<times> string list) list \<Rightarrow> topologicalSortResult" where
  "topologicalSort controllerNames dependencyEdges =
     (let (deg, out) = fold addEdge (flatEdges dependencyEdges) (zeroDegrees controllerNames, \<lambda>n. []);
          queue = filter (\<lambda>n. degreeOf deg n = 0) controllerNames;
          result = kahnLoop out deg queue [];
          cyclic = (if length result < length controllerNames
                    then filter (\<lambda>n. n \<notin> set result) controllerNames else [])
      in \<lparr>sortedControllers = result, cyclicControllers = cyclic\<rparr>)"

subsection \<open>Dependencies between controllers\<close>

definition prefixOverlaps :: "string \<Rightarrow> string \<Rightarrow> bool" where
  "prefixOverlaps prefixA prefixB =
     (if length prefixA \<le> length prefixB then take (length prefixA) prefixB = prefixA
      else take (length prefixB) prefixA = prefixB)"

definition hasOverlappingPrefix :: "string list \<Rightarrow> string list \<Rightarrow> bool" where
  "hasOverlappingPrefix watchedPrefixes outputPrefixes =
     list_ex (\<lambda>watched. list_ex (\<lambda>output. prefixOverlaps watched output) outputPrefixes) watchedPrefixes"

definition outputsOf :: "string \<Rightarrow> string list" where
  "outputsOf name = (case controllerOutputPrefixes name of None \<Rightarrow> [] | Some ps \<Rightarrow> ps)"

definition addDependency :: "('c, 'x) Controller_scheme \<Rightarrow> ('c, 'x) Controller_scheme \<Rightarrow> (string \<times> string list) list \<Rightarrow>
    (string \<times> string list) list" where
  "addDependency consumer producer graph =
     (if ctName producer = ctName consumer then graph
      else if hasOverlappingPrefix (ctWatch consumer) (outputsOf (ctName producer))
      then AList.update (ctName consumer)
             ((case map_of graph (ctName consumer) of None \<Rightarrow> [] | Some ds \<Rightarrow> ds) @ [ctName producer]) graph
      else graph)"

definition buildControllerDependencyGraph :: "('c, 'x) Controller_scheme list \<Rightarrow> (string \<times> string list) list" where
  "buildControllerDependencyGraph controllers =
     fold (\<lambda>consumer graph. fold (addDependency consumer) controllers graph) controllers []"

definition controllerByName :: "('c, 'x) Controller_scheme list \<Rightarrow> string \<rightharpoonup> ('c, 'x) Controller_scheme" where
  "controllerByName controllers = map_of (rev (map (\<lambda>c. (ctName c, c)) controllers))"

definition SortControllersByDependency :: "((string \<times> string list) list \<Rightarrow> (string \<times> string list) list) \<Rightarrow>
    ('c, 'x) Controller_scheme list \<Rightarrow> ('c, 'x) Controller_scheme list \<times> string list" where
  "SortControllersByDependency rangeOrder controllers =
     (let sortResult = topologicalSort (map ctName controllers) (rangeOrder (buildControllerDependencyGraph controllers))
      in (map (\<lambda>n. the (controllerByName controllers n)) (sortedControllers sortResult), cyclicControllers sortResult))"

subsection \<open>Kahn's algorithm is correct\<close>

definition validEdges :: "string list \<Rightarrow> (string \<times> string) list \<Rightarrow> (string \<times> string) list" where
  "validEdges names es = filter (\<lambda>(a, b). a \<in> set names \<and> b \<in> set names) es"

definition pending :: "(string \<times> string) list \<Rightarrow> string set \<Rightarrow> string \<Rightarrow> nat" where
  "pending L S n = length (filter (\<lambda>(a, b). a = n \<and> b \<notin> S) L)"

lemma pending_0: "pending L S n = 0 \<longleftrightarrow> (\<forall>d. (n, d) \<in> set L \<longrightarrow> d \<in> S)"
  unfolding pending_def by (auto simp: filter_empty_conv)

lemma pending_insert:
  "c \<notin> S \<Longrightarrow> pending L S n = pending L (insert c S) n + count_list (map fst (filter (\<lambda>(a, b). b = c) L)) n"
  unfolding pending_def by (induction L) auto

lemma zeroDegrees_map: "map_of (zeroDegrees names) n = (if n \<in> set names then Some 0 else None)"
proof -
  have "map_of (fold (\<lambda>n deg. AList.update n 0 deg) names m) n = (if n \<in> set names then Some 0 else map_of m n)" for m :: degrees
    by (induction names arbitrary: m) (auto simp: update_conv')
  from this [of "[]"] show ?thesis unfolding zeroDegrees_def by simp
qed

lemma addEdges_spec:
  assumes "\<And>n. (map_of deg n \<noteq> None) = (n \<in> set names)"
  shows "case fold addEdge es (deg, out) of (deg', out') \<Rightarrow>
    (\<forall>n. (map_of deg' n \<noteq> None) = (n \<in> set names)) \<and>
    (\<forall>n\<in>set names. map_of deg' n = Some (degreeOf deg n + int (pending (validEdges names es) {} n))) \<and>
    (\<forall>c. out' c = out c @ map fst (filter (\<lambda>(a, b). b = c) (validEdges names es)))"
  using assms
proof (induction es arbitrary: deg out)
  case Nil
  then show ?case by (auto simp: degreeOf_def validEdges_def pending_def split: option.splits)
next
  case (Cons e es)
  obtain a b where e: "e = (a, b)" by (metis prod.exhaust)
  show ?case
  proof (cases "a \<in> set names \<and> b \<in> set names")
    case False
    then have "addEdge e (deg, out) = (deg, out)" using Cons.prems by (auto simp: addEdge_def e)
    moreover have "validEdges names (e # es) = validEdges names es" using False by (simp add: validEdges_def e)
    ultimately show ?thesis using Cons.IH [OF Cons.prems, of out] by simp
  next
    case True
    let ?deg = "AList.update a (degreeOf deg a + 1) deg" and ?out = "out(b := out b @ [a])"
    have add: "addEdge e (deg, out) = (?deg, ?out)" using True Cons.prems [of a] Cons.prems [of b] by (auto simp: addEdge_def e)
    have v: "validEdges names (e # es) = (a, b) # validEdges names es" using True by (simp add: validEdges_def e)
    have dom: "(map_of ?deg n \<noteq> None) = (n \<in> set names)" for n using Cons.prems True by (simp add: update_conv')
    have dg: "degreeOf ?deg n = degreeOf deg n + (if n = a then 1 else 0)" for n by (simp add: degreeOf_def update_conv')
    obtain deg' out' where f: "fold addEdge es (?deg, ?out) = (deg', out')" by (metis prod.exhaust)
    note ih = Cons.IH [OF dom, of ?out, unfolded f prod.case]
    have p: "pending ((a, b) # validEdges names es) {} n = (if n = a then 1 else 0) + pending (validEdges names es) {} n" for n
      by (simp add: pending_def)
    have "\<forall>n\<in>set names. map_of deg' n = Some (degreeOf deg n + int (pending ((a, b) # validEdges names es) {} n))"
      using ih unfolding dg p by simp
    moreover have "\<forall>c. out' c = out c @ map fst (filter (\<lambda>(a, b). b = c) ((a, b) # validEdges names es))" using ih by simp
    ultimately show ?thesis unfolding fold_Cons comp_apply add v f prod.case using ih by blast
  qed
qed

lemma relax_spec:
  assumes "relax ds deg queue = (deg', queue')" and "\<And>d. d \<in> set ds \<Longrightarrow> int (count_list ds d) \<le> degreeOf deg d"
  shows "(\<forall>n. degreeOf deg' n = degreeOf deg n - int (count_list ds n)) \<and>
    (\<forall>n. map_of deg n \<noteq> None \<longrightarrow> map_of deg' n \<noteq> None) \<and>
    (\<exists>N. queue' = queue @ N \<and> distinct N \<and> set N = {n \<in> set ds. degreeOf deg n = int (count_list ds n)})"
  using assms
proof (induction ds arbitrary: deg queue)
  case (Cons d ds)
  let ?v = "degreeOf deg d - 1"
  let ?deg = "AList.update d ?v deg"
  have dg: "degreeOf ?deg n = (if n = d then ?v else degreeOf deg n)" for n by (simp add: degreeOf_def update_conv')
  have le: "int (count_list ds n) \<le> degreeOf ?deg n" if "n \<in> set ds" for n
    using Cons.prems(2) [of n] that by (auto simp: dg split: if_splits)
  have d1: "int (count_list ds d) + 1 \<le> degreeOf deg d" using Cons.prems(2) [of d] by simp
  from Cons.prems(1) have r: "relax ds ?deg (if ?v = 0 then queue @ [d] else queue) = (deg', queue')" by (simp add: Let_def)
  from Cons.IH [OF r le] obtain N where N: "queue' = (if ?v = 0 then queue @ [d] else queue) @ N" "distinct N"
      "set N = {n \<in> set ds. degreeOf ?deg n = int (count_list ds n)}"
    and rest: "\<forall>n. degreeOf deg' n = degreeOf ?deg n - int (count_list ds n)"
      "\<forall>n. map_of ?deg n \<noteq> None \<longrightarrow> map_of deg' n \<noteq> None" by blast
  have "\<forall>n. degreeOf deg' n = degreeOf deg n - int (count_list (d # ds) n)" using rest(1) by (simp add: dg)
  moreover have "\<forall>n. map_of deg n \<noteq> None \<longrightarrow> map_of deg' n \<noteq> None" using rest(2) by (simp add: update_conv')
  moreover have "\<exists>M. queue' = queue @ M \<and> distinct M \<and> set M = {n \<in> set (d # ds). degreeOf deg n = int (count_list (d # ds) n)}"
  proof -
    define P where "P n \<longleftrightarrow> degreeOf deg n = int (count_list (d # ds) n)" for n
    have "degreeOf ?deg n = int (count_list ds n) \<longleftrightarrow> P n" for n unfolding dg P_def by auto
    then have N3: "set N = {n \<in> set ds. P n}" using N(3) by presburger
    have "\<exists>M. queue' = queue @ M \<and> distinct M \<and> set M = {n \<in> set (d # ds). P n}"
    proof (cases "?v = 0")
      case True
      then have c0: "count_list ds d = 0" using d1 by simp
      then have "d \<notin> set ds" by (simp add: count_list_0_iff)
      moreover have "P d" using True c0 by (simp add: P_def)
      ultimately have "set (d # N) = {n \<in> set (d # ds). P n}" "distinct (d # N)" using N(2) N3 by auto
      then show ?thesis using N(1) True by (intro exI [of _ "d # N"]) simp
    next
      case False
      have "d \<in> set ds" if "P d"
      proof (rule ccontr)
        assume "d \<notin> set ds"
        then have "count_list ds d = 0" by (rule count_notin)
        with that False show False by (simp add: P_def)
      qed
      then have "set N = {n \<in> set (d # ds). P n}" using N3 by auto
      then show ?thesis using N(1,2) False by (intro exI [of _ N]) simp
    qed
    then show ?thesis unfolding P_def .
  qed
  ultimately show ?case by blast
qed simp
text \<open>The invariant of the main loop: what is sorted or queued is exactly what has all its dependencies sorted, and
  the degrees count the dependencies that are not.\<close>

definition kahnInv :: "string list \<Rightarrow> (string \<times> string) list \<Rightarrow> degrees \<Rightarrow> string list \<Rightarrow> string list \<Rightarrow> bool" where
  "kahnInv names L deg queue res \<longleftrightarrow>
     distinct (res @ queue) \<and> set (res @ queue) \<subseteq> set names \<and>
     (\<forall>n\<in>set names. degreeOf deg n = int (pending L (set res) n)) \<and>
     (\<forall>n\<in>set names. n \<in> set (res @ queue) \<longleftrightarrow> pending L (set res) n = 0) \<and>
     (\<forall>i<length res. \<forall>d. (res ! i, d) \<in> set L \<longrightarrow> d \<in> set (take i res))"

abbreviation dependents :: "(string \<times> string) list \<Rightarrow> string \<Rightarrow> string list" where
  "dependents L c \<equiv> map fst (filter (\<lambda>(a, b). b = c) L)"

lemma kahnInv_step:
  assumes inv: "kahnInv names L deg (c # queue) res" and L: "set L \<subseteq> set names \<times> set names"
    and r: "relax (dependents L c) deg queue = (deg', queue')"
  shows "kahnInv names L deg' queue' (res @ [c])"
proof -
  have cS: "c \<notin> set res" "c \<in> set names" and dist: "distinct (res @ c # queue)"
    using inv by (auto simp: kahnInv_def)
  have deg: "degreeOf deg n = int (pending L (set res) n)" and mem: "n \<in> set (res @ c # queue) \<longleftrightarrow> pending L (set res) n = 0"
    if "n \<in> set names" for n using inv that unfolding kahnInv_def by blast+
  have cnt: "pending L (set res) n = pending L (insert c (set res)) n + count_list (dependents L c) n" for n
    by (rule pending_insert [OF cS(1)])
  have dn: "set (dependents L c) \<subseteq> set names" using L by auto
  have pre: "int (count_list (dependents L c) d) \<le> degreeOf deg d" if "d \<in> set (dependents L c)" for d
    using deg [of d] cnt [of d] dn that by auto
  from relax_spec [OF r pre] obtain N where dg': "\<And>n. degreeOf deg' n = degreeOf deg n - int (count_list (dependents L c) n)"
    and N: "queue' = queue @ N" "distinct N" "set N = {n \<in> set (dependents L c). degreeOf deg n = int (count_list (dependents L c) n)}"
    by blast
  have inN: "n \<in> set N \<longleftrightarrow> count_list (dependents L c) n \<noteq> 0 \<and> pending L (insert c (set res)) n = 0" if "n \<in> set names" for n
    unfolding N(3) using deg [OF that] cnt [of n] by (auto simp: count_list_0_iff)
  have Nn: "set N \<subseteq> set names" using N(3) dn by blast
  have fresh: "n \<notin> set N" if "n \<in> set (res @ c # queue)" "n \<in> set names" for n
    using mem [OF that(2)] that(1) cnt [of n] inN [OF that(2)] by simp
  have "distinct ((res @ [c]) @ queue')" using dist N(2) fresh Nn unfolding N(1) by auto
  moreover have "set ((res @ [c]) @ queue') \<subseteq> set names" using inv Nn unfolding N(1) kahnInv_def by auto
  moreover have "degreeOf deg' n = int (pending L (set (res @ [c])) n)" if "n \<in> set names" for n
    using dg' [of n] deg [OF that] cnt [of n] by simp
  moreover have "n \<in> set ((res @ [c]) @ queue') \<longleftrightarrow> pending L (set (res @ [c])) n = 0" if "n \<in> set names" for n
    using mem [OF that] inN [OF that] cnt [of n] unfolding N(1) by auto
  moreover have "d \<in> set (take i (res @ [c]))" if "i < length (res @ [c])" "((res @ [c]) ! i, d) \<in> set L" for i d
  proof (cases "i < length res")
    case True
    then show ?thesis using inv that by (simp add: kahnInv_def nth_append)
  next
    case False
    then have i: "i = length res" using that(1) by simp
    have "pending L (set res) c = 0" using mem [OF cS(2)] by simp
    with that(2) show ?thesis by (simp add: i pending_0)
  qed
  ultimately show ?thesis unfolding kahnInv_def by blast
qed

lemma kahnLoop_inv:
  assumes "kahnInv names L deg queue res" and "set L \<subseteq> set names \<times> set names" and "\<And>c. out c = dependents L c"
  shows "\<exists>deg'. kahnInv names L deg' [] (kahnLoop out deg queue res)"
  using assms(1,3)
proof (induction out deg queue res rule: kahnLoop.induct)
  case (2 out deg current queue res)
  obtain deg' queue' where r: "relax (out current) deg queue = (deg', queue')" by (metis prod.exhaust)
  have "kahnInv names L deg' queue' (res @ [current])"
    by (rule kahnInv_step [OF "2.prems"(1) assms(2)]) (use r "2.prems"(2) in simp)
  from "2.IH" [OF r [symmetric] refl this "2.prems"(2)] show ?case by (simp add: r)
qed auto

lemma topologicalSort_spec:
  assumes "distinct names" and "topologicalSort names edges = r" and "L = validEdges names (flatEdges edges)"
  shows "distinct (sortedControllers r @ cyclicControllers r)"
    and "set (sortedControllers r) \<union> set (cyclicControllers r) = set names"
    and "i < length (sortedControllers r) \<Longrightarrow> (sortedControllers r ! i, d) \<in> set L \<Longrightarrow> d \<in> set (take i (sortedControllers r))"
    and "n \<in> set (cyclicControllers r) \<Longrightarrow> \<exists>d\<in>set (cyclicControllers r). (n, d) \<in> set L"
proof -
  have dom: "(map_of (zeroDegrees names) n \<noteq> None) = (n \<in> set names)" for n by (simp add: zeroDegrees_map)
  have z: "degreeOf (zeroDegrees names) n = 0" for n by (simp add: degreeOf_def zeroDegrees_map)
  obtain deg out where f: "fold addEdge (flatEdges edges) (zeroDegrees names, \<lambda>n. []) = (deg, out)" by (metis prod.exhaust)
  note ae = addEdges_spec [OF dom, where out = "\<lambda>n. []" and es = "flatEdges edges", unfolded f prod.case assms(3) [symmetric] z]
  have dg: "degreeOf deg n = int (pending L {} n)" if "n \<in> set names" for n using ae that by (simp add: degreeOf_def)
  have LL: "set L \<subseteq> set names \<times> set names" unfolding assms(3) validEdges_def by auto
  let ?q = "filter (\<lambda>n. degreeOf deg n = 0) names"
  have "kahnInv names L deg ?q []" unfolding kahnInv_def using assms(1) dg by auto
  then obtain deg' where inv: "kahnInv names L deg' [] (kahnLoop out deg ?q [])"
    using kahnLoop_inv [OF _ LL, of deg ?q "[]" out] ae by auto
  let ?res = "kahnLoop out deg ?q []"
  have res: "distinct ?res" "set ?res \<subseteq> set names" using inv by (auto simp: kahnInv_def)
  have full: "\<not> length ?res < length names \<Longrightarrow> set ?res = set names"
    by (rule card_seteq [OF finite_set res(2)]) (simp add: distinct_card [OF res(1)] distinct_card [OF assms(1)])
  have sr: "sortedControllers r = ?res" and cr: "cyclicControllers r = filter (\<lambda>n. n \<notin> set ?res) names"
    using assms(2) full by (auto simp: topologicalSort_def f Let_def filter_empty_conv)
  show "distinct (sortedControllers r @ cyclicControllers r)" using res assms(1) by (auto simp: sr cr)
  show "set (sortedControllers r) \<union> set (cyclicControllers r) = set names" using res by (auto simp: sr cr)
  show "d \<in> set (take i (sortedControllers r))" if "i < length (sortedControllers r)" "(sortedControllers r ! i, d) \<in> set L"
    using inv that unfolding kahnInv_def sr by blast
  show "\<exists>d\<in>set (cyclicControllers r). (n, d) \<in> set L" if "n \<in> set (cyclicControllers r)"
  proof -
    have n: "n \<in> set names" "n \<notin> set ?res" using that by (auto simp: cr)
    then have "pending L (set ?res) n \<noteq> 0" using inv unfolding kahnInv_def by auto
    then obtain d where "(n, d) \<in> set L" "d \<notin> set ?res" unfolding pending_0 by blast
    then show ?thesis using LL by (auto simp: cr)
  qed
qed

subsection \<open>The dependency graph is exact\<close>

definition dependsOnController :: "('c, 'x) Controller_scheme \<Rightarrow> ('c, 'x) Controller_scheme \<Rightarrow> bool" where
  "dependsOnController c p \<longleftrightarrow> ctName p \<noteq> ctName c \<and>
     (\<exists>w\<in>set (ctWatch c). \<exists>out\<in>set (outputsOf (ctName p)). prefix w out \<or> prefix out w)"

lemma prefixOverlaps_iff: "prefixOverlaps a b \<longleftrightarrow> prefix a b \<or> prefix b a"
proof -
  have t: "take (length x) y = x \<longleftrightarrow> prefix x y" for x y :: string
    by (metis append_eq_conv_conj append_take_drop_id prefix_def)
  have "prefix b a \<Longrightarrow> length a \<le> length b \<Longrightarrow> a = b" by (metis append_Nil2 le_antisym prefix_def prefix_length_le append_eq_append_conv)
  then show ?thesis unfolding prefixOverlaps_def t using prefix_length_le [of a b] by auto
qed

lemma dependsOn_iff:
  "dependsOnController c p \<longleftrightarrow> ctName p \<noteq> ctName c \<and> hasOverlappingPrefix (ctWatch c) (outputsOf (ctName p))"
  by (simp add: dependsOnController_def hasOverlappingPrefix_def prefixOverlaps_iff list_ex_iff)

lemma flatEdges_set: "(n, d) \<in> set (flatEdges g) \<longleftrightarrow> (\<exists>ds. (n, ds) \<in> set g \<and> d \<in> set ds)"
  by (auto simp: flatEdges_def)

lemma flatEdges_update:
  "distinct (map fst g) \<Longrightarrow>
     set (flatEdges (AList.update k ((case map_of g k of None \<Rightarrow> [] | Some ds \<Rightarrow> ds) @ [d]) g)) = insert (k, d) (set (flatEdges g))"
proof (induction g)
  case (Cons x g)
  obtain k' ds where x: "x = (k', ds)" by (metis prod.exhaust)
  have split: "set (flatEdges ((a, es) # h)) = Pair a ` set es \<union> set (flatEdges h)" for a es h by (auto simp: flatEdges_def)
  show ?case
  proof (cases "k' = k")
    case True
    then show ?thesis by (auto simp: x split)
  next
    case False
    then show ?thesis using Cons by (auto simp: x split)
  qed
qed (simp add: flatEdges_def)

lemma addDependency_spec:
  assumes "distinct (map fst g)"
  shows "distinct (map fst (addDependency c p g)) \<and>
    set (flatEdges (addDependency c p g)) = set (flatEdges g) \<union> (if dependsOnController c p then {(ctName c, ctName p)} else {})"
  using assms flatEdges_update [OF assms, of "ctName c" "ctName p"] distinct_update [OF assms]
  by (auto simp: addDependency_def dependsOn_iff)

lemma addDependencies_spec:
  assumes "distinct (map fst g)"
  shows "distinct (map fst (fold (addDependency c) ps g)) \<and>
    set (flatEdges (fold (addDependency c) ps g)) =
      set (flatEdges g) \<union> {(ctName c, ctName p) |p. p \<in> set ps \<and> dependsOnController c p}"
  using assms
proof (induction ps arbitrary: g)
  case (Cons p ps)
  note s = addDependency_spec [OF Cons.prems, of c p]
  from Cons.IH [OF s [THEN conjunct1]] s show ?case by auto
qed simp

lemma graph_exact:
  "set (flatEdges (buildControllerDependencyGraph cs)) =
     {(ctName c, ctName p) |c p. c \<in> set cs \<and> p \<in> set cs \<and> dependsOnController c p}"
proof -
  have "distinct (map fst g) \<Longrightarrow>
      distinct (map fst (fold (\<lambda>c g. fold (addDependency c) cs g) ds g)) \<and>
      set (flatEdges (fold (\<lambda>c g. fold (addDependency c) cs g) ds g)) =
        set (flatEdges g) \<union> {(ctName c, ctName p) |c p. c \<in> set ds \<and> p \<in> set cs \<and> dependsOnController c p}" for ds g
  proof (induction ds arbitrary: g)
    case (Cons d ds)
    note s = addDependencies_spec [OF Cons.prems, of d cs]
    from Cons.IH [OF s [THEN conjunct1]] s show ?case by auto
  qed simp
  from this [of "[]" cs] show ?thesis by (simp add: buildControllerDependencyGraph_def flatEdges_def)
qed

lemma controllerByName_spec:
  assumes "distinct (map ctName cs)" and "c \<in> set cs"
  shows "controllerByName cs (ctName c) = Some c"
proof -
  have "distinct (map fst (rev (map (\<lambda>c. (ctName c, c)) cs)))" using assms(1) by (simp add: rev_map [symmetric] comp_def)
  then show ?thesis unfolding controllerByName_def by (rule map_of_is_SomeI) (use assms(2) in auto)
qed

subsection \<open>Properties\<close>

text \<open>C26. The dependency order is right, whatever the order in which the dependency map is ranged over. For
  controllers with distinct names, the sorted controllers and the cyclic ones together are all the controllers,
  each once; every sorted controller comes after every other controller that writes under
  a prefix it watches; and every controller reported as cyclic depends on another one that is reported as cyclic.\<close>

theorem SortControllersByDependency_correct:
  assumes "distinct (map ctName cs)" and "\<And>g. mset (rangeOrder g) = mset g"
    and "SortControllersByDependency rangeOrder cs = (sortedCs, cyc)"
  shows "distinct (map ctName sortedCs @ cyc) \<and> set (map ctName sortedCs @ cyc) = set (map ctName cs) \<and> set sortedCs \<subseteq> set cs \<and>
    (\<forall>i<length sortedCs. \<forall>p\<in>set cs. dependsOnController (sortedCs ! i) p \<longrightarrow> p \<in> set (take i sortedCs)) \<and>
    (\<forall>c\<in>set cs. ctName c \<in> set cyc \<longrightarrow> (\<exists>p\<in>set cs. ctName p \<in> set cyc \<and> dependsOnController c p))"
proof -
  let ?names = "map ctName cs" and ?g = "rangeOrder (buildControllerDependencyGraph cs)"
  define r where "r = topologicalSort ?names ?g"
  define L where "L = validEdges ?names (flatEdges ?g)"
  note spec = topologicalSort_spec [OF assms(1) r_def [symmetric] L_def]
  have "set ?g = set (buildControllerDependencyGraph cs)" using assms(2) by (metis mset_eq_setD)
  then have "set (flatEdges ?g) = {(ctName c, ctName p) |c p. c \<in> set cs \<and> p \<in> set cs \<and> dependsOnController c p}"
    unfolding graph_exact [symmetric] by (auto simp: flatEdges_def)
  then have L: "set L = {(ctName c, ctName p) |c p. c \<in> set cs \<and> p \<in> set cs \<and> dependsOnController c p}"
    by (auto simp: L_def validEdges_def)
  have inj: "c = c'" if "c \<in> set cs" "c' \<in> set cs" "ctName c = ctName c'" for c c'
    using that assms(1) by (auto simp: distinct_map dest: inj_onD)
  have sc: "sortedCs = map (\<lambda>n. the (controllerByName cs n)) (sortedControllers r)" and cyc: "cyc = cyclicControllers r"
    using assms(3) by (auto simp: SortControllersByDependency_def r_def Let_def)
  have byName: "the (controllerByName cs n) \<in> set cs \<and> ctName (the (controllerByName cs n)) = n" if "n \<in> set (sortedControllers r)" for n
  proof -
    have "n \<in> set (map ctName cs)" using spec(2) that by blast
    then obtain c where "c \<in> set cs" "n = ctName c" by auto
    then show ?thesis using controllerByName_spec [OF assms(1), of c] by simp
  qed
  have names: "map ctName sortedCs = sortedControllers r"
    unfolding sc map_map by (rule map_idI) (use byName in simp)
  have sub: "set sortedCs \<subseteq> set cs" unfolding sc using byName by auto
  have order: "p \<in> set (take i sortedCs)" if "i < length sortedCs" "p \<in> set cs" "dependsOnController (sortedCs ! i) p" for i p
  proof -
    have ci: "sortedCs ! i \<in> set cs" using nth_mem [OF that(1)] sub by blast
    have i: "sortedControllers r ! i = ctName (sortedCs ! i)" "i < length (sortedControllers r)"
      using that(1) by (simp_all add: names [symmetric])
    have "(sortedControllers r ! i, ctName p) \<in> set L" 
      unfolding L i(1) by (intro CollectI exI [of _ "sortedCs ! i"] exI [of _ p]) (use that(2,3) ci in simp)
    from spec(3) [OF i(2) this] have "ctName p \<in> set (map ctName (take i sortedCs))"
      unfolding names [symmetric] take_map .
    then obtain q where q: "q \<in> set (take i sortedCs)" "ctName p = ctName q" by auto
    have "q \<in> set cs" by (rule subsetD [OF sub in_set_takeD [OF q(1)]])
    from inj [OF that(2) this q(2)] q(1) show ?thesis by simp
  qed
  have cyclic: "\<exists>p\<in>set cs. ctName p \<in> set cyc \<and> dependsOnController c p" if "c \<in> set cs" "ctName c \<in> set cyc" for c
  proof -
    note c = that
    obtain d where "d \<in> set cyc" "(ctName c, d) \<in> set L" using spec(4) [of "ctName c"] c(2) cyc by blast
    then obtain c' p where "ctName c = ctName c'" "d = ctName p" "c' \<in> set cs" "p \<in> set cs" "dependsOnController c' p"
      unfolding L by blast
    with inj [OF c(1)] \<open>d \<in> set cyc\<close> show ?thesis by blast
  qed
  have "distinct (map ctName sortedCs @ cyc)" "set (map ctName sortedCs @ cyc) = set (map ctName cs)"
    using spec(1,2) unfolding names cyc by simp_all
  then show ?thesis using sub order cyclic by blast
qed
definition orderExample :: "unit Controller list" where
  "orderExample = map (\<lambda>(n, ws). \<lparr>ctName = n, ctWatch = ws, ctReconcile = (\<lambda>fs c. (Inr [], c)), ctReconcileDelta = None, ctPostCommit = None\<rparr>)
     [(''endpoint'', [''observed/instance/'']), (''instance'', [''effective/service/'']), (''intent-resolver'', [''desired/service/''])]"

theorem SortControllersByDependency_correct_witness:
  "\<exists>sortedCs. SortControllersByDependency id orderExample = (sortedCs, []) \<and>
     map ctName sortedCs = [''intent-resolver'', ''instance'', ''endpoint''] \<and>
     (\<forall>i<length sortedCs. \<forall>p\<in>set orderExample. dependsOnController (sortedCs ! i) p \<longrightarrow> p \<in> set (take i sortedCs))"
proof -
  have d: "distinct (map ctName orderExample)" by code_simp
  have "case SortControllersByDependency id orderExample of (cs, cyc) \<Rightarrow>
      map ctName cs = [''intent-resolver'', ''instance'', ''endpoint''] \<and> cyc = []" by code_simp
  then obtain cs where cs: "SortControllersByDependency id orderExample = (cs, [])"
      "map ctName cs = [''intent-resolver'', ''instance'', ''endpoint'']" by (auto split: prod.splits)
  with SortControllersByDependency_correct [OF d _ cs(1)] show ?thesis by simp
qed

end
