(* ===== verification/Store_Access.thy ===== *)
theory Store_Access
  imports Memory_Store Go_Strconv
begin

text \<open>
  Authorization at the store: the role-based authorizer with its builtin roles (\<^verbatim>\<open>src/security/rbac.go\<close>), the
  attribute-based one and their combination (\<^verbatim>\<open>src/security/abac.go\<close>), and the store wrapper that checks every
  operation and writes the audit trail (\<^verbatim>\<open>src/security/authorized_store.go\<close>).

  An authorizer returns \<open>None\<close> when it allows the operation and the error otherwise. Maps that the code ranges over
  are association lists; no result depends on their order. The request context is the record of the two values
  that are read from it. The audit log is the list of the entries handed to the logger, if there is one.
\<close>

subsection \<open>Roles\<close>

datatype Permission = PermissionRead | PermissionWrite | PermissionDelete | PermissionWatch

record Rule =
  KeyPrefix :: string
  Operations :: "Permission list"

record Role =
  roleName :: string
  Rules :: "Rule list"

record RoleBinding =
  bindPrincipal :: string
  bindRoleName :: string

record RBACAuthorizer =
  roles :: "string \<rightharpoonup> Role"
  bindings :: "(string \<times> string list) list"

datatype AuthError =
    NoRoleBindings string
  | RBACDenied string Permission string
  | ABACDenied string Permission string
  | BothDenied AuthError AuthError

definition NewRBACAuthorizer :: RBACAuthorizer where
  "NewRBACAuthorizer = \<lparr>roles = Map.empty, bindings = []\<rparr>"

definition AddRole :: "Role \<Rightarrow> RBACAuthorizer \<Rightarrow> RBACAuthorizer" where
  "AddRole role a = a\<lparr>roles := (roles a)(roleName role \<mapsto> role)\<rparr>"

definition BindRole :: "RoleBinding \<Rightarrow> RBACAuthorizer \<Rightarrow> RBACAuthorizer" where
  "BindRole binding a =
     a\<lparr>bindings := AList.update (bindPrincipal binding)
         ((case map_of (bindings a) (bindPrincipal binding) of None \<Rightarrow> [] | Some rs \<Rightarrow> rs) @ [bindRoleName binding]) (bindings a)\<rparr>"

definition RemoveBinding :: "string \<Rightarrow> RBACAuthorizer \<Rightarrow> RBACAuthorizer" where
  "RemoveBinding prin a = a\<lparr>bindings := AList.delete prin (bindings a)\<rparr>"

definition resolveRoleNames :: "RBACAuthorizer \<Rightarrow> string \<Rightarrow> string list" where
  "resolveRoleNames a prin =
     (case map_of (bindings a) prin of None \<Rightarrow> [] | Some rs \<Rightarrow> rs) @
     concat (map (\<lambda>(bound, rs).
         if HasSuffix bound ''*'' \<and> HasPrefix prin (TrimSuffix bound ''*'') then rs else []) (bindings a))"

definition ruleAllows :: "Permission \<Rightarrow> string \<Rightarrow> Rule \<Rightarrow> bool" where
  "ruleAllows operation key rule \<longleftrightarrow> HasPrefix key (KeyPrefix rule) \<and> operation \<in> set (Operations rule)"

definition roleAllows :: "RBACAuthorizer \<Rightarrow> Permission \<Rightarrow> string \<Rightarrow> string \<Rightarrow> bool" where
  "roleAllows a operation key r =
     (case roles a r of None \<Rightarrow> False | Some role \<Rightarrow> list_ex (ruleAllows operation key) (Rules role))"

definition rbacAuthorize :: "RBACAuthorizer \<Rightarrow> string \<Rightarrow> Permission \<Rightarrow> string \<Rightarrow> AuthError option" where
  "rbacAuthorize a prin operation key =
     (let roleNames = resolveRoleNames a prin
      in if roleNames = [] then Some (NoRoleBindings prin)
         else if list_ex (roleAllows a operation key) roleNames
         then None else Some (RBACDenied prin operation key))"

subsection \<open>Builtin roles\<close>

abbreviation readWatch :: "Permission list" where
  "readWatch \<equiv> [PermissionRead, PermissionWatch]"

abbreviation readWrite :: "Permission list" where
  "readWrite \<equiv> [PermissionRead, PermissionWrite]"

abbreviation readWriteDelete :: "Permission list" where
  "readWriteDelete \<equiv> [PermissionRead, PermissionWrite, PermissionDelete]"

definition mkRole :: "string \<Rightarrow> (string \<times> Permission list) list \<Rightarrow> Role" where
  "mkRole n rs = \<lparr>roleName = n, Rules = map (\<lambda>(p, ops). \<lparr>KeyPrefix = p, Operations = ops\<rparr>) rs\<rparr>"

definition APIServerPrincipal :: string where
  "APIServerPrincipal = ''service:api-server''"

definition apiServerRole :: Role where
  "apiServerRole = mkRole ''api-server''
     [(''desired'', readWatch), (''effective'', readWatch), (''observed'', readWatch), (''placement'', readWatch),
      (''endpoint'', readWatch), (''intent'', readWatch), (''network'', readWatch), (''derived'', readWatch),
      (''event'', readWatch), (''auth'', readWatch), (''leader'', readWatch), (''lease'', readWatch), (''policy'', readWatch),
      (''desired/'', readWrite), (''effective/'', readWrite), (''intent/'', readWrite), (''policy/network/'', readWrite),
      (''derived/service/'', readWrite), (''derived/node/'', readWrite), (''observed/node/'', readWrite),
      (''observed/metric/'', readWrite), (''auth/'', readWriteDelete), (''observed/instance/'', readWriteDelete),
      (''derived/instance/'', readWriteDelete), (''placement/'', readWriteDelete)]"

definition secretDeliveryRole :: Role where
  "secretDeliveryRole = mkRole ''secret-delivery''
     (map (\<lambda>p. (p, [PermissionRead]))
       [''secrets/'', ''desired/service/'', ''desired/connection/'', ''placement/instance/'', ''observed/instance/'',
        ''observed/node/'', ''enrollment/node/''])"

definition BuiltinRoles :: "Role list" where
  "BuiltinRoles =
     [mkRole ''cluster-admin'' [('''', [PermissionRead, PermissionWrite, PermissionDelete, PermissionWatch])],
      mkRole ''node-agent''
        [(''observed/instance/'', readWrite), (''observed/node/'', readWrite), (''observed/volume/'', readWrite),
         (''lease/node/'', readWrite), (''desired/'', readWatch), (''effective/'', readWatch), (''placement/'', readWatch),
         (''observed/credential/'', [PermissionRead]), (''derived/instance/'', [PermissionRead]),
         (''derived/credential/'', [PermissionRead])],
      mkRole ''scheduler''
        [(''placement/'', readWriteDelete), (''observed/'', readWatch), (''desired/'', readWatch), (''effective/'', readWatch)],
      mkRole ''controller''
        [(''desired/'', readWatch), (''effective/'', readWrite),
         (''observed/'', [PermissionRead, PermissionWrite, PermissionWatch]),
         (''derived/'', [PermissionRead, PermissionWrite, PermissionDelete, PermissionWatch]),
         (''intent/'', [PermissionRead, PermissionWrite, PermissionWatch]), (''placement/'', readWatch),
         (''endpoint/'', readWriteDelete), (''network/'', readWrite)],
      mkRole ''credential-broker''
        [(''desired/cloud_identity/'', readWatch), (''desired/service/'', readWatch), (''desired/credential_broker/'', readWatch),
         (''observed/instance/'', readWatch), (''observed/credential/'', [PermissionRead]),
         (''derived/credential/'', readWriteDelete), (''credentials/'', readWriteDelete)],
      mkRole ''cloud-controller''
        [(''desired/cloud/'', readWatch), (''desired/service/'', readWatch),
         (''observed/node/'', [PermissionRead, PermissionWrite, PermissionWatch]), (''observed/cloud/'', readWriteDelete),
         (''observed/instance/'', readWatch), (''endpoint/'', readWatch), (''network/node/'', readWatch)],
      mkRole ''api-reader'' [('''', readWatch)],
      mkRole ''api-writer''
        [(''desired/'', readWrite), (''intent/user/'', readWrite), (''observed/metric/'', readWrite), ('''', readWatch)],
      apiServerRole,
      secretDeliveryRole]"

subsection \<open>Attributes\<close>

record Attribute =
  AttrKey :: string
  AttrValue :: string

record ABACPolicy =
  policyName :: string
  RequiredAttributes :: "Attribute list"
  TargetKeyPrefix :: string
  AllowedOperations :: "Permission list"

record ABACAuthorizer =
  policies :: "(string \<times> ABACPolicy) list"
  principalAttributes :: "string \<rightharpoonup> Attribute list"

definition NewABACAuthorizer :: ABACAuthorizer where
  "NewABACAuthorizer = \<lparr>policies = [], principalAttributes = Map.empty\<rparr>"

definition AddPolicy :: "ABACPolicy \<Rightarrow> ABACAuthorizer \<Rightarrow> ABACAuthorizer" where
  "AddPolicy policy a = a\<lparr>policies := AList.update (policyName policy) policy (policies a)\<rparr>"

definition RemovePolicy :: "string \<Rightarrow> ABACAuthorizer \<Rightarrow> ABACAuthorizer" where
  "RemovePolicy n a = a\<lparr>policies := AList.delete n (policies a)\<rparr>"

definition SetPrincipalAttributes :: "string \<Rightarrow> Attribute list \<Rightarrow> ABACAuthorizer \<Rightarrow> ABACAuthorizer" where
  "SetPrincipalAttributes prin attributes a = a\<lparr>principalAttributes := (principalAttributes a)(prin \<mapsto> attributes)\<rparr>"

definition GetPrincipalAttributes :: "ABACAuthorizer \<Rightarrow> string \<Rightarrow> Attribute list" where
  "GetPrincipalAttributes a prin = (case principalAttributes a prin of None \<Rightarrow> [] | Some attrs \<Rightarrow> attrs)"

definition attributesMatch :: "Attribute list \<Rightarrow> Attribute list \<Rightarrow> bool" where
  "attributesMatch actuals required =
     list_all (\<lambda>r. list_ex (\<lambda>x. AttrKey x = AttrKey r \<and> AttrValue x = AttrValue r) actuals) required"

definition policyAllows :: "Attribute list \<Rightarrow> Permission \<Rightarrow> string \<Rightarrow> ABACPolicy \<Rightarrow> bool" where
  "policyAllows attrs operation key policy \<longleftrightarrow>
     HasPrefix key (TargetKeyPrefix policy) \<and> attributesMatch attrs (RequiredAttributes policy) \<and>
     operation \<in> set (AllowedOperations policy)"

definition abacAuthorize :: "ABACAuthorizer \<Rightarrow> string \<Rightarrow> Permission \<Rightarrow> string \<Rightarrow> AuthError option" where
  "abacAuthorize a prin operation key =
     (if list_ex (\<lambda>(n, policy). policyAllows (GetPrincipalAttributes a prin) operation key policy) (policies a)
      then None else Some (ABACDenied prin operation key))"

definition combinedAuthorize :: "RBACAuthorizer \<Rightarrow> ABACAuthorizer \<Rightarrow> string \<Rightarrow> Permission \<Rightarrow> string \<Rightarrow> AuthError option" where
  "combinedAuthorize r a prin operation key =
     (case rbacAuthorize r prin operation key of
        None \<Rightarrow> None
      | Some rbacErr \<Rightarrow>
          (case abacAuthorize a prin operation key of
             None \<Rightarrow> None
           | Some abacErr \<Rightarrow> Some (BothDenied rbacErr abacErr)))"

subsection \<open>The audit trail\<close>

text \<open>The pattern \<open>/secret/.*\<close> matches from the first \<open>/secret/\<close> to the end of the line, and no line end is left
  when it is applied.\<close>

fun redactSecretPath :: "string \<Rightarrow> string" where
  "redactSecretPath [] = []"
| "redactSecretPath (c # s) = (if prefix ''/secret/'' (c # s) then ''/secret/[REDACTED]'' else c # redactSecretPath s)"

definition escapeControl :: "char \<Rightarrow> string" where
  "escapeControl c =
     (if c = CHR 0x0A then [CHR 0x5C, CHR ''n''] else if c = CHR 0x0D then [CHR 0x5C, CHR ''r'']
      else if c = CHR 0x09 then [CHR 0x5C, CHR ''t''] else [c])"

definition sanitizeForAudit :: "string \<Rightarrow> string" where
  "sanitizeForAudit input = redactSecretPath (concat (map escapeControl input))"

datatype AuditDecision = AuditDecisionAllow | AuditDecisionDeny

record AuditEntry =
  auPrincipal :: string
  auAction :: string
  auTarget :: string
  auDecision :: AuditDecision
  auAuthMethod :: string
  auOnBehalfOf :: string

record RequestContext =
  ctxPrincipal :: string
  ctxAuthMethod :: string

subsection \<open>The authorizing store\<close>

type_synonym authorizer = "string \<Rightarrow> Permission \<Rightarrow> string \<Rightarrow> AuthError option"

record AuthorizedStore =
  inner :: MemoryStore
  authorize :: authorizer
  auditLog :: "AuditEntry list option"
  servicePrincipal :: string

datatype AccessError = AccessDenied AuthError | StoreFailure StoreError

definition NewAuthorizedStore :: "MemoryStore \<Rightarrow> authorizer \<Rightarrow> AuditEntry list option \<Rightarrow> AuthorizedStore" where
  "NewAuthorizedStore s a l = \<lparr>inner = s, authorize = a, auditLog = l, servicePrincipal = []\<rparr>"

definition SetServicePrincipal :: "string \<Rightarrow> AuthorizedStore \<Rightarrow> AuthorizedStore" where
  "SetServicePrincipal p a = a\<lparr>servicePrincipal := p\<rparr>"

definition authorizingPrincipal :: "RequestContext \<Rightarrow> AuthorizedStore \<Rightarrow> string" where
  "authorizingPrincipal ctx a = (if servicePrincipal a \<noteq> [] then servicePrincipal a else ctxPrincipal ctx)"

definition onBehalfOf :: "RequestContext \<Rightarrow> AuthorizedStore \<Rightarrow> string" where
  "onBehalfOf ctx a = (if servicePrincipal a = [] then [] else sanitizeForAudit (ctxPrincipal ctx))"

definition logDecision :: "AuditDecision \<Rightarrow> RequestContext \<Rightarrow> string \<Rightarrow> string \<Rightarrow> string \<Rightarrow> AuthorizedStore \<Rightarrow> AuthorizedStore" where
  "logDecision d ctx prin action target a =
     (case auditLog a of
        None \<Rightarrow> a
      | Some es \<Rightarrow> a\<lparr>auditLog := Some (es @
          [\<lparr>auPrincipal = sanitizeForAudit prin, auAction = sanitizeForAudit action, auTarget = sanitizeForAudit target,
            auDecision = d, auAuthMethod = ctxAuthMethod ctx, auOnBehalfOf = onBehalfOf ctx a\<rparr>])\<rparr>)"

abbreviation logAllowed :: "RequestContext \<Rightarrow> string \<Rightarrow> string \<Rightarrow> string \<Rightarrow> AuthorizedStore \<Rightarrow> AuthorizedStore" where
  "logAllowed \<equiv> logDecision AuditDecisionAllow"

abbreviation logDenied :: "RequestContext \<Rightarrow> string \<Rightarrow> string \<Rightarrow> string \<Rightarrow> AuthorizedStore \<Rightarrow> AuthorizedStore" where
  "logDenied \<equiv> logDecision AuditDecisionDeny"

definition failWith :: "(StoreError + 'a) \<Rightarrow> AccessError + 'a" where
  "failWith r = (case r of Inl e \<Rightarrow> Inl (StoreFailure e) | Inr x \<Rightarrow> Inr x)"

text \<open>The shape that six of the operations share: check one permission on one key, write the audit entry, delegate.\<close>

definition guarded :: "Permission \<Rightarrow> string \<Rightarrow> RequestContext \<Rightarrow> string \<Rightarrow>
    (MemoryStore \<Rightarrow> (StoreError + 'a) \<times> MemoryStore) \<Rightarrow> AuthorizedStore \<Rightarrow> (AccessError + 'a) \<times> AuthorizedStore" where
  "guarded permission action ctx key delegate a =
     (let prin = authorizingPrincipal ctx a
      in case authorize a prin permission key of
           Some err \<Rightarrow> (Inl (AccessDenied err), logDenied ctx prin action key a)
         | None \<Rightarrow>
             let a1 = logAllowed ctx prin action key a;
                 (r, s) = delegate (inner a1)
             in (failWith r, a1\<lparr>inner := s\<rparr>))"

definition authGet :: "RequestContext \<Rightarrow> string \<Rightarrow> AuthorizedStore \<Rightarrow> (AccessError + Fact) \<times> AuthorizedStore" where
  "authGet ctx key = guarded PermissionRead ''get'' ctx key (\<lambda>s. (Get key s, s))"

definition authPut :: "RequestContext \<Rightarrow> string \<Rightarrow> string \<Rightarrow> AuthorizedStore \<Rightarrow> (AccessError + int) \<times> AuthorizedStore" where
  "authPut ctx key value = guarded PermissionWrite ''put'' ctx key (Put key value)"

definition authDelete :: "RequestContext \<Rightarrow> string \<Rightarrow> AuthorizedStore \<Rightarrow> (AccessError + unit) \<times> AuthorizedStore" where
  "authDelete ctx key = guarded PermissionDelete ''delete'' ctx key (Delete key)"

definition authScan :: "RequestContext \<Rightarrow> string \<Rightarrow> AuthorizedStore \<Rightarrow> (AccessError + Fact list) \<times> AuthorizedStore" where
  "authScan ctx p = guarded PermissionRead ''scan'' ctx p (\<lambda>s. (Scan p s, s))"

definition authScanWithRevision :: "RequestContext \<Rightarrow> string \<Rightarrow> AuthorizedStore \<Rightarrow> (AccessError + ScanResult) \<times> AuthorizedStore" where
  "authScanWithRevision ctx p = guarded PermissionRead ''scan'' ctx p (\<lambda>s. (ScanWithRevision p s, s))"

definition authWatch :: "RequestContext \<Rightarrow> string \<Rightarrow> WatchOption \<Rightarrow> AuthorizedStore \<Rightarrow> (AccessError + nat) \<times> AuthorizedStore" where
  "authWatch ctx key opts = guarded PermissionWatch ''watch'' ctx key (Watch key opts)"

definition opPermission :: "Op \<Rightarrow> Permission" where
  "opPermission op = (if OpKind op = OpDelete then PermissionDelete else PermissionWrite)"

text \<open>The checks of a transaction in their order, as the action to audit, the permission and the key.\<close>

definition transactionChecks :: "Compare list \<Rightarrow> Op list \<Rightarrow> Op list \<Rightarrow> (string \<times> Permission \<times> string) list" where
  "transactionChecks compares onSuccess onFailure =
     map (\<lambda>c. (''transaction-compare'', PermissionRead, CmpKey c)) compares @
     map (\<lambda>op. (''transaction-op'', opPermission op, OpKey op)) onSuccess @
     map (\<lambda>op. (''transaction-op'', opPermission op, OpKey op)) onFailure"

fun firstDenied :: "authorizer \<Rightarrow> string \<Rightarrow> (string \<times> Permission \<times> string) list \<Rightarrow> (string \<times> string \<times> AuthError) option" where
  "firstDenied az prin [] = None"
| "firstDenied az prin ((action, permission, key) # cs) =
     (case az prin permission key of
        Some err \<Rightarrow> Some (action, key, err)
      | None \<Rightarrow> firstDenied az prin cs)"

definition authTransaction :: "RequestContext \<Rightarrow> Compare list \<Rightarrow> Op list \<Rightarrow> Op list \<Rightarrow> AuthorizedStore \<Rightarrow>
    (AccessError + bool) \<times> AuthorizedStore" where
  "authTransaction ctx compares onSuccess onFailure a =
     (let prin = authorizingPrincipal ctx a
      in case firstDenied (authorize a) prin (transactionChecks compares onSuccess onFailure) of
           Some (action, key, err) \<Rightarrow> (Inl (AccessDenied err), logDenied ctx prin action key a)
         | None \<Rightarrow>
             let a1 = logAllowed ctx prin ''transaction'' (Itoa (int (length onSuccess + length onFailure)) @ '' ops'') a;
                 (r, s) = Transaction compares onSuccess onFailure (inner a1)
             in (failWith r, a1\<lparr>inner := s\<rparr>))"

definition authRevision :: "AuthorizedStore \<Rightarrow> (AccessError + int) \<times> AuthorizedStore" where
  "authRevision a = (failWith (RevisionOf (inner a)), a)"

definition authGrantLease :: "int \<Rightarrow> AuthorizedStore \<Rightarrow> (AccessError + int) \<times> AuthorizedStore" where
  "authGrantLease ttl a = (let (l, s) = GrantLease ttl (inner a) in (Inr l, a\<lparr>inner := s\<rparr>))"

definition authPutWithLease :: "string \<Rightarrow> string \<Rightarrow> int \<Rightarrow> AuthorizedStore \<Rightarrow> (AccessError + int) \<times> AuthorizedStore" where
  "authPutWithLease key value leaseID a = (let (r, s) = PutWithLease key value leaseID (inner a) in (failWith r, a\<lparr>inner := s\<rparr>))"

definition authRenewLease :: "int \<Rightarrow> AuthorizedStore \<Rightarrow> (AccessError + int) \<times> AuthorizedStore" where
  "authRenewLease l a = (Inr (RenewLease l (inner a)), a)"

definition authRevokeLease :: "int \<Rightarrow> AuthorizedStore \<Rightarrow> AuthorizedStore" where
  "authRevokeLease l a = a\<lparr>inner := RevokeLease l (inner a)\<rparr>"

definition authClose :: "AuthorizedStore \<Rightarrow> AuthorizedStore" where
  "authClose a = a\<lparr>inner := Close (inner a)\<rparr>"
subsection \<open>Requests\<close>

datatype StoreRequest =
    GetReq string
  | PutReq string string
  | DeleteReq string
  | ScanReq string
  | ScanWithRevisionReq string
  | WatchReq string WatchOption
  | TransactionReq "Compare list" "Op list" "Op list"
  | RevisionReq
  | GrantLeaseReq int
  | PutWithLeaseReq string string int
  | RenewLeaseReq int
  | RevokeLeaseReq int
  | CloseReq

definition permittedResult :: "AccessError + 'a \<Rightarrow> bool" where
  "permittedResult r = (case r of Inl (AccessDenied err) \<Rightarrow> False | _ \<Rightarrow> True)"

text \<open>Whether a request passed authorization, the facts that its answer shows, and the store afterwards.\<close>

fun handleRequest :: "RequestContext \<Rightarrow> StoreRequest \<Rightarrow> AuthorizedStore \<Rightarrow> bool \<times> Fact list \<times> AuthorizedStore" where
  "handleRequest ctx (GetReq k) a =
     (let (r, a') = authGet ctx k a in (permittedResult r, (case r of Inl e \<Rightarrow> [] | Inr f \<Rightarrow> [f]), a'))"
| "handleRequest ctx (PutReq k v) a = (let (r, a') = authPut ctx k v a in (permittedResult r, [], a'))"
| "handleRequest ctx (DeleteReq k) a = (let (r, a') = authDelete ctx k a in (permittedResult r, [], a'))"
| "handleRequest ctx (ScanReq p) a =
     (let (r, a') = authScan ctx p a in (permittedResult r, (case r of Inl e \<Rightarrow> [] | Inr fs \<Rightarrow> fs), a'))"
| "handleRequest ctx (ScanWithRevisionReq p) a =
     (let (r, a') = authScanWithRevision ctx p a in (permittedResult r, (case r of Inl e \<Rightarrow> [] | Inr sr \<Rightarrow> ScanFacts sr), a'))"
| "handleRequest ctx (WatchReq k opts) a = (let (r, a') = authWatch ctx k opts a in (permittedResult r, [], a'))"
| "handleRequest ctx (TransactionReq cs su fa) a =
     (let (r, a') = authTransaction ctx cs su fa a in (permittedResult r, [], a'))"
| "handleRequest ctx RevisionReq a = (let (r, a') = authRevision a in (permittedResult r, [], a'))"
| "handleRequest ctx (GrantLeaseReq ttl) a = (let (r, a') = authGrantLease ttl a in (permittedResult r, [], a'))"
| "handleRequest ctx (PutWithLeaseReq k v l) a = (let (r, a') = authPutWithLease k v l a in (permittedResult r, [], a'))"
| "handleRequest ctx (RenewLeaseReq l) a = (let (r, a') = authRenewLease l a in (permittedResult r, [], a'))"
| "handleRequest ctx (RevokeLeaseReq l) a = (True, [], authRevokeLease l a)"
| "handleRequest ctx CloseReq a = (True, [], authClose a)"

fun checkedRequest :: "StoreRequest \<Rightarrow> bool" where
  "checkedRequest (GetReq k) = True"
| "checkedRequest (PutReq k v) = True"
| "checkedRequest (DeleteReq k) = True"
| "checkedRequest (ScanReq p) = True"
| "checkedRequest (ScanWithRevisionReq p) = True"
| "checkedRequest (WatchReq k opts) = True"
| "checkedRequest (TransactionReq cs su fa) = True"
| "checkedRequest _ = False"

subsection \<open>Authorizers that grant by prefix\<close>

text \<open>The contract the store wrapper relies on: a permission on a key extends to every longer key. It is what
  makes one check on a prefix enough for a scan or a watch.\<close>

locale prefix_authorizer =
  fixes az :: authorizer
  assumes extends: "az p perm k = None \<Longrightarrow> prefix k k' \<Longrightarrow> az p perm k' = None"
begin

lemma scan_covers: "az p perm k = None \<Longrightarrow> \<forall>f\<in>F. prefix k (Key f) \<Longrightarrow> \<forall>f\<in>F. az p perm (Key f) = None"
  using extends by blast

lemma watch_covers: "az p perm k = None \<Longrightarrow> matchesWatchPattern ev k byPrefix \<Longrightarrow> az p perm (Key (EvFact ev)) = None"
  using extends by (auto simp: matchesWatchPattern_def split: if_splits)

end

lemma rbac_allows_iff:
  "rbacAuthorize r p perm k = None \<longleftrightarrow>
     (\<exists>n\<in>set (resolveRoleNames r p). \<exists>role. roles r n = Some role \<and> (\<exists>rule\<in>set (Rules role). ruleAllows perm k rule))"
proof -
  have "roleAllows r perm k n \<longleftrightarrow> (\<exists>role. roles r n = Some role \<and> (\<exists>rule\<in>set (Rules role). ruleAllows perm k rule))" for n
    by (simp add: roleAllows_def list_ex_iff split: option.splits)
  then show ?thesis unfolding rbacAuthorize_def Let_def list_ex_iff by auto
qed

lemma abac_allows_iff:
  "abacAuthorize a p perm k = None \<longleftrightarrow> (\<exists>n pol. (n, pol) \<in> set (policies a) \<and> policyAllows (GetPrincipalAttributes a p) perm k pol)"
  unfolding abacAuthorize_def list_ex_iff by auto

interpretation rbac: prefix_authorizer "rbacAuthorize r" for r
proof
  fix p perm k k'
  assume "rbacAuthorize r p perm k = None" and k: "prefix k k'"
  moreover have "ruleAllows perm k rule \<Longrightarrow> ruleAllows perm k' rule" for rule
    unfolding ruleAllows_def using k by (blast intro: prefix_order.trans)
  ultimately show "rbacAuthorize r p perm k' = None" unfolding rbac_allows_iff by blast
qed

interpretation abac: prefix_authorizer "abacAuthorize a" for a
proof
  fix p perm k k'
  assume "abacAuthorize a p perm k = None" and k: "prefix k k'"
  moreover have "policyAllows attrs perm k pol \<Longrightarrow> policyAllows attrs perm k' pol" for attrs pol
    unfolding policyAllows_def using k by (blast intro: prefix_order.trans)
  ultimately show "abacAuthorize a p perm k' = None" unfolding abac_allows_iff by blast
qed

interpretation combined: prefix_authorizer "combinedAuthorize r a" for r a
  by unfold_locales (auto simp: combinedAuthorize_def dest: rbac.extends abac.extends split: option.splits)

subsection \<open>Lemmas\<close>

lemma logDecision_simps [simp]:
  "inner (logDecision d ctx p act k a) = inner a" "authorize (logDecision d ctx p act k a) = authorize a"
  "servicePrincipal (logDecision d ctx p act k a) = servicePrincipal a"
  by (simp_all add: logDecision_def split: option.splits)

definition auditedAs :: "bool \<Rightarrow> AuthorizedStore \<Rightarrow> AuthorizedStore \<Rightarrow> bool" where
  "auditedAs permitted a a' \<longleftrightarrow>
     (\<forall>es. auditLog a = Some es \<longrightarrow>
        (\<exists>e. auditLog a' = Some (es @ [e]) \<and> auDecision e = (if permitted then AuditDecisionAllow else AuditDecisionDeny)))"

lemma audited_log: "auditedAs (d = AuditDecisionAllow) a (logDecision d ctx p act k a)"
  by (cases d) (auto simp: auditedAs_def logDecision_def)

lemma audited_inner: "auditedAs b a (a'\<lparr>inner := s\<rparr>) = auditedAs b a a'"
  by (simp add: auditedAs_def)

lemma guarded_cases:
  assumes "guarded perm act ctx key delegate a = (r, a')" and "p = authorizingPrincipal ctx a"
  obtains (denied) "\<not> permittedResult r" "authorize a p perm key \<noteq> None" "inner a' = inner a" "auditedAs False a a'" "\<exists>e. r = Inl e"
  | (allowed) r0 where "permittedResult r" "authorize a p perm key = None" "delegate (inner a) = (r0, inner a')" "auditedAs True a a'"
      "r = failWith r0"
proof (cases "authorize a p perm key")
  case None
  obtain r0 s where d: "delegate (inner a) = (r0, s)" by (metis prod.exhaust)
  have "r = failWith r0" "a' = (logAllowed ctx p act key a)\<lparr>inner := s\<rparr>"
    using assms None d by (simp_all add: guarded_def Let_def)
  with None d show ?thesis using audited_log [of AuditDecisionAllow a ctx p act key]
    by (intro allowed [of r0]) (auto simp: permittedResult_def failWith_def audited_inner split: sum.splits)
next
  case (Some err)
  have "r = Inl (AccessDenied err)" "a' = logDenied ctx p act key a"
    using assms Some by (simp_all add: guarded_def Let_def)
  with Some show ?thesis using audited_log [of AuditDecisionDeny a ctx p act key] by (intro denied) (auto simp: permittedResult_def)
qed

lemma exec_keys:
  assumes "executeTransactionOperations ops r s = (s', evs)" and "facts s' k \<noteq> facts s k"
  shows "\<exists>op\<in>set ops. OpKey op = k \<and> OpKind op = (if facts s' k = None then OpDelete else OpPut)"
  using assms
proof (induction ops arbitrary: s evs)
  case (Cons op ops)
  obtain s1 ev where s1: "executeOperation op r s = (s1, ev)" by (metis prod.exhaust)
  obtain evs' where s2: "executeTransactionOperations ops r s1 = (s', evs')"
    using Cons.prems(1) s1 by (auto simp: executeTransactionOperations_Cons split: prod.splits)
  show ?case
  proof (cases "facts s' k = facts s1 k")
    case False
    from Cons.IH [OF s2 False] show ?thesis by auto
  next
    case True
    then have d: "facts s1 k \<noteq> facts s k" using Cons.prems(2) by simp
    from s1 have "OpKey op = k \<and> OpKind op = (if facts s1 k = None then OpDelete else OpPut)"
      by (cases rule: executeOperation_cases) (use d in \<open>auto split: if_splits\<close>)
    with True show ?thesis by auto
  qed
qed simp

lemma TransactionData_keys:
  assumes "TransactionData cmps su fa s = (s', met, evs)" and "facts s' k \<noteq> facts s k"
  shows "\<exists>op\<in>set su \<union> set fa. OpKey op = k \<and> opPermission op = (if facts s' k = None then PermissionDelete else PermissionWrite)"
proof -
  define ops where "ops = (if evaluateTransactionPreconditions cmps (facts s) then su else fa)"
  obtain r s1 where "executeTransactionOperations ops r s1 = (s', evs)" "facts s1 = facts s"
    using assms(1) by (auto simp: TransactionData_def Let_def ops_def split: prod.splits if_splits)
  from exec_keys [OF this(1), of k] this(2) assms(2) obtain op where
    "op \<in> set ops" "OpKey op = k" "OpKind op = (if facts s' k = None then OpDelete else OpPut)" by auto
  then show ?thesis by (intro bexI [of _ op]) (auto simp: opPermission_def ops_def split: if_splits)
qed
lemma Put_keys: "Put key v s = (r, s') \<Longrightarrow> facts s' k \<noteq> facts s k \<Longrightarrow> k = key \<and> facts s' k \<noteq> None"
  by (auto simp: Put_def PutData_eq Let_def split_beta applyPut_def split: if_splits)

lemma Delete_keys: "Delete key s = (r, s') \<Longrightarrow> facts s' k \<noteq> facts s k \<Longrightarrow> k = key \<and> facts s' k = None"
  by (auto simp: Delete_def DeleteData_def Let_def split_beta split: if_splits option.splits)

lemma Watch_keys: "Watch key opts s = (r, s') \<Longrightarrow> facts s' = facts s"
  by (auto simp: Watch_def split_beta split: if_splits) (metis WatchData_frame prod.collapse)

lemma Transaction_keys:
  "Transaction cs su fa s = (r, s') \<Longrightarrow> facts s' k \<noteq> facts s k \<Longrightarrow>
     \<exists>op\<in>set su \<union> set fa. OpKey op = k \<and> opPermission op = (if facts s' k = None then PermissionDelete else PermissionWrite)"
  using TransactionData_keys [of cs su fa s _ _ _ k] by (auto simp: Transaction_def Let_def split: if_splits prod.splits) 

lemma firstDenied_None:
  "firstDenied az p cs = None \<longleftrightarrow> (\<forall>x\<in>set cs. az p (fst (snd x)) (snd (snd x)) = None)"
  by (induction az p cs rule: firstDenied.induct) (auto split: option.splits)

lemma transaction_cases:
  assumes "authTransaction ctx cs su fa a = (r, a')" and "p = authorizingPrincipal ctx a"
  obtains (denied) "\<not> permittedResult r" "inner a' = inner a" "auditedAs False a a'"
  | (allowed) r0 where "permittedResult r" "\<forall>op\<in>set su \<union> set fa. authorize a p (opPermission op) (OpKey op) = None"
      "Transaction cs su fa (inner a) = (r0, inner a')" "auditedAs True a a'"
proof (cases "firstDenied (authorize a) p (transactionChecks cs su fa)")
  case None
  obtain r0 s where t: "Transaction cs su fa (inner a) = (r0, s)" by (metis prod.exhaust)
  let ?l = "logAllowed ctx p ''transaction'' (Itoa (int (length su + length fa)) @ '' ops'') a"
  have "r = failWith r0" "a' = ?l\<lparr>inner := s\<rparr>" using assms None t by (simp_all add: authTransaction_def Let_def)
  moreover have "\<forall>op\<in>set su \<union> set fa. authorize a p (opPermission op) (OpKey op) = None"
    using None by (simp add: firstDenied_None transactionChecks_def ball_Un)
  ultimately show ?thesis using t audited_log [of AuditDecisionAllow a ctx p "''transaction''" "Itoa (int (length su + length fa)) @ '' ops''"]
    by (intro allowed [of r0]) (auto simp: permittedResult_def failWith_def audited_inner split: sum.splits)
next
  case (Some x)
  obtain act key err where x: "x = (act, key, err)" by (metis prod.exhaust)
  have "r = Inl (AccessDenied err)" "a' = logDenied ctx p act key a"
    using assms Some x by (simp_all add: authTransaction_def Let_def)
  then show ?thesis using audited_log [of AuditDecisionDeny a ctx p act key] by (intro denied) (auto simp: permittedResult_def)
qed

lemma in_sorted_list_of_set: "x \<in> set (sorted_list_of_set A) \<Longrightarrow> x \<in> (A :: string set)"
proof (cases "finite A")
  case False
  then have "sorted_list_of_set A = []" by (rule sorted_list_of_set.fold_insort_key.infinite)
  then show "x \<in> set (sorted_list_of_set A) \<Longrightarrow> x \<in> A" by simp
qed simp

text \<open>What it means that a request stays within the permissions of its principal.\<close>

definition confined :: "string \<Rightarrow> StoreRequest \<Rightarrow> bool \<Rightarrow> Fact list \<Rightarrow> AuthorizedStore \<Rightarrow> AuthorizedStore \<Rightarrow> bool" where
  "confined p req permitted seen a a' \<longleftrightarrow>
     (\<forall>k. facts (inner a') k \<noteq> facts (inner a) k \<longrightarrow>
        authorize a p (if facts (inner a') k = None then PermissionDelete else PermissionWrite) k = None) \<and>
     (\<forall>f\<in>set seen. authorize a p PermissionRead (Key f) = None) \<and>
     (\<forall>key opts ev. req = WatchReq key opts \<longrightarrow> permitted \<longrightarrow> matchesWatchPattern ev key (WatchPrefix opts) \<longrightarrow>
        authorize a p PermissionWatch (Key (EvFact ev)) = None) \<and>
     (checkedRequest req \<longrightarrow> auditedAs permitted a a' \<and> (\<not> permitted \<longrightarrow> inner a' = inner a))"

lemma confined_denied:
  "inner a' = inner a \<Longrightarrow> auditedAs False a a' \<Longrightarrow> confined p req False [] a a'"
  by (simp add: confined_def)

lemma confined_write:
  assumes "auditedAs True a a'" and "\<And>k opts. req \<noteq> WatchReq k opts"
    and "\<And>k. facts (inner a') k \<noteq> facts (inner a) k \<Longrightarrow>
      authorize a p (if facts (inner a') k = None then PermissionDelete else PermissionWrite) k = None"
  shows "confined p req True [] a a'"
  using assms by (simp add: confined_def)

lemma confined_read:
  assumes "auditedAs True a a'" and "inner a' = inner a" and "\<And>k opts. req \<noteq> WatchReq k opts"
    and "\<forall>f\<in>set seen. authorize a p PermissionRead (Key f) = None"
  shows "confined p req True seen a a'"
  using assms by (simp add: confined_def)

context prefix_authorizer
begin

lemma scan_confined:
  assumes "authorize a = az" and "dataInv (inner a)" and "az p PermissionRead k = None" and "set seen \<subseteq> set (collectFactPointers k (inner a))"
  shows "\<forall>f\<in>set seen. authorize a p PermissionRead (Key f) = None"
proof -
  have "prefix k (Key f)" if "f \<in> set seen" for f
  proof -
    have "Key f \<in> set (map Key (collectFactPointers k (inner a)))" using that assms(4) by auto
    then have "Key f \<in> {k' \<in> dom (facts (inner a)). k' \<noteq> [] \<and> prefix k k'}"
      unfolding collectFactPointers_exact(1) [OF assms(2)] by (rule in_sorted_list_of_set)
    then show ?thesis by simp
  qed
  then show ?thesis using extends [OF assms(3)] assms(1) by simp
qed

lemma confined_request:
  assumes az: "authorize a = az" and data: "dataInv (inner a)" and run: "handleRequest ctx req a = (permitted, seen, a')"
    and lease: "\<forall>k v l. req \<noteq> PutWithLeaseReq k v l" and p: "p = authorizingPrincipal ctx a"
  shows "confined p req permitted seen a a'"
proof (cases req)
  case (GetReq k)
  obtain r where g: "guarded PermissionRead ''get'' ctx k (\<lambda>s. (Get k s, s)) a = (r, a')"
    and out: "permitted = permittedResult r" "seen = (case r of Inl e \<Rightarrow> [] | Inr f \<Rightarrow> [f])"
    using run GetReq by (auto simp: authGet_def split: prod.splits)
  show ?thesis using g p
  proof (cases rule: guarded_cases)
    case denied
    then show ?thesis using out confined_denied by auto
  next
    case (allowed r0)
    have "\<forall>f\<in>set seen. authorize a p PermissionRead (Key f) = None"
    proof
      fix f
      assume "f \<in> set seen"
      then have "facts (inner a) k = Some f"
        using out(2) allowed by (auto simp: failWith_def Get_def split: sum.splits if_splits option.splits)
      then show "authorize a p PermissionRead (Key f) = None" using dataInv_factD [OF data] allowed(2) by auto
    qed
    then show ?thesis using confined_read [OF allowed(4), of req seen p] allowed GetReq out(1) by simp
  qed
next
  case (PutReq k v)
  obtain r where g: "guarded PermissionWrite ''put'' ctx k (Put k v) a = (r, a')" and out: "permitted = permittedResult r" "seen = []"
    using run PutReq by (auto simp: authPut_def split: prod.splits)
  show ?thesis using g p
  proof (cases rule: guarded_cases)
    case denied
    then show ?thesis using out confined_denied by auto
  next
    case (allowed r0)
    show ?thesis using confined_write [OF allowed(4), of req p] Put_keys [OF allowed(3)] allowed(1,2) PutReq out by fastforce
  qed
next
  case (DeleteReq k)
  obtain r where g: "guarded PermissionDelete ''delete'' ctx k (Delete k) a = (r, a')" and out: "permitted = permittedResult r" "seen = []"
    using run DeleteReq by (auto simp: authDelete_def split: prod.splits)
  show ?thesis using g p
  proof (cases rule: guarded_cases)
    case denied
    then show ?thesis using out confined_denied by auto
  next
    case (allowed r0)
    show ?thesis using confined_write [OF allowed(4), of req p] Delete_keys [OF allowed(3)] allowed(1,2) DeleteReq out by fastforce
  qed
next
  case (ScanReq k)
  obtain r where g: "guarded PermissionRead ''scan'' ctx k (\<lambda>s. (Scan k s, s)) a = (r, a')"
    and out: "permitted = permittedResult r" "seen = (case r of Inl e \<Rightarrow> [] | Inr fs \<Rightarrow> fs)"
    using run ScanReq by (auto simp: authScan_def split: prod.splits)
  show ?thesis using g p
  proof (cases rule: guarded_cases)
    case denied
    then show ?thesis using out confined_denied by auto
  next
    case (allowed r0)
    have "set seen \<subseteq> set (collectFactPointers k (inner a))"
      using out(2) allowed by (auto simp: failWith_def Scan_def split: sum.splits if_splits)
    from scan_confined [OF az data allowed(2) [unfolded az] this] confined_read [OF allowed(4), of req seen p] allowed ScanReq out(1)
    show ?thesis by simp
  qed
next
  case (ScanWithRevisionReq k)
  obtain r where g: "guarded PermissionRead ''scan'' ctx k (\<lambda>s. (ScanWithRevision k s, s)) a = (r, a')"
    and out: "permitted = permittedResult r" "seen = (case r of Inl e \<Rightarrow> [] | Inr sr \<Rightarrow> ScanFacts sr)"
    using run ScanWithRevisionReq by (auto simp: authScanWithRevision_def split: prod.splits)
  show ?thesis using g p
  proof (cases rule: guarded_cases)
    case denied
    then show ?thesis using out confined_denied by auto
  next
    case (allowed r0)
    have "set seen \<subseteq> set (collectFactPointers k (inner a))"
      using out(2) allowed by (auto simp: failWith_def ScanWithRevision_def split: sum.splits if_splits)
    from scan_confined [OF az data allowed(2) [unfolded az] this] confined_read [OF allowed(4), of req seen p] allowed ScanWithRevisionReq out(1)
    show ?thesis by simp
  qed
next
  case (WatchReq k opts)
  obtain r where g: "guarded PermissionWatch ''watch'' ctx k (Watch k opts) a = (r, a')" and out: "permitted = permittedResult r" "seen = []"
    using run WatchReq by (auto simp: authWatch_def split: prod.splits)
  show ?thesis using g p
  proof (cases rule: guarded_cases)
    case denied
    then show ?thesis using out confined_denied by auto
  next
    case (allowed r0)
    then show ?thesis using Watch_keys [OF allowed(3)] watch_covers [OF allowed(2) [unfolded az]] WatchReq out
      by (simp add: confined_def az)
  qed
next
  case (TransactionReq cs su fa)
  obtain r where g: "authTransaction ctx cs su fa a = (r, a')" and out: "permitted = permittedResult r" "seen = []"
    using run TransactionReq by (auto split: prod.splits)
  show ?thesis using g p
  proof (cases rule: transaction_cases)
    case denied
    then show ?thesis using out confined_denied by auto
  next
    case (allowed r0)
    have "authorize a p (if facts (inner a') k = None then PermissionDelete else PermissionWrite) k = None"
      if "facts (inner a') k \<noteq> facts (inner a) k" for k
      using Transaction_keys [OF allowed(3) that] allowed(2) by metis
    then show ?thesis using confined_write [OF allowed(4), of req p] TransactionReq out allowed(1) by simp
  qed
qed (use run lease in \<open>auto simp: confined_def authRevision_def authGrantLease_def GrantLease_def authRenewLease_def
    authRevokeLease_def RevokeLease_def authClose_def Close_frame\<close>)

end
subsection \<open>Properties\<close>

text \<open>C15. The authorizing store confines its callers. With the role-based, the attribute-based or the combined
  authorizer, and for every request except \<open>PutWithLease\<close>: a fact changes only where the authorizing principal may
  write, and disappears only where it may delete; every fact in the answer has a key that it may read;
  a watch that is let through matches only events on keys that it may watch; and a request that is
  checked leaves exactly one audit entry with the right decision and, when denied, an unchanged store.\<close>

theorem authorized_store_confined:
  assumes "authorize a \<in> {rbacAuthorize r, abacAuthorize ab, combinedAuthorize r ab}" and "dataInv (inner a)"
    and "handleRequest ctx req a = (permitted, seen, a')" and "\<forall>k v l. req \<noteq> PutWithLeaseReq k v l"
    and "p = authorizingPrincipal ctx a"
  shows "(\<forall>k. facts (inner a') k \<noteq> facts (inner a) k \<longrightarrow>
        authorize a p (if facts (inner a') k = None then PermissionDelete else PermissionWrite) k = None) \<and>
     (\<forall>f\<in>set seen. authorize a p PermissionRead (Key f) = None) \<and>
     (\<forall>key opts ev. req = WatchReq key opts \<longrightarrow> permitted \<longrightarrow> matchesWatchPattern ev key (WatchPrefix opts) \<longrightarrow>
        authorize a p PermissionWatch (Key (EvFact ev)) = None) \<and>
     (checkedRequest req \<longrightarrow> auditedAs permitted a a' \<and> (\<not> permitted \<longrightarrow> inner a' = inner a))"
proof -
  from assms(1) consider "authorize a = rbacAuthorize r" | "authorize a = abacAuthorize ab" | "authorize a = combinedAuthorize r ab"
    by blast
  then have "confined p req permitted seen a a'"
  proof cases
    case 1
    then show ?thesis by (rule rbac.confined_request [OF _ assms(2-5)])
  next
    case 2
    then show ?thesis by (rule abac.confined_request [OF _ assms(2-5)])
  next
    case 3
    then show ?thesis by (rule combined.confined_request [OF _ assms(2-5)])
  qed
  then show ?thesis unfolding confined_def .
qed

text \<open>The store of the API server: the builtin roles, and the role of the API server bound to its
  principal, which authorizes every request.\<close>

definition apiServerAuthorizer :: RBACAuthorizer where
  "apiServerAuthorizer =
     BindRole \<lparr>bindPrincipal = APIServerPrincipal, bindRoleName = ''api-server''\<rparr> (fold AddRole BuiltinRoles NewRBACAuthorizer)"

definition apiServerStore :: "MemoryStore \<Rightarrow> AuthorizedStore" where
  "apiServerStore s = SetServicePrincipal APIServerPrincipal (NewAuthorizedStore s (rbacAuthorize apiServerAuthorizer) (Some []))"

definition exampleRequest :: RequestContext where
  "exampleRequest = \<lparr>ctxPrincipal = ''user:alice'', ctxAuthMethod = ''oidc''\<rparr>"

theorem authorized_store_confined_witness:
  "\<exists>permitted seen a'. handleRequest exampleRequest (PutReq ''secrets/db'' ''x'') (apiServerStore NewMemoryStore) = (permitted, seen, a') \<and>
     \<not> permitted \<and> inner a' = NewMemoryStore \<and> auditedAs False (apiServerStore NewMemoryStore) a'"
proof -
  let ?a = "apiServerStore NewMemoryStore"
  obtain permitted seen a' where r: "handleRequest exampleRequest (PutReq ''secrets/db'' ''x'') ?a = (permitted, seen, a')"
    by (metis prod.exhaust)
  have "rbacAuthorize apiServerAuthorizer APIServerPrincipal PermissionWrite ''secrets/db'' \<noteq> None" by code_simp
  then have d: "\<not> permitted"
    using r by (auto simp: authPut_def guarded_def apiServerStore_def NewAuthorizedStore_def SetServicePrincipal_def
        authorizingPrincipal_def APIServerPrincipal_def permittedResult_def Let_def split: prod.splits)
  have "dataInv (inner ?a)" by (simp add: apiServerStore_def NewAuthorizedStore_def SetServicePrincipal_def dataInv_new)
  with authorized_store_confined [of ?a apiServerAuthorizer _ exampleRequest "PutReq ''secrets/db'' ''x''" permitted seen a'
      "authorizingPrincipal exampleRequest ?a"] r d
  show ?thesis by (auto simp: apiServerStore_def NewAuthorizedStore_def SetServicePrincipal_def)
qed


end
