(* ===== verification/Api_Access.thy ===== *)
theory Api_Access
  imports Store_Access Prefix_Search
begin

text \<open>
  Authorization at the API: scopes, principals and conditions (\<^verbatim>\<open>src/security/scope.go\<close>, \<^verbatim>\<open>principal.go\<close>,
  \<^verbatim>\<open>condition.go\<close>), the capability-based authorizer with its conditional policies (\<^verbatim>\<open>api_authorizer.go\<close>), the
  authorizer for facts compiled from configuration (\<^verbatim>\<open>fact_authorizer.go\<close>), and the controller that rebuilds the
  authorizer from the facts under \<^verbatim>\<open>auth/\<close> (\<^verbatim>\<open>src/controllers/auth.go\<close>).

  Capabilities, scopes and operators are strings, as in Go, because the controller takes them from
  facts. Maps are association lists. The order in which a map is ranged over decides only the order of grants, on which no result
  depends. \<open>strings.TrimSpace\<close> is modelled on the ASCII blanks.
\<close>

named_theorems api_defs \<open>definitions of the constants of the API authorizer\<close>

subsection \<open>Scopes and principals\<close>

type_synonym Scope = string
type_synonym Capability = string

definition ScopeCluster :: Scope where
  [api_defs]: "ScopeCluster = ''cluster''"

definition TeamScope :: "string \<Rightarrow> Scope" where
  "TeamScope teamName = ''team/'' @ teamName"

definition NodeScope :: "string \<Rightarrow> Scope" where
  "NodeScope nodeID = ''node/'' @ nodeID"

definition ServiceScope :: "string \<Rightarrow> Scope" where
  "ServiceScope serviceName = ''service/'' @ serviceName"

definition scopeContains :: "Scope \<Rightarrow> Scope \<Rightarrow> bool" where
  "scopeContains scope child \<longleftrightarrow> scope = ScopeCluster \<or> scope = child \<or> HasPrefix child (scope @ ''/'')"

record Principal =
  prKind :: string
  prName :: string
  prGroups :: "string list"
  prAttributes :: "Attribute list"

definition principalString :: "Principal \<Rightarrow> string" where
  "principalString p = prKind p @ '':'' @ prName p"

definition HasGroup :: "Principal \<Rightarrow> string \<Rightarrow> bool" where
  "HasGroup p groupName = list_ex (\<lambda>g. g = groupName) (prGroups p)"

definition PrincipalFromKindAndName :: "string \<Rightarrow> Principal" where
  "PrincipalFromKindAndName s =
     (case dropWhile (\<lambda>c. c \<noteq> CHR '':'') s of
        [] \<Rightarrow> \<lparr>prKind = ''user'', prName = s, prGroups = [], prAttributes = []\<rparr>
      | _ # n \<Rightarrow> \<lparr>prKind = takeWhile (\<lambda>c. c \<noteq> CHR '':'') s, prName = n, prGroups = [], prAttributes = []\<rparr>)"

subsection \<open>Conditions\<close>

record Condition =
  coField :: string
  coOperator :: string
  coValue :: string

record ResourceContext =
  rcTeam :: string
  rcName :: string
  rcType :: string

definition nonEmpty :: "string \<Rightarrow> string list option" where
  "nonEmpty v = (if v = [] then None else Some [v])"

definition resolveSubjectField :: "string \<Rightarrow> Principal \<Rightarrow> string list option" where
  "resolveSubjectField attributeName p =
     (if attributeName = ''name'' then nonEmpty (prName p)
      else if attributeName = ''groups'' then (if prGroups p = [] then None else Some (prGroups p))
      else map_option (\<lambda>a. [AttrValue a]) (find (\<lambda>a. AttrKey a = attributeName) (prAttributes p)))"

definition resolveResourceField :: "string \<Rightarrow> ResourceContext option \<Rightarrow> string list option" where
  "resolveResourceField attributeName rc =
     (case rc of
        None \<Rightarrow> None
      | Some r \<Rightarrow>
          if attributeName = ''team'' then nonEmpty (rcTeam r)
          else if attributeName = ''name'' then nonEmpty (rcName r)
          else if attributeName = ''type'' then nonEmpty (rcType r) else None)"

definition resolveField :: "string \<Rightarrow> Principal \<Rightarrow> ResourceContext option \<Rightarrow> string list option" where
  "resolveField fieldPath p rc =
     (case dropWhile (\<lambda>c. c \<noteq> CHR ''.'') fieldPath of
        [] \<Rightarrow> None
      | _ # attributeName \<Rightarrow>
          let objectName = takeWhile (\<lambda>c. c \<noteq> CHR ''.'') fieldPath
          in if objectName = ''subject'' then resolveSubjectField attributeName p
             else if objectName = ''resource'' then resolveResourceField attributeName rc else None)"

definition isFieldReference :: "string \<Rightarrow> bool" where
  "isFieldReference v \<longleftrightarrow> HasPrefix v ''subject.'' \<or> HasPrefix v ''resource.''"

fun splitAt :: "char \<Rightarrow> string \<Rightarrow> string list" where
  "splitAt c [] = [[]]"
| "splitAt c (x # xs) = (if x = c then [] # splitAt c xs else (case splitAt c xs of [] \<Rightarrow> [[x]] | w # ws \<Rightarrow> (x # w) # ws))"

definition isBlank :: "char \<Rightarrow> bool" where
  "isBlank c \<longleftrightarrow> c \<in> {CHR '' '', CHR 0x09, CHR 0x0A, CHR 0x0B, CHR 0x0C, CHR 0x0D}"

definition TrimSpace :: "string \<Rightarrow> string" where
  "TrimSpace s = rev (dropWhile isBlank (rev (dropWhile isBlank s)))"

definition isValueInCommaSeparatedList :: "string \<Rightarrow> string \<Rightarrow> bool" where
  "isValueInCommaSeparatedList needle xs = list_ex (\<lambda>entry. TrimSpace entry = needle) (splitAt CHR '','' xs)"

definition evaluateMultiValueCondition :: "string \<Rightarrow> string list \<Rightarrow> string \<Rightarrow> bool" where
  "evaluateMultiValueCondition operator leftValues rightValue =
     (if operator = ''=='' then list_ex (\<lambda>l. l = rightValue) leftValues
      else if operator = ''!='' then \<not> list_ex (\<lambda>l. l = rightValue) leftValues
      else if operator = ''in'' then list_ex (\<lambda>l. isValueInCommaSeparatedList l rightValue) leftValues
      else if operator = ''not_in'' then \<not> list_ex (\<lambda>l. isValueInCommaSeparatedList l rightValue) leftValues
      else False)"

definition firstOrEmpty :: "string list \<Rightarrow> string" where
  "firstOrEmpty vs = (if vs = [] then [] else hd vs)"

definition compareValues :: "string \<Rightarrow> string list \<Rightarrow> string \<Rightarrow> bool" where
  "compareValues operator leftValues rightValue =
     (if length leftValues > 1 then evaluateMultiValueCondition operator leftValues rightValue
      else let leftValue = firstOrEmpty leftValues
           in if operator = ''=='' then leftValue = rightValue
              else if operator = ''!='' then leftValue \<noteq> rightValue
              else if operator = ''in'' then isValueInCommaSeparatedList leftValue rightValue
              else if operator = ''not_in'' then \<not> isValueInCommaSeparatedList leftValue rightValue
              else False)"

definition evaluateSingleCondition :: "Condition \<Rightarrow> Principal \<Rightarrow> ResourceContext option \<Rightarrow> bool" where
  "evaluateSingleCondition cond p rc =
     (case resolveField (coField cond) p rc of
        None \<Rightarrow> False
      | Some leftValues \<Rightarrow>
          if isFieldReference (coValue cond)
          then (case resolveField (coValue cond) p rc of
                  None \<Rightarrow> False
                | Some rightValues \<Rightarrow> compareValues (coOperator cond) leftValues (firstOrEmpty rightValues))
          else compareValues (coOperator cond) leftValues (coValue cond))"

definition EvaluateConditions :: "Condition list \<Rightarrow> Principal \<Rightarrow> ResourceContext option \<Rightarrow> bool" where
  "EvaluateConditions conditions p rc = list_all (\<lambda>c. evaluateSingleCondition c p rc) conditions"

subsection \<open>The capability authorizer\<close>

definition CapabilityClusterAdmin :: Capability where
  [api_defs]: "CapabilityClusterAdmin = ''cluster.admin''"

definition CapabilityWorkloadCreate :: Capability where
  [api_defs]: "CapabilityWorkloadCreate = ''workload.create''"

definition CapabilitySecretUse :: Capability where
  [api_defs]: "CapabilitySecretUse = ''secret.use''"

record CapabilityGrant =
  cgCapability :: Capability
  cgScope :: Scope

record ConditionalPolicy =
  cpolName :: string
  cpolCapability :: Capability
  cpolConditions :: "Condition list"

record ConditionFailure = AuditEntry +
  auPolicy :: string

type_synonym grantMap = "(string \<times> CapabilityGrant list) list"

record APIAuthorizer =
  apiGrants :: grantMap
  bootstrapGrants :: grantMap
  apiPolicies :: "ConditionalPolicy list"
  conditionFailures :: "ConditionFailure list option"

datatype APIError =
    IncompletePrincipal string
  | ConditionFailed string string string
  | CapabilityDenied string string string

definition NewAPIAuthorizer :: APIAuthorizer where
  "NewAPIAuthorizer = \<lparr>apiGrants = [], bootstrapGrants = [], apiPolicies = [], conditionFailures = None\<rparr>"

definition lookupList :: "(string \<times> 'a list) list \<Rightarrow> string \<Rightarrow> 'a list" where
  "lookupList m k = (case map_of m k of None \<Rightarrow> [] | Some xs \<Rightarrow> xs)"

definition appendAt :: "string \<Rightarrow> 'a list \<Rightarrow> (string \<times> 'a list) list \<Rightarrow> (string \<times> 'a list) list" where
  "appendAt k xs m = AList.update k (lookupList m k @ xs) m"

definition Grant :: "string \<Rightarrow> Capability \<Rightarrow> Scope \<Rightarrow> APIAuthorizer \<Rightarrow> APIAuthorizer" where
  "Grant p c s a = a\<lparr>apiGrants := appendAt p [\<lparr>cgCapability = c, cgScope = s\<rparr>] (apiGrants a)\<rparr>"

definition SetAuditLogger :: "ConditionFailure list option \<Rightarrow> APIAuthorizer \<Rightarrow> APIAuthorizer" where
  "SetAuditLogger l a = a\<lparr>conditionFailures := l\<rparr>"

definition ReplaceGrants :: "grantMap \<Rightarrow> APIAuthorizer \<Rightarrow> APIAuthorizer" where
  "ReplaceGrants newGrants a = a\<lparr>apiGrants := newGrants\<rparr>"

definition ReplacePolicies :: "ConditionalPolicy list \<Rightarrow> APIAuthorizer \<Rightarrow> APIAuthorizer" where
  "ReplacePolicies newPolicies a = a\<lparr>apiPolicies := newPolicies\<rparr>"

definition clusterGrants :: "Capability list \<Rightarrow> CapabilityGrant list" where
  "clusterGrants cs = map (\<lambda>c. \<lparr>cgCapability = c, cgScope = ScopeCluster\<rparr>) cs"

definition BuiltinRoleCapabilities :: "string \<Rightarrow> CapabilityGrant list" where
  "BuiltinRoleCapabilities role =
     (if role = ''cluster-admin'' then clusterGrants [''cluster.admin'']
      else if role = ''api-reader''
      then clusterGrants [''workload.read'', ''node.read'', ''placement.read'', ''scaling.read'', ''secret.metadata.read'']
      else if role = ''api-writer''
      then clusterGrants [''workload.read'', ''workload.create'', ''workload.update'', ''scaling.read'', ''scaling.write'',
             ''node.read'', ''placement.read'', ''secret.metadata.read'']
      else if role = ''node-agent'' then clusterGrants [''workload.read'', ''node.read'', ''placement.read'']
      else [])"

definition GrantRole :: "string \<Rightarrow> string \<Rightarrow> APIAuthorizer \<Rightarrow> APIAuthorizer" where
  "GrantRole p role a = a\<lparr>bootstrapGrants := appendAt p (BuiltinRoleCapabilities role) (bootstrapGrants a)\<rparr>"

definition wildcardMatches :: "string \<Rightarrow> string \<Rightarrow> bool" where
  "wildcardMatches bound p \<longleftrightarrow> HasSuffix bound ''*'' \<and> HasPrefix p (TrimSuffix bound ''*'')"

definition appendMatchingGrants :: "CapabilityGrant list \<Rightarrow> grantMap \<Rightarrow> string \<Rightarrow> CapabilityGrant list" where
  "appendMatchingGrants allGrants m p =
     allGrants @ lookupList m p @ concat (map (\<lambda>(bound, gs). if wildcardMatches bound p then gs else []) m)"

definition resolveGrants :: "APIAuthorizer \<Rightarrow> string \<Rightarrow> CapabilityGrant list" where
  "resolveGrants a p = appendMatchingGrants (appendMatchingGrants [] (bootstrapGrants a) p) (apiGrants a) p"

definition grantCovers :: "Capability \<Rightarrow> Scope \<Rightarrow> CapabilityGrant \<Rightarrow> bool" where
  "grantCovers c s g \<longleftrightarrow>
     cgCapability g = CapabilityClusterAdmin \<and> scopeContains (cgScope g) s \<or> cgCapability g = c \<and> scopeContains (cgScope g) s"

definition logConditionFailure :: "Principal \<Rightarrow> Capability \<Rightarrow> Scope \<Rightarrow> ConditionalPolicy \<Rightarrow> APIAuthorizer \<Rightarrow> APIAuthorizer" where
  "logConditionFailure p c s pol a =
     (case conditionFailures a of
        None \<Rightarrow> a
      | Some es \<Rightarrow> a\<lparr>conditionFailures := Some (es @
          [\<lparr>auPrincipal = principalString p, auAction = c, auTarget = s, auDecision = AuditDecisionDeny, auAuthMethod = [],
            auOnBehalfOf = [], auPolicy = cpolName pol @ '':condition_failed''\<rparr>])\<rparr>)"

text \<open>The loop over the conditional policies: whether one granted, whether one applied, and the authorizer with its log.\<close>

fun policyLoop :: "Principal \<Rightarrow> Capability \<Rightarrow> Scope \<Rightarrow> ResourceContext option \<Rightarrow> ConditionalPolicy list \<Rightarrow> bool \<Rightarrow> APIAuthorizer \<Rightarrow>
    bool \<times> bool \<times> APIAuthorizer" where
  "policyLoop p c s rc [] matched a = (False, matched, a)"
| "policyLoop p c s rc (pol # pols) matched a =
     (if cpolCapability pol \<noteq> c \<and> cpolCapability pol \<noteq> CapabilityClusterAdmin then policyLoop p c s rc pols matched a
      else if EvaluateConditions (cpolConditions pol) p rc then (True, True, a)
      else policyLoop p c s rc pols True (logConditionFailure p c s pol a))"

definition AuthorizeAPI :: "Principal \<Rightarrow> Capability \<Rightarrow> Scope \<Rightarrow> ResourceContext option \<Rightarrow> APIAuthorizer \<Rightarrow> APIError option \<times> APIAuthorizer" where
  "AuthorizeAPI p c s rc a =
     (if prName p = [] then (Some (IncompletePrincipal (prKind p)), a)
      else if list_ex (grantCovers c s) (resolveGrants a (principalString p)) then (None, a)
      else let (granted, matched, a') = policyLoop p c s rc (apiPolicies a) False a
           in (if granted then None
               else if matched then Some (ConditionFailed (principalString p) c s)
               else Some (CapabilityDenied (principalString p) c s), a'))"

definition GrantedScopes :: "Principal \<Rightarrow> Capability \<Rightarrow> APIAuthorizer \<Rightarrow> Scope list" where
  "GrantedScopes p c a =
     (if prName p = [] then []
      else map cgScope (filter (\<lambda>g. cgCapability g = c \<or> cgCapability g = CapabilityClusterAdmin)
             (resolveGrants a (principalString p))))"

subsection \<open>Facts compiled from configuration\<close>

definition clusterAdminFactPrefixes :: "string list" where
  "clusterAdminFactPrefixes = [''auth/'', ''policy/network/'', ''desired/cloud_identity/'']"

definition workloadFactPrefixes :: "string list" where
  "workloadFactPrefixes = [''desired/'', ''effective/'', ''intent/'', ''derived/service/'']"

definition RequiredCapabilityForFactWrite :: "string \<Rightarrow> Capability" where
  "RequiredCapabilityForFactWrite k =
     (if list_ex (HasPrefix k) clusterAdminFactPrefixes then CapabilityClusterAdmin
      else if HasPrefix k ''desired/service/'' \<and> Contains k ''/cloud_identity/'' then CapabilityClusterAdmin
      else if HasPrefix k ''desired/service/'' \<and> (Contains k ''/secret/'' \<or> HasSuffix k ''/image_pull_secret'') then CapabilitySecretUse
      else if list_ex (HasPrefix k) workloadFactPrefixes then CapabilityWorkloadCreate
      else CapabilityClusterAdmin)"

datatype FactAuthError = OnlyWritesChecked Permission | NotCapable APIError

definition factAuthorize :: "string \<Rightarrow> Permission \<Rightarrow> string \<Rightarrow> APIAuthorizer \<Rightarrow> FactAuthError option \<times> APIAuthorizer" where
  "factAuthorize who permission k a =
     (if permission \<noteq> PermissionWrite then (Some (OnlyWritesChecked permission), a)
      else let (e, a') = AuthorizeAPI (PrincipalFromKindAndName who) (RequiredCapabilityForFactWrite k) ScopeCluster None a
           in (map_option NotCapable e, a'))"

subsection \<open>The controller that rebuilds the authorizer\<close>

definition ScanAuthRoles :: string where
  [api_defs]: "ScanAuthRoles = ''auth/role/''"

definition ScanAuthGrants :: string where
  [api_defs]: "ScanAuthGrants = ''auth/grant/''"

definition ScanAuthGroups :: string where
  [api_defs]: "ScanAuthGroups = ''auth/group/''"

definition ScanAuthPolicies :: string where
  [api_defs]: "ScanAuthPolicies = ''auth/policy/''"

definition authControllerWatch :: "string list" where
  "authControllerWatch = [ScanAuthRoles, ScanAuthGrants, ScanAuthGroups, ScanAuthPolicies]"

text \<open>The shape of the parsing loops: the facts under a prefix, the entries that each yields, and a map of lists.\<close>

definition pathParts :: "string \<Rightarrow> nat \<Rightarrow> Fact \<Rightarrow> string list" where
  "pathParts p n f = SplitN (TrimPrefix (Key f) p) slash n"

definition collectEntries :: "(Fact \<Rightarrow> (string \<times> 'a) list) \<Rightarrow> Fact list \<Rightarrow> (string \<times> 'a list) list" where
  "collectEntries entriesOf fs = fold (\<lambda>(k, v) m. appendAt k [v] m) (concat (map entriesOf fs)) []"

definition threePartEntry :: "string \<Rightarrow> string \<Rightarrow> Fact \<Rightarrow> (string \<times> string) list" where
  "threePartEntry p kind f =
     (let parts = pathParts p 3 f in if length parts = 3 \<and> parts ! 1 = kind then [(parts ! 0, parts ! 2)] else [])"

definition parseRoleCapabilitiesFromFacts :: "Fact list \<Rightarrow> (string \<times> Capability list) list" where
  "parseRoleCapabilitiesFromFacts fs = collectEntries (threePartEntry ScanAuthRoles ''capability'') (FactsWithPrefix fs ScanAuthRoles)"

definition parseRoleScopesFromFacts :: "Fact list \<Rightarrow> (string \<times> Scope list) list" where
  "parseRoleScopesFromFacts fs = collectEntries (threePartEntry ScanAuthRoles ''scope'') (FactsWithPrefix fs ScanAuthRoles)"

definition parseGroupMembersFromFacts :: "Fact list \<Rightarrow> (string \<times> string list) list" where
  "parseGroupMembersFromFacts fs = collectEntries (threePartEntry ScanAuthGroups ''member'') (FactsWithPrefix fs ScanAuthGroups)"

definition grantEntries :: "(string \<times> string list) list \<Rightarrow> Fact \<Rightarrow> (string \<times> string) list" where
  "grantEntries groupMembers f =
     (let parts = pathParts ScanAuthGrants 4 f
      in if length parts = 4 \<and> parts ! 2 = ''role''
         then (if parts ! 0 = ''group'' then map (\<lambda>m. (''user:'' @ m, parts ! 3)) (lookupList groupMembers (parts ! 1))
               else [(parts ! 0 @ '':'' @ parts ! 1, parts ! 3)])
         else [])"

definition parsePrincipalRolesFromFacts :: "Fact list \<Rightarrow> (string \<times> string list) list \<Rightarrow> (string \<times> string list) list" where
  "parsePrincipalRolesFromFacts fs groupMembers = collectEntries (grantEntries groupMembers) (FactsWithPrefix fs ScanAuthGrants)"

definition grantsOfRole :: "(string \<times> Capability list) list \<Rightarrow> (string \<times> Scope list) list \<Rightarrow> string \<Rightarrow> CapabilityGrant list" where
  "grantsOfRole roleCapabilities roleScopes role =
     (let capabilities = lookupList roleCapabilities role;
          scopes = (if lookupList roleScopes role = [] then [ScopeCluster] else lookupList roleScopes role)
      in if capabilities = [] then BuiltinRoleCapabilities role
         else concat (map (\<lambda>c. map (\<lambda>s. \<lparr>cgCapability = c, cgScope = s\<rparr>) scopes) capabilities))"

definition buildCapabilityGrants :: "(string \<times> string list) list \<Rightarrow> (string \<times> Capability list) list \<Rightarrow> (string \<times> Scope list) list \<Rightarrow> grantMap" where
  "buildCapabilityGrants principalRoles roleCapabilities roleScopes =
     fold (\<lambda>p m. fold (\<lambda>role. appendAt p (grantsOfRole roleCapabilities roleScopes role)) (lookupList principalRoles p) m)
       (sort (map fst principalRoles)) []"

record policyConditionComponents =
  pcCapabilities :: "(string \<times> string) list"
  pcFields :: "string \<Rightarrow> (int \<times> string) list"
  pcOperators :: "string \<Rightarrow> (int \<times> string) list"
  pcValues :: "string \<Rightarrow> (int \<times> string) list"

fun conditionIndexLoop :: "string \<Rightarrow> int \<Rightarrow> int" where
  "conditionIndexLoop [] n = n"
| "conditionIndexLoop (c # cs) n = (if isDigit c then conditionIndexLoop cs (wrap64 (n * 10 + digitVal c)) else -1)"

definition parseConditionIndex :: "string \<Rightarrow> int" where
  "parseConditionIndex s = (if s = [] then -1 else conditionIndexLoop s 0)"

definition storeConditionComponent :: "string \<Rightarrow> int \<Rightarrow> string \<Rightarrow> string \<Rightarrow> policyConditionComponents \<Rightarrow> policyConditionComponents" where
  "storeConditionComponent n i kind v pc =
     (if kind = ''field'' then pc\<lparr>pcFields := (pcFields pc)(n := AList.update i v (pcFields pc n))\<rparr>
      else if kind = ''operator'' then pc\<lparr>pcOperators := (pcOperators pc)(n := AList.update i v (pcOperators pc n))\<rparr>
      else if kind = ''value'' then pc\<lparr>pcValues := (pcValues pc)(n := AList.update i v (pcValues pc n))\<rparr>
      else pc)"

definition collectPolicyFact :: "Fact \<Rightarrow> policyConditionComponents \<Rightarrow> policyConditionComponents" where
  "collectPolicyFact f pc =
     (let parts = pathParts ScanAuthPolicies 4 f
      in if length parts < 2 then pc
         else if parts ! 1 = ''capability'' \<and> length parts = 2
         then pc\<lparr>pcCapabilities := AList.update (parts ! 0) (Value f) (pcCapabilities pc)\<rparr>
         else if parts ! 1 = ''condition'' \<and> length parts = 4
         then (let i = parseConditionIndex (parts ! 2)
               in if i < 0 then pc else storeConditionComponent (parts ! 0) i (parts ! 3) (Value f) pc)
         else pc)"

definition collectPolicyConditionComponentsFromFacts :: "Fact list \<Rightarrow> policyConditionComponents" where
  "collectPolicyConditionComponentsFromFacts fs =
     fold collectPolicyFact (FactsWithPrefix fs ScanAuthPolicies)
       \<lparr>pcCapabilities = [], pcFields = (\<lambda>n. []), pcOperators = (\<lambda>n. []), pcValues = (\<lambda>n. [])\<rparr>"

definition conditionAt :: "string \<Rightarrow> policyConditionComponents \<Rightarrow> int \<Rightarrow> Condition list" where
  "conditionAt n pc i =
     (case (map_of (pcFields pc n) i, map_of (pcOperators pc n) i, map_of (pcValues pc n) i) of
        (Some f, Some oper, Some v) \<Rightarrow> [\<lparr>coField = f, coOperator = oper, coValue = v\<rparr>]
      | _ \<Rightarrow> [])"

text \<open>
  The loop over the indices counts in a 64-bit int: at the largest one the counter wraps and the loop does not end, which is \<open>None\<close>.
\<close>

partial_function (option) conditionLoop :: "string \<Rightarrow> policyConditionComponents \<Rightarrow> int \<Rightarrow> int \<Rightarrow> Condition list option" where
  [code]: "conditionLoop n pc maxIndex i =
     (if i \<le> maxIndex
      then Option.bind (conditionLoop n pc maxIndex (add64 i 1)) (\<lambda>cs. Some (conditionAt n pc i @ cs))
      else Some [])"

definition maxConditionIndex :: "string \<Rightarrow> policyConditionComponents \<Rightarrow> int" where
  "maxConditionIndex n pc = fold max (map fst (pcFields pc n)) (-1)"

definition assembleConditionsForPolicy :: "string \<Rightarrow> policyConditionComponents \<Rightarrow> Condition list option" where
  "assembleConditionsForPolicy n pc = conditionLoop n pc (maxConditionIndex n pc) 0"

fun assemblePolicies :: "policyConditionComponents \<Rightarrow> string list \<Rightarrow> ConditionalPolicy list option" where
  "assemblePolicies pc [] = Some []"
| "assemblePolicies pc (n # ns) =
     (case assembleConditionsForPolicy n pc of
        None \<Rightarrow> None
      | Some cs \<Rightarrow>
          map_option
            (\<lambda>pols. if cs = [] then pols
                    else \<lparr>cpolName = n, cpolCapability = the (map_of (pcCapabilities pc) n), cpolConditions = cs\<rparr> # pols)
            (assemblePolicies pc ns))"

definition parseConditionalPoliciesFromFacts :: "Fact list \<Rightarrow> ConditionalPolicy list option" where
  "parseConditionalPoliciesFromFacts fs =
     (let pc = collectPolicyConditionComponentsFromFacts fs in assemblePolicies pc (sort (map fst (pcCapabilities pc))))"

text \<open>\<open>None\<close> is a cycle that never returns; the grants have then been replaced and the policies have not.\<close>

definition authReconcile :: "Fact list \<Rightarrow> APIAuthorizer \<Rightarrow> APIAuthorizer option" where
  "authReconcile fs a =
     (let roleCapabilities = parseRoleCapabilitiesFromFacts fs;
          roleScopes = parseRoleScopesFromFacts fs;
          groupMembers = parseGroupMembersFromFacts fs;
          principalRoles = parsePrincipalRolesFromFacts fs groupMembers;
          newGrants = buildCapabilityGrants principalRoles roleCapabilities roleScopes
      in map_option (\<lambda>pols. ReplacePolicies pols (ReplaceGrants newGrants a)) (parseConditionalPoliciesFromFacts fs))"

subsection \<open>Maps of lists\<close>

lemma lookupList_Nil [simp]: "lookupList [] k = []"
  by (simp add: lookupList_def)

lemma lookupList_appendAt [simp]:
  "lookupList (appendAt k xs m) k' = (if k' = k then lookupList m k @ xs else lookupList m k')"
  by (simp add: lookupList_def appendAt_def update_conv')

lemma distinct_appendAt [simp]: "distinct (map fst m) \<Longrightarrow> distinct (map fst (appendAt k xs m))"
  by (simp add: appendAt_def distinct_update)

lemma lookupList_notin: "k \<notin> fst ` set m \<Longrightarrow> lookupList m k = []"
  by (auto simp: lookupList_def split: option.splits dest: map_of_SomeD intro: rev_image_eqI)

lemma lookupList_entry: "distinct (map fst m) \<Longrightarrow> (k, xs) \<in> set m \<Longrightarrow> lookupList m k = xs"
  by (simp add: lookupList_def)

lemma lookupList_mem: "x \<in> set (lookupList m k) \<Longrightarrow> (k, lookupList m k) \<in> set m"
  by (auto simp: lookupList_def split: option.splits dest: map_of_SomeD)

lemma lookupList_fold_entries:
  "lookupList (fold (\<lambda>(k, v) m. appendAt k [v] m) es m) k = lookupList m k @ map snd (filter (\<lambda>e. fst e = k) es)"
  by (induction es arbitrary: m) auto

lemma distinct_fold_entries:
  "distinct (map fst m) \<Longrightarrow> distinct (map fst (fold (\<lambda>(k, v) m. appendAt k [v] m) es m))"
  by (induction es arbitrary: m) auto

lemma collectEntries_mem: "v \<in> set (lookupList (collectEntries g fs) k) \<longleftrightarrow> (\<exists>f\<in>set fs. (k, v) \<in> set (g f))"
  by (force simp: collectEntries_def lookupList_fold_entries)

lemma distinct_collectEntries: "distinct (map fst (collectEntries g fs))"
  by (simp add: collectEntries_def distinct_fold_entries)

subsection \<open>Paths\<close>

definition hasFact :: "Fact list \<Rightarrow> string \<Rightarrow> bool" where
  "hasFact fs k \<longleftrightarrow> k \<in> Key ` set fs"

lemma three_parts:
  "(k, v) \<in> set (if length ps = 3 \<and> ps ! 1 = kind then [(ps ! 0, ps ! 2)] else []) \<longleftrightarrow> ps = [k, kind, v]"
  by (auto simp: length_3)

lemma threePartEntry_mem:
  "(k, v) \<in> set (threePartEntry p kind f) \<longleftrightarrow>
     slash \<notin> set k \<and> slash \<notin> set kind \<and> TrimPrefix (Key f) p = k @ slash # kind @ slash # v"
  unfolding SplitN_3 [symmetric] threePartEntry_def pathParts_def Let_def by (rule three_parts)

lemma hasFact_iff: "hasFact fs k \<longleftrightarrow> (\<exists>f. f \<in> set fs \<and> Key f = k)"
  by (auto simp: hasFact_def)

lemma collect_threePart:
  assumes "sorted (map Key fs)" and "p \<noteq> []" and "slash \<notin> set kind"
  shows "v \<in> set (lookupList (collectEntries (threePartEntry p kind) (FactsWithPrefix fs p)) k) \<longleftrightarrow>
    slash \<notin> set k \<and> hasFact fs (p @ k @ slash # kind @ slash # v)"
proof -
  have "f \<in> set (FactsWithPrefix fs p) \<and> (k, v) \<in> set (threePartEntry p kind f) \<longleftrightarrow>
      slash \<notin> set k \<and> f \<in> set fs \<and> Key f = p @ k @ slash # kind @ slash # v" for f
    using assms(3) FactsWithPrefix_mem [OF assms(1, 2), of f]
    by (auto simp: threePartEntry_mem under_prefix)
  then show ?thesis unfolding collectEntries_mem hasFact_def Bex_def image_iff by (metis (no_types))
qed

subsection \<open>Grants from facts\<close>

text \<open>What the facts say: who is bound to a role, directly or as a member of a group, and what a role gives.\<close>

definition roleBound :: "Fact list \<Rightarrow> string \<Rightarrow> string \<Rightarrow> bool" where
  "roleBound fs bound role \<longleftrightarrow>
     (\<exists>kind name. slash \<notin> set kind \<and> slash \<notin> set name \<and>
        hasFact fs (ScanAuthGrants @ kind @ slash # name @ slash # ''role'' @ slash # role) \<and>
        (if kind = ''group''
         then \<exists>member. hasFact fs (ScanAuthGroups @ name @ slash # ''member'' @ slash # member) \<and> bound = ''user:'' @ member
         else bound = kind @ '':'' @ name))"

definition roleHas :: "Fact list \<Rightarrow> string \<Rightarrow> string \<Rightarrow> string \<Rightarrow> bool" where
  "roleHas fs what role v \<longleftrightarrow> slash \<notin> set role \<and> hasFact fs (ScanAuthRoles @ role @ slash # what @ slash # v)"

definition roleGives :: "Fact list \<Rightarrow> string \<Rightarrow> CapabilityGrant \<Rightarrow> bool" where
  "roleGives fs role g \<longleftrightarrow>
     (if \<exists>c. roleHas fs ''capability'' role c
      then roleHas fs ''capability'' role (cgCapability g) \<and>
           (if \<exists>s. roleHas fs ''scope'' role s then roleHas fs ''scope'' role (cgScope g) else cgScope g = ScopeCluster)
      else g \<in> set (BuiltinRoleCapabilities role))"

lemma roleCapabilities_mem:
  assumes "sorted (map Key fs)"
  shows "c \<in> set (lookupList (parseRoleCapabilitiesFromFacts fs) role) \<longleftrightarrow> roleHas fs ''capability'' role c"
  unfolding parseRoleCapabilitiesFromFacts_def roleHas_def
  by (rule collect_threePart [OF assms]) (simp_all add: api_defs)

lemma roleScopes_mem:
  assumes "sorted (map Key fs)"
  shows "s \<in> set (lookupList (parseRoleScopesFromFacts fs) role) \<longleftrightarrow> roleHas fs ''scope'' role s"
  unfolding parseRoleScopesFromFacts_def roleHas_def
  by (rule collect_threePart [OF assms]) (simp_all add: api_defs)

lemma groupMembers_mem:
  assumes "sorted (map Key fs)"
  shows "m \<in> set (lookupList (parseGroupMembersFromFacts fs) g) \<longleftrightarrow>
    slash \<notin> set g \<and> hasFact fs (ScanAuthGroups @ g @ slash # ''member'' @ slash # m)"
  unfolding parseGroupMembersFromFacts_def
  by (rule collect_threePart [OF assms]) (simp_all add: api_defs)

lemma set_empty_iff: "xs = [] \<longleftrightarrow> \<not> (\<exists>x. x \<in> set xs)"
  by (cases xs) auto

lemma grantsOfRole_mem:
  assumes "sorted (map Key fs)"
  shows "g \<in> set (grantsOfRole (parseRoleCapabilitiesFromFacts fs) (parseRoleScopesFromFacts fs) role) \<longleftrightarrow> roleGives fs role g"
proof -
  let ?C = "lookupList (parseRoleCapabilitiesFromFacts fs) role" and ?S = "lookupList (parseRoleScopesFromFacts fs) role"
  have C: "?C = [] \<longleftrightarrow> \<not> (\<exists>c. roleHas fs ''capability'' role c)" and S: "?S = [] \<longleftrightarrow> \<not> (\<exists>s. roleHas fs ''scope'' role s)"
    by (simp_all add: set_empty_iff roleCapabilities_mem [OF assms] roleScopes_mem [OF assms])
  have prod: "g \<in> set (concat (map (\<lambda>c. map (\<lambda>s. \<lparr>cgCapability = c, cgScope = s\<rparr>) ss) cs)) \<longleftrightarrow>
      cgCapability g \<in> set cs \<and> cgScope g \<in> set ss" for cs ss
    by (cases g) auto
  show ?thesis
    unfolding grantsOfRole_def Let_def roleGives_def
    using C S by (simp only: prod roleCapabilities_mem [OF assms] roleScopes_mem [OF assms] split: if_split) auto
qed

lemma four_parts: "length ps = 4 \<and> ps ! 2 = kind \<longleftrightarrow> (\<exists>w x z. ps = [w, x, kind, z])"
  by (auto simp: length_4)

lemma grantEntries_mem:
  "(b, role) \<in> set (grantEntries gm f) \<longleftrightarrow>
     (\<exists>kind name. slash \<notin> set kind \<and> slash \<notin> set name \<and>
        TrimPrefix (Key f) ScanAuthGrants = kind @ slash # name @ slash # ''role'' @ slash # role \<and>
        (if kind = ''group'' then \<exists>member\<in>set (lookupList gm name). b = ''user:'' @ member else b = kind @ '':'' @ name))"
proof -
  have "(b, role) \<in> set (grantEntries gm f) \<longleftrightarrow>
     (\<exists>kind name. pathParts ScanAuthGrants 4 f = [kind, name, ''role'', role] \<and>
        (if kind = ''group'' then \<exists>member\<in>set (lookupList gm name). b = ''user:'' @ member else b = kind @ '':'' @ name))"
  proof (cases "length (pathParts ScanAuthGrants 4 f) = 4 \<and> pathParts ScanAuthGrants 4 f ! 2 = ''role''")
    case True
    then obtain w x z where ps: "pathParts ScanAuthGrants 4 f = [w, x, ''role'', z]" unfolding four_parts by blast
    show ?thesis unfolding grantEntries_def Let_def ps by (cases "w = ''group''") auto
  next
    case False
    then have none: "pathParts ScanAuthGrants 4 f \<noteq> [w, x, ''role'', z]" for w x z unfolding four_parts by blast
    have "grantEntries gm f = []" unfolding grantEntries_def Let_def using False by (rule if_not_P)
    then show ?thesis using none by simp
  qed
  then show ?thesis by (simp add: pathParts_def SplitN_4 conj_assoc)
qed

lemma principalRoles_mem:
  assumes "sorted (map Key fs)"
  shows "role \<in> set (lookupList (parsePrincipalRolesFromFacts fs (parseGroupMembersFromFacts fs)) b) \<longleftrightarrow> roleBound fs b role"
proof -
  let ?gm = "parseGroupMembersFromFacts fs"
  define K where "K kind name = kind @ slash # name @ slash # ''role'' @ slash # role" for kind name
  define B where "B kind name \<longleftrightarrow>
    (if kind = ''group'' then \<exists>member\<in>set (lookupList ?gm name). b = ''user:'' @ member else b = kind @ '':'' @ name)" for kind name
  define B' where "B' kind name \<longleftrightarrow>
    (if kind = ''group'' then \<exists>member. hasFact fs (ScanAuthGroups @ name @ slash # ''member'' @ slash # member) \<and> b = ''user:'' @ member
     else b = kind @ '':'' @ name)" for kind name
  have fwp: "f \<in> set (FactsWithPrefix fs ScanAuthGrants) \<longleftrightarrow> f \<in> set fs \<and> HasPrefix (Key f) ScanAuthGrants" for f
    by (rule FactsWithPrefix_mem [OF assms]) (simp add: api_defs)
  have ent: "(b, role) \<in> set (grantEntries ?gm f) \<longleftrightarrow>
      (\<exists>kind name. slash \<notin> set kind \<and> slash \<notin> set name \<and> TrimPrefix (Key f) ScanAuthGrants = K kind name \<and> B kind name)" for f
    unfolding K_def B_def by (rule grantEntries_mem)
  have BB: "slash \<notin> set name \<Longrightarrow> B kind name \<longleftrightarrow> B' kind name" for kind name
    unfolding B_def B'_def Bex_def groupMembers_mem [OF assms] by simp
  have "role \<in> set (lookupList (parsePrincipalRolesFromFacts fs ?gm) b) \<longleftrightarrow>
      (\<exists>f. f \<in> set fs \<and> HasPrefix (Key f) ScanAuthGrants \<and>
        (\<exists>kind name. slash \<notin> set kind \<and> slash \<notin> set name \<and> TrimPrefix (Key f) ScanAuthGrants = K kind name \<and> B kind name))"
    unfolding parsePrincipalRolesFromFacts_def collectEntries_mem Bex_def fwp ent conj_assoc ..
  also have "\<dots> \<longleftrightarrow> (\<exists>kind name. slash \<notin> set kind \<and> slash \<notin> set name \<and>
      (\<exists>f. f \<in> set fs \<and> Key f = ScanAuthGrants @ K kind name) \<and> B' kind name)"
    unfolding trimmed_iff [symmetric] using BB by blast
  also have "\<dots> \<longleftrightarrow> (\<exists>kind name. slash \<notin> set kind \<and> slash \<notin> set name \<and> hasFact fs (ScanAuthGrants @ K kind name) \<and> B' kind name)"
    unfolding hasFact_iff ..
  also have "\<dots> \<longleftrightarrow> roleBound fs b role"
    unfolding roleBound_def K_def B'_def ..
  finally show ?thesis .
qed

lemma lookupList_fold_append:
  "lookupList (fold (\<lambda>r. appendAt p (G r)) rs m) k = lookupList m k @ (if k = p then concat (map G rs) else [])"
  by (induction rs arbitrary: m) auto

lemma distinct_fold_append: "distinct (map fst m) \<Longrightarrow> distinct (map fst (fold (\<lambda>r. appendAt p (G r)) rs m))"
  by (induction rs arbitrary: m) auto

lemma lookupList_fold_build:
  "distinct ps \<Longrightarrow> lookupList (fold (\<lambda>p m. fold (\<lambda>r. appendAt p (G r)) (R p) m) ps m) k =
     lookupList m k @ (if k \<in> set ps then concat (map G (R k)) else [])"
  by (induction ps arbitrary: m) (auto simp: lookupList_fold_append)

lemma distinct_fold_build:
  "distinct (map fst m) \<Longrightarrow> distinct (map fst (fold (\<lambda>p m. fold (\<lambda>r. appendAt p (G r)) (R p) m) ps m))"
  by (induction ps arbitrary: m) (auto simp: distinct_fold_append)

lemma lookupList_build:
  assumes "distinct (map fst pr)"
  shows "lookupList (buildCapabilityGrants pr rc rs) k = concat (map (grantsOfRole rc rs) (lookupList pr k))"
proof -
  have "distinct (sort (map fst pr))" using assms by simp
  from lookupList_fold_build [OF this, of "grantsOfRole rc rs" "lookupList pr" "[]" k] show ?thesis
    by (auto simp: buildCapabilityGrants_def lookupList_notin)
qed

lemma distinct_build: "distinct (map fst (buildCapabilityGrants pr rc rs))"
  unfolding buildCapabilityGrants_def by (rule distinct_fold_build) simp

subsection \<open>The authorizer\<close>

text \<open>The type invariant of the authorizer: each of its maps has one entry for a key.\<close>

definition api_wf :: "APIAuthorizer \<Rightarrow> bool" where
  "api_wf a \<longleftrightarrow> distinct (map fst (apiGrants a)) \<and> distinct (map fst (bootstrapGrants a))"

definition bindingMatches :: "string \<Rightarrow> string \<Rightarrow> bool" where
  "bindingMatches bound p \<longleftrightarrow> bound = p \<or> wildcardMatches bound p"

lemma set_appendMatchingGrants:
  assumes "distinct (map fst m)"
  shows "g \<in> set (appendMatchingGrants xs m p) \<longleftrightarrow> g \<in> set xs \<or> (\<exists>b. bindingMatches b p \<and> g \<in> set (lookupList m b))"
proof -
  have "(\<exists>(b, gs)\<in>set m. wildcardMatches b p \<and> g \<in> set gs) \<longleftrightarrow> (\<exists>b. wildcardMatches b p \<and> g \<in> set (lookupList m b))"
    using lookupList_entry [OF assms] lookupList_mem [of g m] by fastforce
  moreover have "g \<in> set (concat (map (\<lambda>(b, gs). if wildcardMatches b p then gs else []) m)) \<longleftrightarrow>
      (\<exists>(b, gs)\<in>set m. wildcardMatches b p \<and> g \<in> set gs)"
    by (auto split: if_splits)
  ultimately show ?thesis by (auto simp: appendMatchingGrants_def bindingMatches_def)
qed

lemma set_resolveGrants:
  assumes "api_wf a"
  shows "g \<in> set (resolveGrants a p) \<longleftrightarrow>
    (\<exists>b. bindingMatches b p \<and> (g \<in> set (lookupList (bootstrapGrants a) b) \<or> g \<in> set (lookupList (apiGrants a) b)))"
  using assms by (auto simp: resolveGrants_def api_wf_def set_appendMatchingGrants)

definition policyApplies :: "Principal \<Rightarrow> Capability \<Rightarrow> ResourceContext option \<Rightarrow> ConditionalPolicy \<Rightarrow> bool" where
  "policyApplies p c rc pol \<longleftrightarrow> cpolCapability pol \<in> {c, CapabilityClusterAdmin} \<and> EvaluateConditions (cpolConditions pol) p rc"

lemma policyLoop_granted: "fst (policyLoop p c s rc pols matched a) \<longleftrightarrow> (\<exists>pol\<in>set pols. policyApplies p c rc pol)"
  by (induction p c s rc pols matched a rule: policyLoop.induct) (auto simp: policyApplies_def)

lemma AuthorizeAPI_allows:
  assumes "prName p \<noteq> []"
  shows "fst (AuthorizeAPI p c s rc a) = None \<longleftrightarrow>
    (\<exists>g\<in>set (resolveGrants a (principalString p)). grantCovers c s g) \<or> (\<exists>pol\<in>set (apiPolicies a). policyApplies p c rc pol)"
  using assms policyLoop_granted [of p c s rc "apiPolicies a" False a]
  by (auto simp: AuthorizeAPI_def list_ex_iff split: prod.split)

lemma logConditionFailure_keeps [simp]:
  "apiGrants (logConditionFailure p c s pol a) = apiGrants a"
  "bootstrapGrants (logConditionFailure p c s pol a) = bootstrapGrants a"
  "apiPolicies (logConditionFailure p c s pol a) = apiPolicies a"
  by (simp_all add: logConditionFailure_def split: option.split)

lemma policyLoop_keeps:
  "policyLoop p c s rc pols matched a = (granted, matched', a') \<Longrightarrow>
     apiGrants a' = apiGrants a \<and> bootstrapGrants a' = bootstrapGrants a \<and> apiPolicies a' = apiPolicies a"
  by (induction p c s rc pols matched a rule: policyLoop.induct) (auto split: if_splits)

lemma AuthorizeAPI_keeps:
  "apiGrants (snd (AuthorizeAPI p c s rc a)) = apiGrants a"
  "bootstrapGrants (snd (AuthorizeAPI p c s rc a)) = bootstrapGrants a"
  "apiPolicies (snd (AuthorizeAPI p c s rc a)) = apiPolicies a"
  by (auto simp: AuthorizeAPI_def split: prod.split dest: policyLoop_keeps)

lemma api_wf_steps:
  "api_wf NewAPIAuthorizer"
  "api_wf a \<Longrightarrow> api_wf (Grant b c s a)"
  "api_wf a \<Longrightarrow> api_wf (GrantRole b role a)"
  "api_wf a \<Longrightarrow> api_wf (SetAuditLogger l a)"
  "api_wf a \<Longrightarrow> api_wf (ReplacePolicies pols a)"
  "api_wf a \<Longrightarrow> distinct (map fst m) \<Longrightarrow> api_wf (ReplaceGrants m a)"
  "api_wf a \<Longrightarrow> api_wf (snd (AuthorizeAPI p c s rc a))"
  by (auto simp: api_wf_def NewAPIAuthorizer_def Grant_def GrantRole_def SetAuditLogger_def ReplacePolicies_def ReplaceGrants_def
      AuthorizeAPI_keeps)

lemma authReconcile_parts:
  assumes "authReconcile fs a = Some a'"
  shows "apiGrants a' = buildCapabilityGrants (parsePrincipalRolesFromFacts fs (parseGroupMembersFromFacts fs))
           (parseRoleCapabilitiesFromFacts fs) (parseRoleScopesFromFacts fs)"
    and "bootstrapGrants a' = bootstrapGrants a" and "parseConditionalPoliciesFromFacts fs = Some (apiPolicies a')"
  using assms by (auto simp: authReconcile_def ReplacePolicies_def ReplaceGrants_def Let_def)

lemma api_wf_authReconcile: "api_wf a \<Longrightarrow> authReconcile fs a = Some a' \<Longrightarrow> api_wf a'"
  by (simp add: api_wf_def authReconcile_parts distinct_build)

lemma reconciled_grants:
  assumes "sorted (map Key fs)" and "authReconcile fs a = Some a'"
  shows "g \<in> set (lookupList (apiGrants a') b) \<longleftrightarrow> (\<exists>role. roleBound fs b role \<and> roleGives fs role g)"
proof -
  have "distinct (map fst (parsePrincipalRolesFromFacts fs (parseGroupMembersFromFacts fs)))"
    by (simp add: parsePrincipalRolesFromFacts_def distinct_collectEntries)
  then show ?thesis
    by (simp add: authReconcile_parts(1) [OF assms(2)] lookupList_build grantsOfRole_mem [OF assms(1)]
        principalRoles_mem [OF assms(1)] Bex_def)
qed

subsection \<open>Conditional policies from facts\<close>

lemma conditionLoop_returns:
  assumes "m < 2 ^ 63 - 1" and "- (2 ^ 63) \<le> i"
  shows "conditionLoop n pc m i = Some (concat (map (conditionAt n pc) [i..m]))"
  using assms(2)
proof (induction "nat (m + 1 - i)" arbitrary: i)
  case 0
  then show ?case by (subst conditionLoop.simps) simp
next
  case (Suc k)
  then have le: "i \<le> m" by linarith
  with assms(1) Suc.prems have next_i: "add64 i 1 = i + 1"
    unfolding add64_def by (intro wrap64_id) (simp add: in64_def)
  have "conditionLoop n pc m (i + 1) = Some (concat (map (conditionAt n pc) [i + 1..m]))"
    using Suc.hyps(2) Suc.prems by (intro Suc.hyps(1)) linarith+
  then show ?case using le next_i upto_rec1 [OF le] by (subst conditionLoop.simps) simp
qed

text \<open>From any 64-bit counter the loop up to the largest index runs on: the counter never exceeds the bound.\<close>

lemma conditionLoop_hangs:
  assumes "in64 i"
  shows "conditionLoop n pc (2 ^ 63 - 1) i = None"
proof -
  have "m = 2 ^ 63 - 1 \<longrightarrow> \<not> in64 i" if "conditionLoop n pc m i = Some y" for m i y
    using that
  proof (rule conditionLoop.raw_induct [where P = "\<lambda>n pc m i y. m = 2 ^ 63 - 1 \<longrightarrow> \<not> in64 i", rotated])
    fix f n pc m i y
    assume IH: "\<And>n pc m i y. f n pc m i = Some y \<Longrightarrow> m = 2 ^ 63 - 1 \<longrightarrow> \<not> in64 i"
      and run: "(if i \<le> m then Option.bind (f n pc m (add64 i 1)) (\<lambda>cs. Some (conditionAt n pc i @ cs)) else Some []) = Some y"
    show "m = 2 ^ 63 - 1 \<longrightarrow> \<not> in64 i"
    proof (intro impI notI)
      assume m: "m = 2 ^ 63 - 1" and i: "in64 i"
      then have "i \<le> m" by (simp add: in64_def)
      with run obtain cs where "f n pc m (add64 i 1) = Some cs" by (auto simp: bind_eq_Some_conv)
      from IH [OF this] m show False by simp
    qed
  qed
  then show ?thesis using assms by (cases "conditionLoop n pc (2 ^ 63 - 1) i") auto
qed

lemma conditionIndex_in64: "in64 k \<Longrightarrow> in64 (conditionIndexLoop s k)"
  by (induction s arbitrary: k) (simp_all add: in64_def [of "-1"])

lemma parseConditionIndex_in64: "in64 (parseConditionIndex s)"
  using conditionIndex_in64 [of 0 s] by (simp add: parseConditionIndex_def in64_def)

lemma fold_max_ge: "(m :: int) \<le> fold max xs m"
  by (induction xs arbitrary: m) (simp, metis fold_simps(2) max.bounded_iff)

lemma fold_max_bound: "\<forall>x\<in>set xs. x < (b :: int) \<Longrightarrow> m < b \<Longrightarrow> fold max xs m < b"
  by (induction xs arbitrary: m) auto

lemma fold_max_upper: "x \<in> set xs \<Longrightarrow> (x :: int) \<le> fold max xs m"
  by (induction xs arbitrary: m) (auto intro: order_trans [OF _ fold_max_ge])

text \<open>The names and indices that the scan collects are those of the facts.\<close>

definition policyNamed :: "Fact list \<Rightarrow> string \<Rightarrow> bool" where
  "policyNamed fs n \<longleftrightarrow> slash \<notin> set n \<and> hasFact fs (ScanAuthPolicies @ n @ slash # ''capability'')"

definition policyIndexed :: "Fact list \<Rightarrow> string \<Rightarrow> int \<Rightarrow> bool" where
  "policyIndexed fs n i \<longleftrightarrow> slash \<notin> set n \<and>
     (\<exists>idx. slash \<notin> set idx \<and> parseConditionIndex idx = i \<and>
        hasFact fs (ScanAuthPolicies @ n @ slash # ''condition'' @ slash # idx @ slash # ''field''))"

lemma two_parts_iff: "length ps = 2 \<and> ps ! 1 = k \<longleftrightarrow> (\<exists>n. ps = [n, k])"
  by (auto simp: numeral_2_eq_2 length_Suc_conv)

lemma condition_parts_iff: "length ps = 4 \<and> ps ! 1 = k \<longleftrightarrow> (\<exists>n i c. ps = [n, k, i, c])"
  by (auto simp: length_4)

lemma collectPolicyFact_cases:
  obtains (cap) n where "pathParts ScanAuthPolicies 4 f = [n, ''capability'']"
      "collectPolicyFact f pc = pc\<lparr>pcCapabilities := AList.update n (Value f) (pcCapabilities pc)\<rparr>"
  | (cond) n idx c where "pathParts ScanAuthPolicies 4 f = [n, ''condition'', idx, c]" "0 \<le> parseConditionIndex idx"
      "collectPolicyFact f pc = storeConditionComponent n (parseConditionIndex idx) c (Value f) pc"
  | (other) "\<And>n. pathParts ScanAuthPolicies 4 f \<noteq> [n, ''capability'']"
      "\<And>n idx c. pathParts ScanAuthPolicies 4 f = [n, ''condition'', idx, c] \<Longrightarrow> parseConditionIndex idx < 0" "collectPolicyFact f pc = pc"
proof -
  note it = that
  let ?ps = "pathParts ScanAuthPolicies 4 f"
  consider (a) n where "?ps = [n, ''capability'']" | (b) n idx c where "?ps = [n, ''condition'', idx, c]"
    | (c) "\<And>n. ?ps \<noteq> [n, ''capability'']" "\<And>n idx c. ?ps \<noteq> [n, ''condition'', idx, c]" by blast
  then show thesis
  proof cases
    case a
    then show ?thesis by (intro it(1) [of n]) (simp_all add: collectPolicyFact_def)
  next
    case b
    show ?thesis
    proof (cases "parseConditionIndex idx < 0")
      case True
      with b show ?thesis by (intro it(3)) (simp_all add: collectPolicyFact_def)
    next
      case False
      with b show ?thesis by (intro it(2) [of n idx c]) (simp_all add: collectPolicyFact_def)
    qed
  next
    case c
    then have "\<not> (?ps ! 1 = ''capability'' \<and> length ?ps = 2)" and "\<not> (?ps ! 1 = ''condition'' \<and> length ?ps = 4)"
      using two_parts_iff [of ?ps "''capability''"] condition_parts_iff [of ?ps "''condition''"] by blast+
    then have "collectPolicyFact f pc = pc" by (simp only: collectPolicyFact_def Let_def if_False if_cancel)
    with c show ?thesis by (intro it(3)) blast+
  qed
qed

lemma collected_names_step:
  "n \<in> fst ` set (pcCapabilities (collectPolicyFact f pc)) \<longleftrightarrow>
     n \<in> fst ` set (pcCapabilities pc) \<or> pathParts ScanAuthPolicies 4 f = [n, ''capability'']"
  by (cases rule: collectPolicyFact_cases [of f pc]) (auto simp: dom_update storeConditionComponent_def)

lemma collected_fields_step:
  "i \<in> fst ` set (pcFields (collectPolicyFact f pc) n) \<longleftrightarrow>
     i \<in> fst ` set (pcFields pc n) \<or>
     (\<exists>idx. pathParts ScanAuthPolicies 4 f = [n, ''condition'', idx, ''field''] \<and> parseConditionIndex idx = i \<and> 0 \<le> i)"
proof (cases rule: collectPolicyFact_cases [of f pc])
  case (cap m)
  then show ?thesis by simp
next
  case (cond m idx c)
  have "fst ` set (pcFields (collectPolicyFact f pc) n) =
      fst ` set (pcFields pc n) \<union> (if m = n \<and> c = ''field'' then {parseConditionIndex idx} else {})"
    unfolding cond(3) storeConditionComponent_def by (cases "c = ''field''"; cases "m = n") (simp_all add: dom_update)
  then show ?thesis using cond(2) unfolding cond(1) by simp blast
next
  case other
  have "\<not> (\<exists>idx. pathParts ScanAuthPolicies 4 f = [n, ''condition'', idx, ''field''] \<and> parseConditionIndex idx = i \<and> 0 \<le> i)"
    using other(2) [of n _ "''field''"] leD by blast
  then show ?thesis unfolding other(3) by blast
qed

lemma fold_collects: "(\<And>f s. P (step f s) \<longleftrightarrow> P s \<or> Q f) \<Longrightarrow> P (fold step fs s) \<longleftrightarrow> P s \<or> (\<exists>f\<in>set fs. Q f)"
  by (induction fs arbitrary: s) auto

lemma collected_names_fold:
  "n \<in> fst ` set (pcCapabilities (fold collectPolicyFact fs pc)) \<longleftrightarrow>
     n \<in> fst ` set (pcCapabilities pc) \<or> (\<exists>f\<in>set fs. pathParts ScanAuthPolicies 4 f = [n, ''capability''])"
  by (rule fold_collects) (rule collected_names_step)

lemma collected_fields_fold:
  "i \<in> fst ` set (pcFields (fold collectPolicyFact fs pc) n) \<longleftrightarrow>
     i \<in> fst ` set (pcFields pc n) \<or>
     (\<exists>f\<in>set fs. \<exists>idx. pathParts ScanAuthPolicies 4 f = [n, ''condition'', idx, ''field''] \<and> parseConditionIndex idx = i \<and> 0 \<le> i)"
  by (rule fold_collects) (rule collected_fields_step)

lemma policyNamed_iff:
  assumes "sorted (map Key fs)"
  shows "n \<in> fst ` set (pcCapabilities (collectPolicyConditionComponentsFromFacts fs)) \<longleftrightarrow> policyNamed fs n"
proof -
  have fwp: "f \<in> set (FactsWithPrefix fs ScanAuthPolicies) \<longleftrightarrow> f \<in> set fs \<and> HasPrefix (Key f) ScanAuthPolicies" for f
    by (rule FactsWithPrefix_mem [OF assms]) (simp add: api_defs)
  have "n \<in> fst ` set (pcCapabilities (collectPolicyConditionComponentsFromFacts fs)) \<longleftrightarrow>
      (\<exists>f\<in>set (FactsWithPrefix fs ScanAuthPolicies). pathParts ScanAuthPolicies 4 f = [n, ''capability''])"
    unfolding collectPolicyConditionComponentsFromFacts_def collected_names_fold by simp
  also have "\<dots> \<longleftrightarrow> (\<exists>f. f \<in> set fs \<and> HasPrefix (Key f) ScanAuthPolicies \<and> slash \<notin> set n \<and>
      TrimPrefix (Key f) ScanAuthPolicies = n @ slash # ''capability'')"
    unfolding Bex_def fwp pathParts_def SplitN_2_parts by simp
  also have "\<dots> \<longleftrightarrow> policyNamed fs n"
    unfolding policyNamed_def hasFact_iff trimmed_iff [symmetric] by blast
  finally show ?thesis .
qed

lemma policyIndexed_iff:
  assumes "sorted (map Key fs)"
  shows "i \<in> fst ` set (pcFields (collectPolicyConditionComponentsFromFacts fs) n) \<longleftrightarrow> policyIndexed fs n i \<and> 0 \<le> i"
proof -
  have fwp: "f \<in> set (FactsWithPrefix fs ScanAuthPolicies) \<longleftrightarrow> f \<in> set fs \<and> HasPrefix (Key f) ScanAuthPolicies" for f
    by (rule FactsWithPrefix_mem [OF assms]) (simp add: api_defs)
  have "i \<in> fst ` set (pcFields (collectPolicyConditionComponentsFromFacts fs) n) \<longleftrightarrow>
      (\<exists>f\<in>set (FactsWithPrefix fs ScanAuthPolicies). \<exists>idx.
         pathParts ScanAuthPolicies 4 f = [n, ''condition'', idx, ''field''] \<and> parseConditionIndex idx = i \<and> 0 \<le> i)"
    unfolding collectPolicyConditionComponentsFromFacts_def collected_fields_fold by simp
  also have "\<dots> \<longleftrightarrow> (\<exists>f. f \<in> set fs \<and> HasPrefix (Key f) ScanAuthPolicies \<and> (\<exists>idx. slash \<notin> set n \<and> slash \<notin> set idx \<and>
      TrimPrefix (Key f) ScanAuthPolicies = n @ slash # ''condition'' @ slash # idx @ slash # ''field'' \<and>
      parseConditionIndex idx = i \<and> 0 \<le> i))"
    unfolding Bex_def fwp pathParts_def SplitN_4 by simp
  also have "\<dots> \<longleftrightarrow> policyIndexed fs n i \<and> 0 \<le> i"
    unfolding policyIndexed_def hasFact_iff trimmed_iff [symmetric] by blast
  finally show ?thesis .
qed

lemma maxConditionIndex_bound:
  assumes "sorted (map Key fs)"
  shows "maxConditionIndex n (collectPolicyConditionComponentsFromFacts fs) \<le> 2 ^ 63 - 1"
proof -
  have "x < 2 ^ 63" if "x \<in> fst ` set (pcFields (collectPolicyConditionComponentsFromFacts fs) n)" for x
    using that parseConditionIndex_in64 unfolding policyIndexed_iff [OF assms] policyIndexed_def in64_def by blast
  then have "maxConditionIndex n (collectPolicyConditionComponentsFromFacts fs) < 2 ^ 63"
    unfolding maxConditionIndex_def by (intro fold_max_bound) auto
  then show ?thesis by linarith
qed

lemma maxConditionIndex_largest:
  assumes "sorted (map Key fs)"
  shows "maxConditionIndex n (collectPolicyConditionComponentsFromFacts fs) = 2 ^ 63 - 1 \<longleftrightarrow> policyIndexed fs n (2 ^ 63 - 1)"
    (is "?M = ?top \<longleftrightarrow> _")
proof
  let ?is = "map fst (pcFields (collectPolicyConditionComponentsFromFacts fs) n)"
  assume M: "?M = ?top"
  have "?top \<in> set ?is"
  proof (rule ccontr)
    assume "?top \<notin> set ?is"
    moreover have "\<forall>x\<in>set ?is. x \<le> ?top"
      using maxConditionIndex_bound [OF assms, of n] fold_max_upper [of _ ?is "-1"] unfolding maxConditionIndex_def by (meson order_trans)
    ultimately have "\<forall>x\<in>set ?is. x < ?top" by (metis order_le_less)
    from fold_max_bound [OF this, of "-1"] M show False unfolding maxConditionIndex_def by simp
  qed
  then show "policyIndexed fs n ?top" using policyIndexed_iff [OF assms, of ?top n] by simp
next
  assume "policyIndexed fs n ?top"
  then have "?top \<in> set (map fst (pcFields (collectPolicyConditionComponentsFromFacts fs) n))"
    using policyIndexed_iff [OF assms, of ?top n] by simp
  from fold_max_upper [OF this, of "-1"] maxConditionIndex_bound [OF assms, of n]
  show "?M = ?top" unfolding maxConditionIndex_def by linarith
qed

lemma assembleConditions_None:
  assumes "maxConditionIndex n pc \<le> 2 ^ 63 - 1"
  shows "assembleConditionsForPolicy n pc = None \<longleftrightarrow> maxConditionIndex n pc = 2 ^ 63 - 1"
proof (cases "maxConditionIndex n pc = 2 ^ 63 - 1")
  case True
  then show ?thesis using conditionLoop_hangs [of 0 n pc] by (simp add: assembleConditionsForPolicy_def in64_def)
next
  case False
  with assms have "maxConditionIndex n pc < 2 ^ 63 - 1" by linarith
  from conditionLoop_returns [OF this, of 0] False show ?thesis by (simp add: assembleConditionsForPolicy_def)
qed

lemma assemblePolicies_None: "assemblePolicies pc ns = None \<longleftrightarrow> (\<exists>n\<in>set ns. assembleConditionsForPolicy n pc = None)"
  by (induction ns) (auto split: option.split)

lemma parsePolicies_None:
  assumes "sorted (map Key fs)"
  shows "parseConditionalPoliciesFromFacts fs = None \<longleftrightarrow> (\<exists>n. policyNamed fs n \<and> policyIndexed fs n (2 ^ 63 - 1))"
  unfolding parseConditionalPoliciesFromFacts_def Let_def assemblePolicies_None set_sort set_map Bex_def
    policyNamed_iff [OF assms] assembleConditions_None [OF maxConditionIndex_bound [OF assms]]
    maxConditionIndex_largest [OF assms] ..

subsection \<open>What the controller establishes\<close>

definition groupGrantFacts :: "Fact list" where
  "groupGrantFacts = map (\<lambda>k. zeroFact\<lparr>Key := k\<rparr>)
     [''auth/grant/group/dev/role/deployer'', ''auth/group/dev/member/ann'',
      ''auth/role/deployer/capability/workload.create'', ''auth/role/deployer/scope/team/pay'']"

text \<open>C16. A cycle of the auth controller makes the API authorizer agree with the facts. When the cycle returns, a request of a
  named principal is allowed exactly when one of three things holds. A binding that matches the principal, exactly or by a trailing
  wildcard, has a bootstrap grant that covers the request. Or such a binding is bound by a grant fact, directly or as a
  member of a group, to a role that gives a covering grant: the product of the role's capability and scope facts, cluster-wide
  without scope facts, and the builtin role of that name without capability facts. Or a conditional policy assembled from the facts
  has the capability and its conditions hold. Grants and policies of earlier cycles have no influence.\<close>

theorem auth_reconcile_exact:
  assumes "sorted (map Key fs)" and "api_wf a" and "authReconcile fs a = Some a'" and "prName p \<noteq> []"
  shows "fst (AuthorizeAPI p c s rc a') = None \<longleftrightarrow>
    (\<exists>b g. bindingMatches b (principalString p) \<and> grantCovers c s g \<and>
       (g \<in> set (lookupList (bootstrapGrants a) b) \<or> (\<exists>role. roleBound fs b role \<and> roleGives fs role g))) \<or>
    (\<exists>pols. parseConditionalPoliciesFromFacts fs = Some pols \<and> (\<exists>pol\<in>set pols. policyApplies p c rc pol))"
proof -
  have g: "g \<in> set (resolveGrants a' q) \<longleftrightarrow>
      (\<exists>b. bindingMatches b q \<and> (g \<in> set (lookupList (bootstrapGrants a) b) \<or> (\<exists>role. roleBound fs b role \<and> roleGives fs role g)))" for g q
    unfolding set_resolveGrants [OF api_wf_authReconcile [OF assms(2, 3)]] reconciled_grants [OF assms(1, 3)]
      authReconcile_parts(2) [OF assms(3)] ..
  show ?thesis
    unfolding AuthorizeAPI_allows [OF assms(4)] Bex_def g authReconcile_parts(3) [OF assms(3)] option.inject by blast
qed

theorem auth_reconcile_exact_witness:
  "\<exists>a'. authReconcile groupGrantFacts NewAPIAuthorizer = Some a' \<and>
     fst (AuthorizeAPI (PrincipalFromKindAndName ''user:ann'') ''workload.create'' ''team/pay/db'' None a') = None"
proof -
  let ?p = "PrincipalFromKindAndName ''user:ann''" and ?g = "\<lparr>cgCapability = ''workload.create'', cgScope = ''team/pay''\<rparr>"
  have s: "sorted (map Key groupGrantFacts)" by code_simp
  have "authReconcile groupGrantFacts NewAPIAuthorizer \<noteq> None" by code_simp
  then obtain a' where a': "authReconcile groupGrantFacts NewAPIAuthorizer = Some a'" by blast
  have n: "prName ?p \<noteq> []" by code_simp
  have "hasFact groupGrantFacts (ScanAuthGrants @ ''group'' @ slash # ''dev'' @ slash # ''role'' @ slash # ''deployer'')"
    and "hasFact groupGrantFacts (ScanAuthGroups @ ''dev'' @ slash # ''member'' @ slash # ''ann'')" by code_simp+
  then have "roleBound groupGrantFacts ''user:ann'' ''deployer''"
    unfolding roleBound_def by (intro exI [of _ "''group''"] exI [of _ "''dev''"] conjI) auto
  moreover have cap: "roleHas groupGrantFacts ''capability'' ''deployer'' ''workload.create''"
    and sco: "roleHas groupGrantFacts ''scope'' ''deployer'' ''team/pay''"
    by code_simp+
  have "roleGives groupGrantFacts ''deployer'' ?g"
    unfolding roleGives_def CapabilityGrant.simps using cap sco by (auto split: if_split)
  moreover have "bindingMatches ''user:ann'' (principalString ?p)" and "grantCovers ''workload.create'' ''team/pay/db'' ?g"
    by code_simp+
  ultimately have "fst (AuthorizeAPI ?p ''workload.create'' ''team/pay/db'' None a') = None"
    unfolding auth_reconcile_exact [OF s api_wf_steps(1) a' n] by blast
  with a' show ?thesis by blast
qed

text \<open>C17. When a cycle of the auth controller returns. It does not exactly when some policy with a capability fact has a condition
  field at the largest 64-bit index: the loop counter then wraps below the bound and the loop has no end. With every other set of
  facts the cycle ends.\<close>

theorem auth_reconcile_returns_iff:
  assumes "sorted (map Key fs)"
  shows "authReconcile fs a = None \<longleftrightarrow> (\<exists>n. policyNamed fs n \<and> policyIndexed fs n (2 ^ 63 - 1))"
  using parsePolicies_None [OF assms] by (simp add: authReconcile_def Let_def)

theorem auth_reconcile_returns_iff_witness:
  "authReconcile [zeroFact\<lparr>Key := ''auth/policy/p/capability''\<rparr>,
      zeroFact\<lparr>Key := ''auth/policy/p/condition/9223372036854775807/field''\<rparr>] NewAPIAuthorizer = None"
    (is "authReconcile ?fs _ = None")
proof -
  have s: "sorted (map Key ?fs)" by code_simp
  have i: "parseConditionIndex ''9223372036854775807'' = 2 ^ 63 - 1" by code_simp
  have "policyNamed ?fs ''p''" by (simp add: policyNamed_def hasFact_def ScanAuthPolicies_def)
  moreover have "policyIndexed ?fs ''p'' (2 ^ 63 - 1)"
    unfolding policyIndexed_def using i
    by (intro conjI exI [of _ "''9223372036854775807''"]) (simp_all add: hasFact_def ScanAuthPolicies_def)
  ultimately show ?thesis using auth_reconcile_returns_iff [OF s, of NewAPIAuthorizer] by blast
qed

text \<open>A policy loses a condition of which one component is missing, and grants more for it.\<close>

definition teamPolicyFacts :: "Fact list" where
  "teamPolicyFacts = map (\<lambda>(k, v). zeroFact\<lparr>Key := k, Value := v\<rparr>)
     [(''auth/policy/p/capability'', ''workload.read''),
      (''auth/policy/p/condition/0/field'', ''subject.name''),
      (''auth/policy/p/condition/0/operator'', ''!=''),
      (''auth/policy/p/condition/0/value'', ''bob''),
      (''auth/policy/p/condition/1/field'', ''resource.team''),
      (''auth/policy/p/condition/1/operator'', ''==''),
      (''auth/policy/p/condition/1/value'', ''pay'')]"

definition annAsks :: "APIAuthorizer option \<Rightarrow> APIError option option" where
  "annAsks a = map_option (\<lambda>a. fst (AuthorizeAPI (PrincipalFromKindAndName ''user:ann'') ''workload.read'' ''team/ops''
     (Some \<lparr>rcTeam = ''ops'', rcName = ''db'', rcType = ''service''\<rparr>) a)) a"

lemma incomplete_condition_widens_policy:
  "annAsks (authReconcile teamPolicyFacts NewAPIAuthorizer) = Some (Some (ConditionFailed ''user:ann'' ''workload.read'' ''team/ops''))"
  "annAsks (authReconcile (butlast teamPolicyFacts) NewAPIAuthorizer) = Some None"
  by code_simp+

end
