(* ===== verification/Instance_Controller.thy ===== *)
theory Instance_Controller
  imports Scheduler_Facts Runner
begin

text \<open>
  The instance controller (\<^verbatim>\<open>src/controllers/instance.go\<close>, with the parsing helpers of \<^verbatim>\<open>helpers.go\<close>): it compares the desired number
  of instances of every service with the observed ones, stops the excess, and shares a budget of creations among the services that lack
  instances.

  The generator of random identifiers is an argument: \<open>newID k\<close> is the identifier of the \<open>k\<close>-th call in a cycle. Maps that
  are ranged over are association lists, and the code sorts their keys before it uses them. Instance states are strings, as in Go.
\<close>

subsection \<open>Keys\<close>

definition ScanEffectiveServices :: string where "ScanEffectiveServices = ''effective/service/''"
definition ScanDerivedInstances :: string where "ScanDerivedInstances = PrefixDerived @ ''/instance/''"
definition ScanDerivedServices :: string where "ScanDerivedServices = PrefixDerived @ ''/service/''"

definition KeyObservedInstance :: "string \<Rightarrow> string" where
  "KeyObservedInstance instanceID = PrefixObserved @ ''/instance/'' @ instanceID"

definition KeyObservedInstanceService :: "string \<Rightarrow> string" where
  "KeyObservedInstanceService instanceID = PrefixObserved @ ''/instance/'' @ instanceID @ ''/service''"

definition KeyObservedInstanceState :: "string \<Rightarrow> string" where
  "KeyObservedInstanceState instanceID = PrefixObserved @ ''/instance/'' @ instanceID @ ''/state''"

definition KeyObservedInstanceOrdinal :: "string \<Rightarrow> string" where
  "KeyObservedInstanceOrdinal instanceID = PrefixObserved @ ''/instance/'' @ instanceID @ ''/ordinal''"

definition KeyDerivedInstanceNodeFailure :: "string \<Rightarrow> string" where
  "KeyDerivedInstanceNodeFailure instanceID = PrefixDerived @ ''/instance/'' @ instanceID @ ''/node_failure''"

definition InstanceFailed :: string where "InstanceFailed = ''failed''"

definition defaultMaxInstanceCreationsPerCycle :: int where
  "defaultMaxInstanceCreationsPerCycle = 19"

definition maxInstanceControllerChangesPerCycle :: nat where
  "maxInstanceControllerChangesPerCycle = 58"

definition instanceWatch :: "string list" where
  "instanceWatch = [ScanEffectiveServices, ScanObservedInstances, ScanDerivedInstances, ScanDerivedServices]"

subsection \<open>Reading the facts\<close>

type_synonym instanceFields = "string \<rightharpoonup> string"

definition strAt :: "('a \<rightharpoonup> string) \<Rightarrow> 'a \<Rightarrow> string" where
  "strAt m k = (case m k of None \<Rightarrow> [] | Some v \<Rightarrow> v)"

definition fieldsOf :: "(string \<times> instanceFields) list \<Rightarrow> string \<Rightarrow> instanceFields" where
  "fieldsOf m i = (case map_of m i of None \<Rightarrow> Map.empty | Some g \<Rightarrow> g)"

definition splitFactKeyIntoEntityAndSuffix :: "string \<Rightarrow> Fact \<Rightarrow> (string \<times> string) option" where
  "splitFactKeyIntoEntityAndSuffix scan f = (case factParts scan 2 f of [entity, field] \<Rightarrow> Some (entity, field) | _ \<Rightarrow> None)"

definition addInstanceField :: "string \<Rightarrow> Fact \<Rightarrow> (string \<times> instanceFields) list \<Rightarrow> (string \<times> instanceFields) list" where
  "addInstanceField scan f m =
     (case splitFactKeyIntoEntityAndSuffix scan f of
        None \<Rightarrow> m
      | Some (i, field) \<Rightarrow> AList.update i ((fieldsOf m i)(field \<mapsto> Value f)) m)"

definition parseInstanceFieldsFromFacts :: "Fact list \<Rightarrow> (string \<times> instanceFields) list" where
  "parseInstanceFieldsFromFacts fs =
     fold (addInstanceField ScanDerivedInstances) (FactsWithPrefix fs ScanDerivedInstances)
       (fold (addInstanceField ScanObservedInstances) (FactsWithPrefix fs ScanObservedInstances) [])"

definition effectiveInstanceState :: "instanceFields \<Rightarrow> string" where
  "effectiveInstanceState g =
     (if strAt g ''controller_stopped'' = ''true'' then InstanceStopped
      else if strAt g ''node_failure'' = ''true'' then InstanceFailed
      else strAt g ''state'')"

record effectiveServices =
  desiredCounts :: "(string \<times> int) list"
  statefulServices :: "string \<Rightarrow> bool"
  perNodeServices :: "string \<Rightarrow> bool"

definition addEffectiveServiceFact :: "Fact \<Rightarrow> effectiveServices \<Rightarrow> effectiveServices" where
  "addEffectiveServiceFact f e =
     (case splitFactKeyIntoEntityAndSuffix ScanEffectiveServices f of
        None \<Rightarrow> e
      | Some (s, field) \<Rightarrow>
          if field = ''instances''
          then (case Atoi (Value f) of
                  (n, None) \<Rightarrow> e\<lparr>desiredCounts := AList.update s n (desiredCounts e)\<rparr>
                | (n, Some err) \<Rightarrow> e)
          else if field = ''stateful'' then e\<lparr>statefulServices := (statefulServices e)(s := Value f = ''true'')\<rparr>
          else if field = ''placement_mode'' then e\<lparr>perNodeServices := (perNodeServices e)(s := Value f = ''per-node'')\<rparr>
          else e)"

definition parseEffectiveServiceFacts :: "Fact list \<Rightarrow> effectiveServices" where
  "parseEffectiveServiceFacts fs =
     fold addEffectiveServiceFact (FactsWithPrefix fs ScanEffectiveServices)
       \<lparr>desiredCounts = [], statefulServices = (\<lambda>s. False), perNodeServices = (\<lambda>s. False)\<rparr>"

definition addSurgeAllowance :: "Fact \<Rightarrow> (string \<times> int) list \<Rightarrow> (string \<times> int) list" where
  "addSurgeAllowance f m =
     (case splitFactKeyIntoEntityAndSuffix ScanDerivedServices f of
        None \<Rightarrow> m
      | Some (s, field) \<Rightarrow>
          if field \<noteq> ''rollout/surge_allowance'' then m
          else (case Atoi (Value f) of (n, None) \<Rightarrow> AList.update s n m | (n, Some err) \<Rightarrow> m))"

definition extractSurgeAllowances :: "Fact list \<Rightarrow> (string \<times> int) list" where
  "extractSurgeAllowances fs = fold addSurgeAllowance (FactsWithPrefix fs ScanDerivedServices) []"

definition countAt :: "(string \<times> int) list \<Rightarrow> string \<Rightarrow> int" where
  "countAt m s = (case map_of m s of None \<Rightarrow> 0 | Some n \<Rightarrow> n)"

definition addSurges :: "(string \<times> int) list \<Rightarrow> (string \<times> int) list \<Rightarrow> (string \<times> int) list" where
  "addSurges surges counts = fold (\<lambda>(s, n) m. AList.update s (add64 (countAt m s) n) m) surges counts"

definition sortedMapKeys :: "(string \<times> 'a) list \<Rightarrow> string list" where
  "sortedMapKeys m = sort (map fst m)"

definition buildInstanceMapsFromFields :: "(string \<times> instanceFields) list \<Rightarrow> (string \<times> string) list \<times> (string \<times> string) list" where
  "buildInstanceMapsFromFields byID =
     (map (\<lambda>(i, g). (i, effectiveInstanceState g)) byID,
      map (\<lambda>(i, g). (i, strAt g ''service'')) (filter (\<lambda>(i, g). strAt g ''service'' \<noteq> []) byID))"

definition buildActiveInstanceIDsByService :: "(string \<times> string) list \<Rightarrow> (string \<times> string) list \<Rightarrow> string \<Rightarrow> string list" where
  "buildActiveInstanceIDsByService services states =
     fold (\<lambda>i m. if strAt (map_of states) i = InstanceStopped then m
                 else m(strAt (map_of services) i := m (strAt (map_of services) i) @ [i]))
       (sortedMapKeys services) (\<lambda>s. [])"

definition buildActiveIDsFromFields :: "string \<Rightarrow> (string \<times> instanceFields) list \<Rightarrow> (string \<rightharpoonup> string) \<Rightarrow> string list" where
  "buildActiveIDsFromFields s byID states =
     sort (map fst (filter (\<lambda>(i, g). strAt g ''service'' = s \<and> strAt states i \<noteq> InstanceStopped) byID))"

subsection \<open>Stopping instances\<close>

definition stopChange :: "string \<Rightarrow> Change" where
  "stopChange i = putChange [] (KeyDerivedInstanceControllerStopped i) ''true''"

definition instanceOrdinalID :: "string \<Rightarrow> int \<Rightarrow> string" where
  "instanceOrdinalID s n = s @ ''-'' @ Itoa n"

definition ordinalOf :: "string \<Rightarrow> string \<Rightarrow> int list" where
  "ordinalOf s i =
     (if \<not> HasPrefix i (s @ ''-'') then []
      else (case Atoi (TrimPrefix i (s @ ''-'')) of (n, None) \<Rightarrow> [n] | (n, Some err) \<Rightarrow> []))"

definition parseExistingOrdinals :: "string \<Rightarrow> string list \<Rightarrow> int list" where
  "parseExistingOrdinals s activeIDs = sort (concat (map (ordinalOf s) activeIDs))"

definition stopHighestOrdinalInstances :: "string \<Rightarrow> int list \<Rightarrow> int \<Rightarrow> Change list" where
  "stopHighestOrdinalInstances s ordinals cnt = map (\<lambda>n. stopChange (instanceOrdinalID s n)) (take (nat cnt) (rev ordinals))"

definition selectInstancesForRemoval :: "string list \<Rightarrow> string list \<Rightarrow> int \<Rightarrow> string list" where
  "selectInstancesForRemoval pendingIDs runningIDs cnt =
     (let result = take (nat cnt) pendingIDs in result @ take (nat cnt - length result) runningIDs)"

definition markExcessStatelessInstancesAsStopped :: "string list \<Rightarrow> (string \<rightharpoonup> string) \<Rightarrow> int \<Rightarrow> Change list" where
  "markExcessStatelessInstancesAsStopped ids states cnt =
     map stopChange (selectInstancesForRemoval
       (filter (\<lambda>i. strAt states i = InstancePending) ids) (filter (\<lambda>i. strAt states i \<noteq> InstancePending) ids) cnt)"

definition markPerNodeExcessInstancesAsStopped :: "string list \<Rightarrow> (string \<times> instanceFields) list \<Rightarrow> int \<Rightarrow> Change list" where
  "markPerNodeExcessInstancesAsStopped activeIDs byID cnt =
     (let failed = (\<lambda>i. strAt (fieldsOf byID i) ''node_failure'' = ''true'');
          pending = (\<lambda>i. strAt (fieldsOf byID i) ''state'' = InstancePending);
          buckets = [filter failed activeIDs, filter (\<lambda>i. \<not> failed i \<and> pending i) activeIDs,
                     filter (\<lambda>i. \<not> failed i \<and> \<not> pending i) activeIDs]
      in map stopChange (fold (\<lambda>bucket stop. stop @ take (nat cnt - length stop) bucket) buckets []))"

definition scaleDownService :: "effectiveServices \<Rightarrow> (string \<Rightarrow> string list) \<Rightarrow> (string \<rightharpoonup> string) \<Rightarrow> (string \<times> instanceFields) list \<Rightarrow> string \<Rightarrow> Change list" where
  "scaleDownService e active states byID s =
     (let wantCount = countAt (desiredCounts e) s; haveCount = int (length (active s)); excessCount = sub64 haveCount wantCount
      in if haveCount > wantCount
         then (if perNodeServices e s then markPerNodeExcessInstancesAsStopped (active s) byID excessCount
               else if statefulServices e s then stopHighestOrdinalInstances s (parseExistingOrdinals s (active s)) excessCount
               else markExcessStatelessInstancesAsStopped (active s) states excessCount)
         else [])"

definition reconcileScaleDowns :: "string list \<Rightarrow> effectiveServices \<Rightarrow> (string \<Rightarrow> string list) \<Rightarrow> (string \<rightharpoonup> string) \<Rightarrow> (string \<times> instanceFields) list \<Rightarrow> Change list" where
  "reconcileScaleDowns names e active states byID = concat (map (scaleDownService e active states byID) names)"

subsection \<open>Creating instances\<close>

definition statefulCreation :: "string \<Rightarrow> int \<Rightarrow> (string \<times> instanceFields) list \<Rightarrow> Change list" where
  "statefulCreation s n byID =
     (let i = instanceOrdinalID s n; g = ''instance-create/'' @ i; previous = fieldsOf byID i
      in groupedChanges g
           [putChange [] (KeyObservedInstance i) [], putChange [] (KeyObservedInstanceService i) s,
            putChange [] (KeyObservedInstanceState i) InstancePending, putChange [] (KeyObservedInstanceOrdinal i) (Itoa n)] @
         (if strAt previous ''controller_stopped'' = ''true'' then [deleteChange g (KeyDerivedInstanceControllerStopped i)] else []) @
         (if strAt previous ''node_failure'' = ''true'' then [deleteChange g (KeyDerivedInstanceNodeFailure i)] else []))"

fun nextStatefulLoop :: "string \<Rightarrow> int list \<Rightarrow> (string \<rightharpoonup> string) \<Rightarrow> (string \<times> instanceFields) list \<Rightarrow> int list \<Rightarrow> Change list" where
  "nextStatefulLoop s ordinals states byID [] = []"
| "nextStatefulLoop s ordinals states byID (n # ns) =
     (if n \<in> set ordinals
      then (if strAt states (instanceOrdinalID s n) \<noteq> InstanceRunning then [] else nextStatefulLoop s ordinals states byID ns)
      else statefulCreation s n byID)"

definition createNextStatefulInstance :: "string \<Rightarrow> int \<Rightarrow> int list \<Rightarrow> (string \<rightharpoonup> string) \<Rightarrow> (string \<times> instanceFields) list \<Rightarrow> Change list" where
  "createNextStatefulInstance s wantCount ordinals states byID = nextStatefulLoop s ordinals states byID [0..wantCount - 1]"

definition pendingCreation :: "string \<Rightarrow> string \<Rightarrow> Change list" where
  "pendingCreation s i =
     groupedChanges (''instance-create/'' @ i)
       [putChange [] (KeyObservedInstance i) [], putChange [] (KeyObservedInstanceService i) s,
        putChange [] (KeyObservedInstanceState i) InstancePending]"

definition createPendingInstances :: "(nat \<Rightarrow> string) \<Rightarrow> nat \<Rightarrow> string \<Rightarrow> nat \<Rightarrow> Change list" where
  "createPendingInstances newID calls s cnt = concat (map (\<lambda>k. pendingCreation s (newID k)) [calls..<calls + cnt])"

definition serviceDeficitOf :: "effectiveServices \<Rightarrow> (string \<Rightarrow> string list) \<Rightarrow> (string \<rightharpoonup> string) \<Rightarrow> (string \<times> instanceFields) list \<Rightarrow> string \<Rightarrow> (string \<times> int) list" where
  "serviceDeficitOf e active states byID s =
     (let wantCount = countAt (desiredCounts e) s; haveCount = int (length (active s))
      in if haveCount \<ge> wantCount then []
         else if statefulServices e s
         then (if createNextStatefulInstance s wantCount (parseExistingOrdinals s (active s)) states byID \<noteq> [] then [(s, 1)] else [])
         else [(s, sub64 wantCount haveCount)])"

definition computeServiceDeficits :: "string list \<Rightarrow> effectiveServices \<Rightarrow> (string \<Rightarrow> string list) \<Rightarrow> (string \<rightharpoonup> string) \<Rightarrow> (string \<times> instanceFields) list \<Rightarrow> (string \<times> int) list" where
  "computeServiceDeficits names e active states byID = concat (map (serviceDeficitOf e active states byID) names)"

text \<open>The search for the largest unmet demand; among equal ones the last index wins.\<close>

fun bestUnmetLoop :: "int list \<Rightarrow> int list \<Rightarrow> nat \<Rightarrow> nat option \<Rightarrow> int \<Rightarrow> nat option" where
  "bestUnmetLoop (d # ds) (a # as) i best bestUnmet =
     (let unmet = d - a
      in if unmet > bestUnmet \<or> unmet = bestUnmet \<and> unmet > 0 then bestUnmetLoop ds as (Suc i) (Some i) unmet
         else bestUnmetLoop ds as (Suc i) best bestUnmet)"
| "bestUnmetLoop ds as i best bestUnmet = best"

text \<open>The loop that hands out the remaining budget, one creation at a time.\<close>

fun remainderLoop :: "nat \<Rightarrow> int list \<Rightarrow> int list \<Rightarrow> int list" where
  "remainderLoop 0 ds allocated = allocated"
| "remainderLoop (Suc remaining) ds allocated =
     (case bestUnmetLoop ds allocated 0 None 0 of
        None \<Rightarrow> allocated
      | Some i \<Rightarrow> remainderLoop remaining ds (allocated[i := allocated ! i + 1]))"

definition baseShares :: "int \<Rightarrow> int list \<Rightarrow> int list" where
  "baseShares budget ds = (let baseShare = budget div int (length ds) in map (\<lambda>d. if baseShare > d then d else baseShare) ds)"

definition allocateShares :: "int \<Rightarrow> int list \<Rightarrow> int list" where
  "allocateShares budget ds =
     (let allocated = baseShares budget ds in remainderLoop (nat (budget - sum_list allocated)) ds allocated)"

fun creationLoop :: "(nat \<Rightarrow> string) \<Rightarrow> effectiveServices \<Rightarrow> (string \<rightharpoonup> string) \<Rightarrow> (string \<times> instanceFields) list \<Rightarrow> nat \<Rightarrow> ((string \<times> int) \<times> int) list \<Rightarrow> Change list" where
  "creationLoop newID e states byID calls [] = []"
| "creationLoop newID e states byID calls (((s, d), a) # rest) =
     (if a \<le> 0 then creationLoop newID e states byID calls rest
      else if statefulServices e s
      then (let ordinals = parseExistingOrdinals s (buildActiveIDsFromFields s byID states)
            in createNextStatefulInstance s (int (length ordinals) + a) ordinals states byID @
               creationLoop newID e states byID calls rest)
      else createPendingInstances newID calls s (nat a) @ creationLoop newID e states byID (calls + nat a) rest)"

definition allocateCreationsFairly :: "(nat \<Rightarrow> string) \<Rightarrow> effectiveServices \<Rightarrow> (string \<rightharpoonup> string) \<Rightarrow> (string \<times> instanceFields) list \<Rightarrow> int \<Rightarrow> (string \<times> int) list \<Rightarrow> Change list" where
  "allocateCreationsFairly newID e states byID budget deficits =
     (if deficits = [] \<or> budget \<le> 0 then []
      else creationLoop newID e states byID 0 (zip deficits (allocateShares budget (map snd deficits))))"

subsection \<open>The cycle\<close>

text \<open>The changes before the cap on their number.\<close>

definition instanceChanges :: "(nat \<Rightarrow> string) \<Rightarrow> int \<Rightarrow> Fact list \<Rightarrow> Change list" where
  "instanceChanges newID maxCreations fs =
     (let e0 = parseEffectiveServiceFacts fs;
          e = e0\<lparr>desiredCounts := addSurges (extractSurgeAllowances fs) (desiredCounts e0)\<rparr>;
          byID = parseInstanceFieldsFromFacts fs;
          (states, services) = buildInstanceMapsFromFields byID;
          active = buildActiveInstanceIDsByService services states;
          names = sortedMapKeys (desiredCounts e)
      in reconcileScaleDowns names e active (map_of states) byID @
         allocateCreationsFairly newID e (map_of states) byID maxCreations
           (computeServiceDeficits names e active (map_of states) byID))"

definition instanceReconcile :: "(nat \<Rightarrow> string) \<Rightarrow> int \<Rightarrow> Fact list \<Rightarrow> (string \<times> nat) + Change list" where
  "instanceReconcile newID maxCreations fs =
     (let changes = instanceChanges newID maxCreations fs
      in if length changes > maxInstanceControllerChangesPerCycle
         then (case takeWholeGroups changes maxInstanceControllerChangesPerCycle of
                 Inl err \<Rightarrow> Inl err
               | Inr (selected, deferred) \<Rightarrow> Inr selected)
         else Inr changes)"

subsection \<open>Sharing the creations\<close>

lemma bestUnmetLoop_spec:
  assumes "length as = length ds" and "0 \<le> b"
  shows "case bestUnmetLoop ds as i best b of
      None \<Rightarrow> best = None \<and> (\<forall>j<length ds. ds ! j - as ! j \<le> b)
    | Some r \<Rightarrow> (best = Some r \<and> (\<forall>j<length ds. ds ! j - as ! j \<le> b)) \<or>
        (\<exists>j<length ds. r = i + j \<and> 0 < ds ! j - as ! j \<and> b \<le> ds ! j - as ! j \<and> (\<forall>k<length ds. ds ! k - as ! k \<le> ds ! j - as ! j))"
  using assms
proof (induction ds as i best b rule: bestUnmetLoop.induct)
  case (1 d ds a as i best b)
  have len: "length as = length ds" using 1(3) by simp
  have all: "(\<forall>j<length (d # ds). (d # ds) ! j - (a # as) ! j \<le> x) \<longleftrightarrow> d - a \<le> x \<and> (\<forall>j<length ds. ds ! j - as ! j \<le> x)" for x
    by (auto simp: less_Suc_eq_0_disj)
  show ?case
  proof (cases "d - a > b \<or> d - a = b \<and> d - a > 0")
    case True
    then have ge: "0 \<le> d - a" "b \<le> d - a" "0 < d - a" using 1(4) by auto
    note IH = 1(1) [OF refl True len ge(1)]
    show ?thesis
    proof (cases "bestUnmetLoop ds as (Suc i) (Some i) (d - a)")
      case None
      with IH show ?thesis by simp
    next
      case (Some r)
      with IH consider "r = i" "\<forall>j<length ds. ds ! j - as ! j \<le> d - a"
        | j where "j < length ds" "r = Suc i + j" "0 < ds ! j - as ! j" "d - a \<le> ds ! j - as ! j"
            "\<forall>k<length ds. ds ! k - as ! k \<le> ds ! j - as ! j" by auto
      then have "\<exists>j<length (d # ds). r = i + j \<and> 0 < (d # ds) ! j - (a # as) ! j \<and> b \<le> (d # ds) ! j - (a # as) ! j \<and>
          (\<forall>k<length (d # ds). (d # ds) ! k - (a # as) ! k \<le> (d # ds) ! j - (a # as) ! j)"
      proof cases
        case 1
        then show ?thesis unfolding all using ge by (intro exI [of _ 0]) auto
      next
        case 2
        then show ?thesis unfolding all using ge by (intro exI [of _ "Suc j"]) auto
      qed
      moreover have "bestUnmetLoop (d # ds) (a # as) i best b = Some r" using True Some by (simp add: Let_def)
      ultimately show ?thesis by simp
    qed
  next
    case False
    then have le: "d - a \<le> b" using 1(4) by auto
    note IH = 1(2) [OF refl False len 1(4)]
    have eq: "bestUnmetLoop (d # ds) (a # as) i best b = bestUnmetLoop ds as (Suc i) best b" using False by (auto simp: Let_def)
    show ?thesis
    proof (cases "bestUnmetLoop ds as (Suc i) best b")
      case None
      with IH le show ?thesis unfolding eq all by simp
    next
      case (Some r)
      with IH consider "best = Some r" "\<forall>j<length ds. ds ! j - as ! j \<le> b"
        | j where "j < length ds" "r = Suc i + j" "0 < ds ! j - as ! j" "b \<le> ds ! j - as ! j"
            "\<forall>k<length ds. ds ! k - as ! k \<le> ds ! j - as ! j" by auto
      then show ?thesis
      proof cases
        case 1
        then show ?thesis unfolding eq Some all using le by simp
      next
        case 2
        then have "\<exists>j<length (d # ds). r = i + j \<and> 0 < (d # ds) ! j - (a # as) ! j \<and> b \<le> (d # ds) ! j - (a # as) ! j \<and>
            (\<forall>k<length (d # ds). (d # ds) ! k - (a # as) ! k \<le> (d # ds) ! j - (a # as) ! j)"
          unfolding all using le by (intro exI [of _ "Suc j"]) auto
        then show ?thesis unfolding eq Some by simp
      qed
    qed
  qed
qed (auto split: option.split)

lemma bestUnmet_None:
  assumes "length as = length ds" and "bestUnmetLoop ds as 0 None 0 = None" and "j < length ds"
  shows "ds ! j \<le> as ! j"
  using bestUnmetLoop_spec [OF assms(1), where b = 0 and i = 0 and best = None] assms(2, 3) by auto

lemma bestUnmet_Some:
  assumes "length as = length ds" and "bestUnmetLoop ds as 0 None 0 = Some r"
  shows "r < length ds" and "as ! r < ds ! r" and "j < length ds \<Longrightarrow> ds ! j - as ! j \<le> ds ! r - as ! r"
  using bestUnmetLoop_spec [OF assms(1), where b = 0 and i = 0 and best = None] assms(2) by auto

text \<open>Shares between a base and the deficits, of which those above the base have left no larger demand than one below their own.\<close>

definition fairShares :: "int list \<Rightarrow> int list \<Rightarrow> int list \<Rightarrow> bool" where
  "fairShares ds base al \<longleftrightarrow> length al = length ds \<and> (\<forall>i<length ds. base ! i \<le> al ! i \<and> al ! i \<le> ds ! i) \<and>
     (\<forall>i<length ds. \<forall>j<length ds. base ! i < al ! i \<longrightarrow> ds ! j - al ! j \<le> ds ! i - al ! i + 1)"

lemma fairShares_step:
  assumes "fairShares ds base al" and "bestUnmetLoop ds al 0 None 0 = Some r"
  shows "fairShares ds base (al[r := al ! r + 1])"
proof -
  have len: "length al = length ds" using assms(1) by (simp add: fairShares_def)
  note best = bestUnmet_Some [OF len assms(2)]
  show ?thesis
    unfolding fairShares_def
  proof (intro conjI allI impI)
    fix i assume "i < length ds"
    then show "base ! i \<le> al[r := al ! r + 1] ! i" "al[r := al ! r + 1] ! i \<le> ds ! i"
      using assms(1) best(1, 2) len by (auto simp: fairShares_def nth_list_update)
  next
    fix i j assume ij: "i < length ds" "j < length ds" "base ! i < al[r := al ! r + 1] ! i"
    have less: "ds ! j - al[r := al ! r + 1] ! j \<le> ds ! j - al ! j" using ij(2) len by (cases "j = r") simp_all
    show "ds ! j - al[r := al ! r + 1] ! j \<le> ds ! i - al[r := al ! r + 1] ! i + 1"
    proof (cases "i = r")
      case True
      then show ?thesis using less best(3) [OF ij(2)] best(1) len by simp
    next
      case False
      then have "ds ! j - al ! j \<le> ds ! i - al ! i + 1" using assms(1) ij by (simp add: fairShares_def)
      then show ?thesis using less False by simp
    qed
  qed (use len in simp)
qed

lemma sum_list_eq_of_le:
  assumes "length as = length (ds :: int list)" and "\<And>i. i < length ds \<Longrightarrow> as ! i = ds ! i"
  shows "sum_list as = sum_list ds"
  using assms by (metis nth_equalityI)

lemma fairShares_sum_le: "fairShares ds base al \<Longrightarrow> sum_list al \<le> sum_list ds"
  by (auto simp: fairShares_def sum_list_sum_nth atLeast0LessThan intro: sum_mono)

lemma sum_list_incr: "r < length (al :: int list) \<Longrightarrow> sum_list (al[r := al ! r + 1]) = sum_list al + 1"
  by (induction al arbitrary: r) (auto split: nat.split)

lemma remainderLoop_spec:
  assumes "fairShares ds base al"
  shows "fairShares ds base (remainderLoop n ds al) \<and> sum_list (remainderLoop n ds al) = min (sum_list al + int n) (sum_list ds)"
  using assms
proof (induction n arbitrary: al)
  case 0
  then show ?case using fairShares_sum_le [of ds base al] by simp
next
  case (Suc n)
  have len: "length al = length ds" using Suc.prems by (simp add: fairShares_def)
  show ?case
  proof (cases "bestUnmetLoop ds al 0 None 0")
    case None
    have "sum_list al = sum_list ds"
      using bestUnmet_None [OF len None] Suc.prems by (intro sum_list_eq_of_le len) (force simp: fairShares_def)
    then show ?thesis using None Suc.prems by simp
  next
    case (Some r)
    note fair = fairShares_step [OF Suc.prems Some]
    have "r < length al" using bestUnmet_Some(1) [OF len Some] len by simp
    then have "sum_list (al[r := al ! r + 1]) = sum_list al + 1" by (rule sum_list_incr)
    then show ?thesis using Suc.IH [OF fair] Some by simp
  qed
qed

lemma sum_map_min_le: "sum_list (map (\<lambda>d. min (q :: int) d) ds) \<le> int (length ds) * q"
  by (induction ds) (auto simp: algebra_simps)

lemma baseShares_min: "baseShares budget ds = map (\<lambda>d. min (budget div int (length ds)) d) ds"
  by (auto simp: baseShares_def Let_def min_def)

lemma baseShares_fair: "fairShares ds (baseShares budget ds) (baseShares budget ds)"
  by (simp add: fairShares_def baseShares_min)

lemma baseShares_sum:
  assumes "ds \<noteq> []"
  shows "sum_list (baseShares budget ds) \<le> budget"
proof -
  have "int (length ds) * (budget div int (length ds)) \<le> budget"
    using assms by (simp add: mult.commute pos_imp_zdiv_neg_iff minus_mod_eq_mult_div [symmetric])
  then show ?thesis using sum_map_min_le [of "budget div int (length ds)" ds] by (simp add: baseShares_min)
qed

lemma allocateShares_spec:
  assumes "ds \<noteq> []"
  shows "fairShares ds (baseShares budget ds) (allocateShares budget ds)"
    and "sum_list (allocateShares budget ds) = min budget (sum_list ds)"
  using remainderLoop_spec [OF baseShares_fair] baseShares_sum [OF assms, of budget] by (simp_all add: allocateShares_def Let_def)

text \<open>C13. The creation budget is shared fairly. The shares add up to the budget, or to the whole demand when that is smaller. Every
  service gets at least an equal share, or its deficit when that is smaller, and at most its deficit. The remainder goes
  to the largest unmet demands: when a service gets more than its equal share, no unmet demand exceeds its own by more than one.\<close>

theorem creations_shared_fairly:
  assumes "ds \<noteq> []" and "n = length ds" and "al = allocateShares budget ds"
  shows "length al = n \<and> sum_list al = min budget (sum_list ds) \<and>
    (\<forall>i<n. min (budget div int n) (ds ! i) \<le> al ! i \<and> al ! i \<le> ds ! i) \<and>
    (\<forall>i<n. \<forall>j<n. min (budget div int n) (ds ! i) < al ! i \<longrightarrow> ds ! j - al ! j \<le> ds ! i - al ! i + 1)"
  using allocateShares_spec [OF assms(1), of budget] unfolding assms(2, 3)
  by (simp add: fairShares_def baseShares_min)

theorem creations_shared_fairly_witness:
  "allocateShares 19 [4, 30, 9] = [4, 9, 6] \<and> sum_list (allocateShares 19 [4, 30, 9]) = min 19 (sum_list [4, 30, 9])"
proof
  show "allocateShares 19 [4, 30, 9] = [4, 9, 6]" by code_simp
  show "sum_list (allocateShares 19 [4, 30, 9]) = min 19 (sum_list [4, 30, 9])"
    using creations_shared_fairly [of "[4, 30, 9]" 3 "allocateShares 19 [4, 30, 9]" 19] by simp
qed

subsection \<open>Instances in the facts\<close>

text \<open>The value of a key, the field of an instance with derived facts before observed ones, its state, and the active instances of a service.\<close>

definition valueAt :: "Fact list \<Rightarrow> string \<Rightarrow> string option" where
  "valueAt fs k = map_option Value (find (\<lambda>f. Key f = k) fs)"

definition obsKey :: "string \<Rightarrow> string \<Rightarrow> string" where
  "obsKey i field = ScanObservedInstances @ i @ slash # field"

definition derKey :: "string \<Rightarrow> string \<Rightarrow> string" where
  "derKey i field = ScanDerivedInstances @ i @ slash # field"

definition mergedField :: "(string \<rightharpoonup> string) \<Rightarrow> string \<Rightarrow> string \<rightharpoonup> string" where
  "mergedField m i field = (case m (derKey i field) of Some v \<Rightarrow> Some v | None \<Rightarrow> m (obsKey i field))"

definition activeIn :: "(string \<rightharpoonup> string) \<Rightarrow> string \<Rightarrow> string set" where
  "activeIn m s = {i. slash \<notin> set i \<and> s \<noteq> [] \<and> strAt (mergedField m i) ''service'' = s \<and>
     effectiveInstanceState (mergedField m i) \<noteq> InstanceStopped}"

lemma path_inj: "c \<notin> set i \<Longrightarrow> c \<notin> set j \<Longrightarrow> i @ c # a = j @ c # b \<longleftrightarrow> i = j \<and> a = b"
proof (induction i arbitrary: j)
  case Nil
  then show ?case by (cases j) auto
next
  case (Cons x i)
  then show ?case by (cases j) auto
qed

lemma obsKey_inj: "slash \<notin> set i \<Longrightarrow> slash \<notin> set j \<Longrightarrow> obsKey i a = obsKey j b \<longleftrightarrow> i = j \<and> a = b"
  and derKey_inj: "slash \<notin> set i \<Longrightarrow> slash \<notin> set j \<Longrightarrow> derKey i a = derKey j b \<longleftrightarrow> i = j \<and> a = b"
  by (simp_all add: obsKey_def derKey_def path_inj)

lemma obsKey_derKey: "obsKey i a \<noteq> derKey j b" "derKey j b \<noteq> obsKey i a"
  by (simp_all add: obsKey_def derKey_def ScanObservedInstances_def ScanDerivedInstances_def prefix_defs)

lemma KeyObservedInstance_neq: "slash \<notin> set i \<Longrightarrow> KeyObservedInstance i \<noteq> obsKey j a"
proof
  assume i: "slash \<notin> set i" and "KeyObservedInstance i = obsKey j a"
  then have "i = j @ slash # a" by (simp add: KeyObservedInstance_def obsKey_def ScanObservedInstances_def)
  with i show False by simp
qed

lemma KeyObservedInstance_derKey: "KeyObservedInstance i \<noteq> derKey j a" "derKey j a \<noteq> KeyObservedInstance i"
  by (simp_all add: KeyObservedInstance_def derKey_def ScanDerivedInstances_def prefix_defs)

lemma instance_keys:
  "KeyObservedInstanceService i = obsKey i ''service''" "KeyObservedInstanceState i = obsKey i ''state''"
  "KeyObservedInstanceOrdinal i = obsKey i ''ordinal''"
  "KeyDerivedInstanceControllerStopped i = derKey i ''controller_stopped''"
  "KeyDerivedInstanceNodeFailure i = derKey i ''node_failure''"
  by (simp_all add: KeyObservedInstanceService_def KeyObservedInstanceState_def KeyObservedInstanceOrdinal_def obsKey_def derKey_def
      KeyDerivedInstanceControllerStopped_def KeyDerivedInstanceNodeFailure_def ScanObservedInstances_def ScanDerivedInstances_def)

lemma split_Some_iff:
  "splitFactKeyIntoEntityAndSuffix scan f = Some (i, field) \<longleftrightarrow> slash \<notin> set i \<and> TrimPrefix (Key f) scan = i @ slash # field"
  unfolding SplitN_2 [symmetric] splitFactKeyIntoEntityAndSuffix_def factParts_def by (simp split: list.split)

lemma fieldsOf_update: "fieldsOf (AList.update i g m) j = (if j = i then g else fieldsOf m j)"
  by (simp add: fieldsOf_def update_conv')

lemma fieldsOf_add:
  assumes "slash \<notin> set i" and "HasPrefix (Key f) scan"
  shows "fieldsOf (addInstanceField scan f m) i field = (if Key f = scan @ i @ slash # field then Some (Value f) else fieldsOf m i field)"
proof (cases "splitFactKeyIntoEntityAndSuffix scan f")
  case None
  then have "Key f \<noteq> scan @ i @ slash # field"
    using split_Some_iff [of scan f i field] assms(1) by auto
  with None show ?thesis by (simp add: addInstanceField_def)
next
  case (Some p)
  obtain j fld where p: "p = (j, fld)" by (cases p)
  with Some have j: "slash \<notin> set j" "TrimPrefix (Key f) scan = j @ slash # fld" by (simp_all add: split_Some_iff)
  then have k: "Key f = scan @ j @ slash # fld" using under_prefix [OF assms(2)] by blast
  show ?thesis using Some p assms(1) j(1) by (simp add: addInstanceField_def fieldsOf_update k path_inj)
qed

lemma fieldsOf_fold:
  assumes "slash \<notin> set i" and "\<forall>f\<in>set fs. HasPrefix (Key f) scan" and "distinct (map Key fs)"
  shows "fieldsOf (fold (addInstanceField scan) fs m) i field =
    (case valueAt fs (scan @ i @ slash # field) of Some v \<Rightarrow> Some v | None \<Rightarrow> fieldsOf m i field)"
  using assms(2, 3)
proof (induction fs arbitrary: m)
  case Nil
  then show ?case by (simp add: valueAt_def)
next
  case (Cons f fs)
  have none: "valueAt fs (scan @ i @ slash # field) = None" if "Key f = scan @ i @ slash # field"
    using Cons.prems(2) that by (auto simp: valueAt_def find_None_iff image_iff)
  have "valueAt (f # fs) (scan @ i @ slash # field) =
      (if Key f = scan @ i @ slash # field then Some (Value f) else valueAt fs (scan @ i @ slash # field))"
    by (simp add: valueAt_def)
  then show ?case using Cons none fieldsOf_add [OF assms(1), of scan f m field] by (auto split: option.split)
qed

lemma valueAt_filter: "P k \<Longrightarrow> valueAt (filter (\<lambda>f. P (Key f)) fs) k = valueAt fs k"
  by (induction fs) (auto simp: valueAt_def)

lemma scans_nonempty: "ScanObservedInstances \<noteq> []" "ScanDerivedInstances \<noteq> []" "ScanEffectiveServices \<noteq> []" "ScanDerivedServices \<noteq> []"
  by (simp_all add: ScanObservedInstances_def ScanDerivedInstances_def ScanEffectiveServices_def ScanDerivedServices_def prefix_defs)

lemma parsed_fields:
  assumes "sorted (map Key fs)" and "distinct (map Key fs)" and "slash \<notin> set i"
  shows "fieldsOf (parseInstanceFieldsFromFacts fs) i = mergedField (valueAt fs) i"
proof
  fix field
  have d: "distinct (map Key (filter P fs))" for P using assms(2) by (simp add: distinct_map_filter)
  have f: "FactsWithPrefix fs ScanObservedInstances = filter (\<lambda>f. HasPrefix (Key f) ScanObservedInstances) fs"
    "FactsWithPrefix fs ScanDerivedInstances = filter (\<lambda>f. HasPrefix (Key f) ScanDerivedInstances) fs"
    using FactsWithPrefix_filter [OF assms(1)] scans_nonempty by blast+
  have o: "valueAt (filter (\<lambda>f. HasPrefix (Key f) ScanObservedInstances) fs) (obsKey i field) = valueAt fs (obsKey i field)"
    and e: "valueAt (filter (\<lambda>f. HasPrefix (Key f) ScanDerivedInstances) fs) (derKey i field) = valueAt fs (derKey i field)"
    by (rule valueAt_filter, simp add: obsKey_def derKey_def)+
  have empty: "fieldsOf [] i field = None" by (simp add: fieldsOf_def)
  show "fieldsOf (parseInstanceFieldsFromFacts fs) i field = mergedField (valueAt fs) i field"
    unfolding parseInstanceFieldsFromFacts_def f mergedField_def
    using fieldsOf_fold [OF assms(3) _ d, of "\<lambda>f. HasPrefix (Key f) ScanDerivedInstances" ScanDerivedInstances]
      fieldsOf_fold [OF assms(3) _ d, of "\<lambda>f. HasPrefix (Key f) ScanObservedInstances" ScanObservedInstances "[]" field]
      o e empty
    by (simp add: obsKey_def derKey_def split: option.split)
qed

lemma add_keys: "fst ` set (addInstanceField scan f m) \<subseteq> fst ` set m \<union> {i. slash \<notin> set i}"
  and add_distinct: "distinct (map fst m) \<Longrightarrow> distinct (map fst (addInstanceField scan f m))"
  by (auto simp: addInstanceField_def dom_update split_Some_iff distinct_update split: option.split)

lemma fold_keys:
  "fst ` set m \<subseteq> {i. slash \<notin> set i} \<Longrightarrow> fst ` set (fold (addInstanceField scan) fs m) \<subseteq> {i. slash \<notin> set i}"
proof (induction fs arbitrary: m)
  case (Cons f fs)
  then show ?case using add_keys [of scan f m] by (simp del: image_subset_iff) blast
qed simp

lemma parsed_keys: "fst ` set (parseInstanceFieldsFromFacts fs) \<subseteq> {i. slash \<notin> set i}"
  unfolding parseInstanceFieldsFromFacts_def by (intro fold_keys) simp

lemma fold_distinct: "distinct (map fst m) \<Longrightarrow> distinct (map fst (fold (addInstanceField scan) fs m))"
  by (induction fs arbitrary: m) (simp_all add: add_distinct)

lemma parsed_distinct: "distinct (map fst (parseInstanceFieldsFromFacts fs))"
  unfolding parseInstanceFieldsFromFacts_def by (intro fold_distinct) simp

text \<open>What a cycle computes from the facts before it decides.\<close>

definition cycleServices :: "Fact list \<Rightarrow> effectiveServices" where
  "cycleServices fs = (let e0 = parseEffectiveServiceFacts fs in e0\<lparr>desiredCounts := addSurges (extractSurgeAllowances fs) (desiredCounts e0)\<rparr>)"

definition cycleStates :: "Fact list \<Rightarrow> string \<rightharpoonup> string" where
  "cycleStates fs = map_of (fst (buildInstanceMapsFromFields (parseInstanceFieldsFromFacts fs)))"

definition cycleActive :: "Fact list \<Rightarrow> string \<Rightarrow> string list" where
  "cycleActive fs =
     (let (states, services) = buildInstanceMapsFromFields (parseInstanceFieldsFromFacts fs) in buildActiveInstanceIDsByService services states)"

definition cycleNames :: "Fact list \<Rightarrow> string list" where
  "cycleNames fs = sortedMapKeys (desiredCounts (cycleServices fs))"

definition cycleDeficits :: "Fact list \<Rightarrow> (string \<times> int) list" where
  "cycleDeficits fs = computeServiceDeficits (cycleNames fs) (cycleServices fs) (cycleActive fs) (cycleStates fs) (parseInstanceFieldsFromFacts fs)"

lemma instanceChanges_parts:
  "instanceChanges newID b fs =
     reconcileScaleDowns (cycleNames fs) (cycleServices fs) (cycleActive fs) (cycleStates fs) (parseInstanceFieldsFromFacts fs) @
     allocateCreationsFairly newID (cycleServices fs) (cycleStates fs) (parseInstanceFieldsFromFacts fs) b (cycleDeficits fs)"
  by (simp add: instanceChanges_def cycleNames_def cycleServices_def cycleActive_def cycleStates_def cycleDeficits_def Let_def split: prod.split)

lemma active_fold:
  "fold (\<lambda>i m. if P i then m else m(g i := m (g i) @ [i])) is m s = m s @ filter (\<lambda>i. \<not> P i \<and> g i = s) is"
  by (induction "is" arbitrary: m) auto

lemma map_of_mapped: "map_of (map (\<lambda>(i, g). (i, h g)) m) i = map_option h (map_of m i)"
  by (induction m) auto

lemma map_of_filtered:
  "distinct (map fst m) \<Longrightarrow> map_of (map (\<lambda>(i, g). (i, h g)) (filter (\<lambda>(i, g). P g) m)) i =
     (case map_of m i of Some g \<Rightarrow> if P g then Some (h g) else None | None \<Rightarrow> None)"
  by (induction m) (auto simp: map_of_eq_None_iff image_iff split: option.split)

lemma state_empty: "effectiveInstanceState Map.empty = []"
  by (simp add: effectiveInstanceState_def strAt_def)

lemma cycleStates_fields: "strAt (cycleStates fs) i = effectiveInstanceState (fieldsOf (parseInstanceFieldsFromFacts fs) i)"
  by (simp add: cycleStates_def buildInstanceMapsFromFields_def map_of_mapped strAt_def fieldsOf_def
      state_empty [unfolded strAt_def] split: option.split)

lemma cycleStates_at:
  assumes "sorted (map Key fs)" and "distinct (map Key fs)" and "slash \<notin> set i"
  shows "strAt (cycleStates fs) i = effectiveInstanceState (mergedField (valueAt fs) i)"
  using parsed_fields [OF assms] by (simp add: cycleStates_fields)

lemma cycleActive_eq:
  "cycleActive fs s =
     filter (\<lambda>i. strAt (cycleStates fs) i \<noteq> InstanceStopped \<and> strAt (fieldsOf (parseInstanceFieldsFromFacts fs) i) ''service'' = s)
       (sortedMapKeys (snd (buildInstanceMapsFromFields (parseInstanceFieldsFromFacts fs))))"
proof -
  let ?m = "parseInstanceFieldsFromFacts fs"
  let ?sv = "snd (buildInstanceMapsFromFields ?m)"
  have sv: "strAt (map_of ?sv) i = strAt (fieldsOf ?m i) ''service''" for i
    by (simp add: buildInstanceMapsFromFields_def map_of_filtered [OF parsed_distinct] strAt_def fieldsOf_def split: option.split)
  show ?thesis
    unfolding cycleActive_def buildActiveInstanceIDsByService_def cycleStates_def
    by (simp add: active_fold case_prod_beta sv Let_def)
qed

lemma cycleActive_distinct: "distinct (cycleActive fs s)"
proof -
  have "distinct (map fst (snd (buildInstanceMapsFromFields (parseInstanceFieldsFromFacts fs))))"
    using parsed_distinct [of fs] by (simp add: buildInstanceMapsFromFields_def case_prod_beta' comp_def distinct_map_filter)
  then show ?thesis by (simp add: cycleActive_eq sortedMapKeys_def)
qed

lemma service_keys:
  "i \<in> fst ` set (snd (buildInstanceMapsFromFields m)) \<longleftrightarrow> (\<exists>g. (i, g) \<in> set m \<and> strAt g ''service'' \<noteq> [])"
  by (force simp: buildInstanceMapsFromFields_def)

lemma cycleActive_set:
  assumes "sorted (map Key fs)" and "distinct (map Key fs)"
  shows "set (cycleActive fs s) = activeIn (valueAt fs) s"
proof -
  let ?m = "parseInstanceFieldsFromFacts fs"
  have "i \<in> set (cycleActive fs s) \<longleftrightarrow> i \<in> activeIn (valueAt fs) s" for i
  proof (cases "slash \<in> set i")
    case True
    then have "i \<notin> fst ` set ?m" using parsed_keys [of fs] by blast
    then have "i \<notin> fst ` set (snd (buildInstanceMapsFromFields ?m))" unfolding service_keys by force
    with True show ?thesis by (simp add: cycleActive_eq sortedMapKeys_def activeIn_def)
  next
    case False
    note fo = parsed_fields [OF assms False]
    have mem: "i \<in> fst ` set (snd (buildInstanceMapsFromFields ?m)) \<longleftrightarrow> strAt (fieldsOf ?m i) ''service'' \<noteq> []"
    proof -
      have "(i, g) \<in> set ?m \<longleftrightarrow> map_of ?m i = Some g" for g using parsed_distinct [of fs] by simp
      then show ?thesis unfolding service_keys by (auto simp: fieldsOf_def strAt_def split: option.split)
    qed
    show ?thesis
      using False mem by (auto simp: cycleActive_eq sortedMapKeys_def activeIn_def cycleStates_fields fo)
  qed
  then show ?thesis by blast
qed

lemma card_active:
  assumes "sorted (map Key fs)" and "distinct (map Key fs)"
  shows "length (cycleActive fs s) = card (activeIn (valueAt fs) s)" and "finite (activeIn (valueAt fs) s)"
  using cycleActive_set [OF assms, of s] distinct_card [OF cycleActive_distinct [of fs s]] by (metis, metis finite_set)

text \<open>The names of services.\<close>

definition namesOk :: "(string \<times> int) list \<Rightarrow> bool" where
  "namesOk m \<longleftrightarrow> distinct (map fst m) \<and> (\<forall>s\<in>fst ` set m. slash \<notin> set s)"

lemma namesOk_update: "namesOk m \<Longrightarrow> slash \<notin> set s \<Longrightarrow> namesOk (AList.update s n m)"
  by (auto simp: namesOk_def distinct_update dom_update)

lemma desiredCounts_addEffective:
  "desiredCounts (addEffectiveServiceFact f e) = desiredCounts e \<or>
   (\<exists>s n. slash \<notin> set s \<and> desiredCounts (addEffectiveServiceFact f e) = AList.update s n (desiredCounts e))"
proof (cases "splitFactKeyIntoEntityAndSuffix ScanEffectiveServices f")
  case None
  then show ?thesis by (simp add: addEffectiveServiceFact_def)
next
  case (Some p)
  obtain s field where p: "p = (s, field)" by (cases p)
  have s: "slash \<notin> set s" using Some p by (simp add: split_Some_iff)
  show ?thesis
  proof (cases "field = ''instances''")
    case True
    then show ?thesis using Some p s
      by (cases "Atoi (Value f)"; cases "snd (Atoi (Value f))") (auto simp: addEffectiveServiceFact_def)
  next
    case False
    then show ?thesis using Some p by (simp add: addEffectiveServiceFact_def)
  qed
qed

lemma addSurgeAllowance_cases:
  "addSurgeAllowance f m = m \<or> (\<exists>s n. slash \<notin> set s \<and> addSurgeAllowance f m = AList.update s n m)"
proof (cases "splitFactKeyIntoEntityAndSuffix ScanDerivedServices f")
  case None
  then show ?thesis by (simp add: addSurgeAllowance_def)
next
  case (Some p)
  obtain s field where p: "p = (s, field)" by (cases p)
  have s: "slash \<notin> set s" using Some p by (simp add: split_Some_iff)
  show ?thesis
  proof (cases "field = ''rollout/surge_allowance''")
    case True
    then show ?thesis using Some p s
      by (cases "Atoi (Value f)"; cases "snd (Atoi (Value f))") (auto simp: addSurgeAllowance_def)
  next
    case False
    then show ?thesis using Some p by (simp add: addSurgeAllowance_def)
  qed
qed

lemma namesOk_Nil: "namesOk []"
  by (simp add: namesOk_def)

lemma namesOk_effective: "namesOk (desiredCounts (fold addEffectiveServiceFact fs e))" if "namesOk (desiredCounts e)"
  using that
proof (induction fs arbitrary: e)
  case (Cons f fs)
  have "namesOk (desiredCounts (addEffectiveServiceFact f e))"
    using desiredCounts_addEffective [of f e] namesOk_update [OF Cons.prems] Cons.prems by metis
  from Cons.IH [OF this] show ?case by simp
qed simp

lemma namesOk_surge: "namesOk (fold addSurgeAllowance fs m)" if "namesOk m"
  using that
proof (induction fs arbitrary: m)
  case (Cons f fs)
  have "namesOk (addSurgeAllowance f m)" using addSurgeAllowance_cases [of f m] namesOk_update [OF Cons.prems] Cons.prems by metis
  from Cons.IH [OF this] show ?case by simp
qed simp

lemma namesOk_addSurges: "\<forall>s\<in>fst ` set surges. slash \<notin> set s \<Longrightarrow> namesOk m \<Longrightarrow> namesOk (addSurges surges m)"
  unfolding addSurges_def by (induction surges arbitrary: m) (auto simp: namesOk_update)

lemma namesOk_cycle: "namesOk (desiredCounts (cycleServices fs))"
proof -
  have "namesOk (extractSurgeAllowances fs)"
    unfolding extractSurgeAllowances_def by (rule namesOk_surge [OF namesOk_Nil])
  then have "\<forall>s\<in>fst ` set (extractSurgeAllowances fs). slash \<notin> set s" unfolding namesOk_def by blast
  moreover have "namesOk (desiredCounts (parseEffectiveServiceFacts fs))"
    unfolding parseEffectiveServiceFacts_def by (rule namesOk_effective) (simp add: namesOk_Nil)
  ultimately show ?thesis by (simp add: cycleServices_def Let_def namesOk_addSurges del: ball_simps)
qed

lemma cycleNames_ok: "distinct (cycleNames fs)" "s \<in> set (cycleNames fs) \<Longrightarrow> slash \<notin> set s"
  using namesOk_cycle [of fs] by (simp_all add: cycleNames_def sortedMapKeys_def namesOk_def del: ball_simps)

text \<open>Every desired count is a 64-bit integer.\<close>

definition countsIn64 :: "(string \<times> int) list \<Rightarrow> bool" where
  "countsIn64 m \<longleftrightarrow> (\<forall>n\<in>snd ` set m. in64 n)"

lemma set_update: "set (AList.update k v m) \<subseteq> insert (k, v) (set m)"
  by (induction m) auto

lemma countsIn64_update: "countsIn64 m \<Longrightarrow> in64 n \<Longrightarrow> countsIn64 (AList.update s n m)"
  using set_update [of s n m] unfolding countsIn64_def by fastforce

lemma countsIn64_effective: "countsIn64 (desiredCounts e) \<Longrightarrow> countsIn64 (desiredCounts (addEffectiveServiceFact f e))"
proof (cases "splitFactKeyIntoEntityAndSuffix ScanEffectiveServices f")
  case (Some p)
  assume e: "countsIn64 (desiredCounts e)"
  obtain s field where p: "p = (s, field)" by (cases p)
  obtain n err where a: "Atoi (Value f) = (n, err)" by (cases "Atoi (Value f)")
  then have "in64 n" using in64_ParseInt [of "Value f"] by (simp add: Atoi_def)
  then show ?thesis using Some p a e countsIn64_update [OF e]
    by (cases "field = ''instances''"; cases err) (simp_all add: addEffectiveServiceFact_def)
qed (simp add: addEffectiveServiceFact_def)

lemma countsIn64_addSurges: "countsIn64 m \<Longrightarrow> countsIn64 (addSurges surges m)"
  unfolding addSurges_def by (induction surges arbitrary: m) (auto simp: countsIn64_update)

lemma countsIn64_cycle: "countsIn64 (desiredCounts (cycleServices fs))"
proof -
  have "countsIn64 (desiredCounts (fold addEffectiveServiceFact gs e))" if "countsIn64 (desiredCounts e)" for gs e
    using that by (induction gs arbitrary: e) (simp_all add: countsIn64_effective)
  note keep = this
  have "countsIn64 (desiredCounts (parseEffectiveServiceFacts fs))"
    unfolding parseEffectiveServiceFacts_def by (rule keep) (simp add: countsIn64_def)
  then show ?thesis by (simp add: cycleServices_def Let_def countsIn64_addSurges)
qed

lemma want_in64: "in64 (countAt (desiredCounts (cycleServices fs)) s)"
proof (cases "map_of (desiredCounts (cycleServices fs)) s")
  case None
  then show ?thesis by (simp add: countAt_def in64_def)
next
  case (Some n)
  then have "n \<in> snd ` set (desiredCounts (cycleServices fs))" by (force dest: map_of_SomeD)
  with countsIn64_cycle [of fs] have "in64 n" unfolding countsIn64_def by blast
  with Some show ?thesis by (simp add: countAt_def)
qed

subsection \<open>Effects of the changes\<close>

definition applyChange :: "Change \<Rightarrow> (string \<rightharpoonup> string) \<Rightarrow> (string \<rightharpoonup> string)" where
  "applyChange c m = (case chType c of OpPut \<Rightarrow> m(chKey c \<mapsto> chValue c) | OpDelete \<Rightarrow> m(chKey c := None))"

definition applyChanges :: "Change list \<Rightarrow> (string \<rightharpoonup> string) \<Rightarrow> (string \<rightharpoonup> string)" where
  "applyChanges cs m = fold applyChange cs m"

lemma apply_untouched: "\<forall>c\<in>set cs. chKey c \<noteq> k \<Longrightarrow> applyChanges cs m k = m k"
  unfolding applyChanges_def by (induction cs arbitrary: m) (auto simp: applyChange_def split: OpType.split)

lemma apply_put:
  assumes "\<exists>c\<in>set cs. chKey c = k" and "\<forall>c\<in>set cs. chKey c = k \<longrightarrow> chType c = OpPut \<and> chValue c = v"
  shows "applyChanges cs m k = Some v"
  using assms
proof (induction cs rule: rev_induct)
  case (snoc c cs)
  show ?case
  proof (cases "chKey c = k")
    case True
    then show ?thesis using snoc.prems by (simp add: applyChanges_def applyChange_def)
  next
    case False
    then have "applyChanges cs m k = Some v" using snoc by auto
    with False show ?thesis by (simp add: applyChanges_def applyChange_def split: OpType.split)
  qed
qed simp

lemma select_take: "selectInstancesForRemoval ps rs n = take (nat n) (ps @ rs)"
  by (simp add: selectInstancesForRemoval_def Let_def min_def)

lemma buckets_subset: "set (fold (\<lambda>bucket stop. stop @ take (n - length stop) bucket) bs stop0) \<subseteq> set stop0 \<union> \<Union> (set ` set bs)"
proof (induction bs arbitrary: stop0)
  case (Cons b bs)
  show ?case
    using Cons.IH [of "stop0 @ take (n - length stop0) b"] set_take_subset [of "n - length stop0" b] by simp blast
qed simp

lemma scaleDown_mem:
  assumes "c \<in> set (scaleDownService e active states byID s)"
  shows "\<exists>i. c = stopChange i \<and> (i \<in> set (active s) \<or> statefulServices e s \<and> (\<exists>n. i = instanceOrdinalID s n))"
proof -
  consider (p) k where "c \<in> set (markPerNodeExcessInstancesAsStopped (active s) byID k)"
    | (f) os k where "statefulServices e s" "c \<in> set (stopHighestOrdinalInstances s os k)"
    | (l) k where "c \<in> set (markExcessStatelessInstancesAsStopped (active s) states k)"
    using assms by (auto simp: scaleDownService_def Let_def split: if_splits)
  then show ?thesis
  proof cases
    case p
    then obtain P Q R where "c \<in> stopChange ` set (fold (\<lambda>bucket stop. stop @ take (nat k - length stop) bucket)
        [filter P (active s), filter Q (active s), filter R (active s)] [])"
      unfolding markPerNodeExcessInstancesAsStopped_def Let_def set_map by blast
    with buckets_subset [of "nat k" "[filter P (active s), filter Q (active s), filter R (active s)]" "[]"]
    have "c \<in> stopChange ` set (active s)" by (auto simp del: fold_simps)
    then show ?thesis by blast
  next
    case f
    then show ?thesis by (auto simp: stopHighestOrdinalInstances_def)
  next
    case l
    then show ?thesis by (auto simp: markExcessStatelessInstancesAsStopped_def select_take dest!: in_set_takeD)
  qed
qed

text \<open>The calls of the generator of identifiers and the services that their results go to.\<close>

fun assignedIDs :: "effectiveServices \<Rightarrow> nat \<Rightarrow> ((string \<times> int) \<times> int) list \<Rightarrow> (nat \<times> string) list" where
  "assignedIDs e calls [] = []"
| "assignedIDs e calls (((s, d), a) # rest) =
     (if a \<le> 0 \<or> statefulServices e s then assignedIDs e calls rest
      else map (\<lambda>k. (k, s)) [calls..<calls + nat a] @ assignedIDs e (calls + nat a) rest)"

text \<open>An ordinal that may start: it is free, and the instances of the lower ordinals are active and running.\<close>

definition startable :: "string \<Rightarrow> int \<Rightarrow> (string \<rightharpoonup> string) \<Rightarrow> (string \<times> instanceFields) list \<Rightarrow> bool" where
  "startable s n states byID \<longleftrightarrow>
     (let ordinals = parseExistingOrdinals s (buildActiveIDsFromFields s byID states)
      in 0 \<le> n \<and> n \<notin> set ordinals \<and>
         (\<forall>m. 0 \<le> m \<and> m < n \<longrightarrow> m \<in> set ordinals \<and> strAt states (instanceOrdinalID s m) = InstanceRunning))"

lemma nextStateful_from:
  "nextStatefulLoop s os states byID [lo..hi] \<noteq> [] \<Longrightarrow>
     \<exists>n\<ge>lo. nextStatefulLoop s os states byID [lo..hi] = statefulCreation s n byID \<and> n \<notin> set os \<and>
       (\<forall>m. lo \<le> m \<and> m < n \<longrightarrow> m \<in> set os \<and> strAt states (instanceOrdinalID s m) = InstanceRunning)"
proof (induction "nat (hi - lo + 1)" arbitrary: lo)
  case 0
  then show ?case by simp
next
  case (Suc k)
  then have lohi: "[lo..hi] = lo # [lo + 1..hi]" by (intro upto_rec1) linarith
  show ?case
  proof (cases "lo \<in> set os")
    case False
    then show ?thesis unfolding lohi by (intro exI [of _ lo]) auto
  next
    case True
    with Suc.prems have run: "strAt states (instanceOrdinalID s lo) = InstanceRunning"
      and eq: "nextStatefulLoop s os states byID [lo..hi] = nextStatefulLoop s os states byID [lo + 1..hi]"
      unfolding lohi by (auto split: if_splits)
    have "k = nat (hi - (lo + 1) + 1)" using Suc.hyps(2) by linarith
    from Suc.hyps(1) [OF this] Suc.prems eq obtain n where
      n: "lo + 1 \<le> n" "nextStatefulLoop s os states byID [lo + 1..hi] = statefulCreation s n byID" "n \<notin> set os"
      "\<forall>m. lo + 1 \<le> m \<and> m < n \<longrightarrow> m \<in> set os \<and> strAt states (instanceOrdinalID s m) = InstanceRunning" by auto
    have "m \<in> set os \<and> strAt states (instanceOrdinalID s m) = InstanceRunning" if "lo \<le> m" "m < n" for m
      using n(4) that True run by (cases "m = lo") auto
    then show ?thesis using n eq by (intro exI [of _ n]) auto
  qed
qed

lemma createNext_startable:
  assumes "createNextStatefulInstance s w (parseExistingOrdinals s (buildActiveIDsFromFields s byID states)) states byID \<noteq> []"
  shows "\<exists>n. createNextStatefulInstance s w (parseExistingOrdinals s (buildActiveIDsFromFields s byID states)) states byID =
      statefulCreation s n byID \<and> startable s n states byID"
  using nextStateful_from [OF assms [unfolded createNextStatefulInstance_def]]
  unfolding createNextStatefulInstance_def startable_def Let_def by blast

lemma creationLoop_mem:
  "c \<in> set (creationLoop newID e states byID calls zs) \<Longrightarrow>
     (\<exists>k s. (k, s) \<in> set (assignedIDs e calls zs) \<and> c \<in> set (pendingCreation s (newID k))) \<or>
     (\<exists>s n. s \<in> (\<lambda>z. fst (fst z)) ` set zs \<and> statefulServices e s \<and> c \<in> set (statefulCreation s n byID) \<and>
        set (statefulCreation s n byID) \<subseteq> set (creationLoop newID e states byID calls zs) \<and> startable s n states byID)"
proof (induction e calls zs rule: assignedIDs.induct)
  case (2 e calls s d a rest)
  let ?here = "creationLoop newID e states byID calls (((s, d), a) # rest)"
  consider (skip) "c \<in> set (creationLoop newID e states byID calls rest)" "a \<le> 0 \<or> statefulServices e s"
    | (later) "c \<in> set (creationLoop newID e states byID (calls + nat a) rest)" "\<not> (a \<le> 0 \<or> statefulServices e s)"
    | (ordinal) w os where "os = parseExistingOrdinals s (buildActiveIDsFromFields s byID states)" "statefulServices e s" "c \<in> set (createNextStatefulInstance s w os states byID)"
        "set (createNextStatefulInstance s w os states byID) \<subseteq> set ?here"
    | (pending) "c \<in> set (createPendingInstances newID calls s (nat a))" "\<not> (a \<le> 0 \<or> statefulServices e s)"
    using "2.prems" by (auto simp: Let_def split: if_splits)
  then show ?case
  proof cases
    case skip
    have "set (creationLoop newID e states byID calls rest) \<subseteq> set ?here" using skip(2) by (auto simp: Let_def)
    moreover have eq: "assignedIDs e calls (((s, d), a) # rest) = assignedIDs e calls rest" using skip(2) by simp
    ultimately show ?thesis using "2.IH"(1) [OF skip(2, 1)] unfolding eq list.set(2) image_insert by blast
  next
    case later
    have "set (creationLoop newID e states byID (calls + nat a) rest) \<subseteq> set ?here" using later(2) by auto
    moreover have "set (assignedIDs e (calls + nat a) rest) \<subseteq> set (assignedIDs e calls (((s, d), a) # rest))" using later(2) by auto
    ultimately show ?thesis using "2.IH"(2) [OF later(2, 1)] unfolding list.set(2) image_insert by blast
  next
    case ordinal
    have "createNextStatefulInstance s w os states byID \<noteq> []" using ordinal(3) by auto
    then obtain n where "createNextStatefulInstance s w os states byID = statefulCreation s n byID" "startable s n states byID"
      using createNext_startable unfolding ordinal(1) by blast
    then show ?thesis using ordinal by (intro disjI2 exI [of _ s] exI [of _ n]) auto
  next
    case pending
    then obtain k where "calls \<le> k" "k < calls + nat a" "c \<in> set (pendingCreation s (newID k))"
      by (auto simp: createPendingInstances_def)
    then show ?thesis using pending(2) by (intro disjI1 exI [of _ k] exI [of _ s]) auto
  qed
qed simp

lemma creationLoop_pending:
  "(k, s) \<in> set (assignedIDs e calls zs) \<Longrightarrow> set (pendingCreation s (newID k)) \<subseteq> set (creationLoop newID e states byID calls zs)"
proof (induction e calls zs rule: assignedIDs.induct)
  case (2 e calls t d a rest)
  show ?case
  proof (cases "a \<le> 0 \<or> statefulServices e t")
    case True
    then show ?thesis using 2 by (auto simp: Let_def)
  next
    case False
    then consider "s = t" "k \<in> {calls..<calls + nat a}" | "(k, s) \<in> set (assignedIDs e (calls + nat a) rest)"
      using "2.prems" by auto
    then show ?thesis
    proof cases
      case 1
      then have "set (pendingCreation s (newID k)) \<subseteq> set (createPendingInstances newID calls t (nat a))"
        by (auto simp: createPendingInstances_def)
      then show ?thesis using False by auto
    next
      case 2
      then show ?thesis using "2.IH"(2) [OF False] False by auto
    qed
  qed
qed simp

lemma assigned_bounds: "(k, s) \<in> set (assignedIDs e calls zs) \<Longrightarrow> calls \<le> k \<and> k < calls + (\<Sum>z\<leftarrow>zs. nat (snd z))"
  by (induction e calls zs rule: assignedIDs.induct) (fastforce split: if_splits)+

lemma assigned_distinct: "distinct (map fst (assignedIDs e calls zs))"
proof (induction e calls zs rule: assignedIDs.induct)
  case (2 e calls s d a rest)
  have "set (map fst (map (\<lambda>k. (k, s)) [calls..<calls + nat a])) \<inter> set (map fst (assignedIDs e (calls + nat a) rest)) = {}"
    using assigned_bounds [of _ _ e "calls + nat a" rest] by fastforce
  then show ?case using 2 by (auto simp: comp_def)
qed simp

lemma assigned_none: "s \<notin> (\<lambda>z. fst (fst z)) ` set zs \<Longrightarrow> (k, s) \<notin> set (assignedIDs e calls zs)"
  by (induction e calls zs rule: assignedIDs.induct) (auto split: if_splits)

lemma assigned_card:
  "distinct (map (\<lambda>z. fst (fst z)) zs) \<Longrightarrow> ((s, d), a) \<in> set zs \<Longrightarrow> \<not> statefulServices e s \<Longrightarrow>
     card {k. (k, s) \<in> set (assignedIDs e calls zs)} = nat a"
proof (induction e calls zs rule: assignedIDs.induct)
  case (2 e calls t d' a' rest)
  show ?case
  proof (cases "s = t")
    case True
    then have none: "(k, s) \<notin> set (assignedIDs e c rest)" for k c using "2.prems"(1) by (intro assigned_none) (auto simp: comp_def)
    have "a = a'" using True "2.prems"(1, 2) by (force simp: comp_def)
    then have "{k. (k, s) \<in> set (assignedIDs e calls (((t, d'), a') # rest))} = (if a \<le> 0 then {} else {calls..<calls + nat a})"
      using none True "2.prems"(3) by auto
    then show ?thesis by simp
  next
    case False
    then have "((s, d), a) \<in> set rest" "distinct (map (\<lambda>z. fst (fst z)) rest)" using "2.prems" by (auto simp: comp_def)
    then show ?thesis using False "2.IH" "2.prems"(3) by (auto simp: image_iff)
  qed
qed simp

lemma utoa_digits: "set (utoa n) \<subseteq> Collect isDigit"
proof (induction n rule: utoa.induct)
  case (1 n)
  have d: "isDigit (digitChar (int k))" if "k \<le> 9" for k
    using of_char_digitChar [of "int k"] that by (simp add: isDigit_def)
  show ?case
  proof (cases "n < 10")
    case True
    then show ?thesis using d [of n] by (subst utoa.simps) simp
  next
    case False
    then show ?thesis using 1 d [of "n mod 10"] by (subst utoa.simps) (auto simp: zmod_int)
  qed
qed

lemma slash_notin_ordinal: "slash \<notin> set s \<Longrightarrow> slash \<notin> set (instanceOrdinalID s n)"
  using utoa_digits [of "nat n"] utoa_digits [of "nat (- n)"] by (auto simp: instanceOrdinalID_def Itoa_def isDigit_def)

lemma HasPrefix_ordinal: "HasPrefix (instanceOrdinalID s n) (s @ ''-'')"
  by (simp add: instanceOrdinalID_def)

definition cycleAssigned :: "int \<Rightarrow> Fact list \<Rightarrow> (nat \<times> string) list" where
  "cycleAssigned b fs =
     (if cycleDeficits fs = [] \<or> b \<le> 0 then []
      else assignedIDs (cycleServices fs) 0 (zip (cycleDeficits fs) (allocateShares b (map snd (cycleDeficits fs)))))"

definition scaleDownIDs :: "Fact list \<Rightarrow> string \<Rightarrow> string set" where
  "scaleDownIDs fs s = {i. stopChange i \<in> set (scaleDownService (cycleServices fs) (cycleActive fs) (cycleStates fs) (parseInstanceFieldsFromFacts fs) s)}"

lemma deficit_shape: "serviceDeficitOf e active states byID s = [] \<or> (\<exists>d. serviceDeficitOf e active states byID s = [(s, d)])"
  by (simp add: serviceDeficitOf_def Let_def)

lemma deficit_names: "fst ` set (cycleDeficits fs) \<subseteq> set (cycleNames fs)"
proof
  fix s assume "s \<in> fst ` set (cycleDeficits fs)"
  then obtain d t where "t \<in> set (cycleNames fs)"
    "(s, d) \<in> set (serviceDeficitOf (cycleServices fs) (cycleActive fs) (cycleStates fs) (parseInstanceFieldsFromFacts fs) t)"
    by (auto simp: cycleDeficits_def computeServiceDeficits_def)
  then show "s \<in> set (cycleNames fs)"
    using deficit_shape [of "cycleServices fs" "cycleActive fs" "cycleStates fs" "parseInstanceFieldsFromFacts fs" t] by auto
qed

lemma changes_mem:
  assumes "c \<in> set (instanceChanges newID b fs)"
  obtains (stop) s i where "s \<in> set (cycleNames fs)" "c = stopChange i" "i \<in> scaleDownIDs fs s"
      "i \<in> set (cycleActive fs s) \<or> statefulServices (cycleServices fs) s \<and> (\<exists>n. i = instanceOrdinalID s n)"
  | (pending) k s where "(k, s) \<in> set (cycleAssigned b fs)" "c \<in> set (pendingCreation s (newID k))"
  | (stateful) s n where "s \<in> set (cycleNames fs)" "statefulServices (cycleServices fs) s"
      "c \<in> set (statefulCreation s n (parseInstanceFieldsFromFacts fs))"
      "set (statefulCreation s n (parseInstanceFieldsFromFacts fs)) \<subseteq> set (instanceChanges newID b fs)"
      "startable s n (cycleStates fs) (parseInstanceFieldsFromFacts fs)"
proof -
  note it = that
  let ?e = "cycleServices fs" and ?m = "parseInstanceFieldsFromFacts fs"
  from assms consider (down) "c \<in> set (reconcileScaleDowns (cycleNames fs) ?e (cycleActive fs) (cycleStates fs) ?m)"
    | (up) "c \<in> set (allocateCreationsFairly newID ?e (cycleStates fs) ?m b (cycleDeficits fs))"
    unfolding instanceChanges_parts by auto
  then show thesis
  proof cases
    case down
    then obtain s where s: "s \<in> set (cycleNames fs)" "c \<in> set (scaleDownService ?e (cycleActive fs) (cycleStates fs) ?m s)"
      by (auto simp: reconcileScaleDowns_def)
    from scaleDown_mem [OF s(2)] s show ?thesis by (auto simp: scaleDownIDs_def intro: it(1))
  next
    case up
    let ?zs = "zip (cycleDeficits fs) (allocateShares b (map snd (cycleDeficits fs)))"
    from up have nz: "\<not> (cycleDeficits fs = [] \<or> b \<le> 0)" and c: "c \<in> set (creationLoop newID ?e (cycleStates fs) ?m 0 ?zs)"
      by (auto simp: allocateCreationsFairly_def split: if_splits)
    have zs: "s \<in> set (cycleNames fs)" if "s \<in> (\<lambda>z. fst (fst z)) ` set ?zs" for s
      using that deficit_names [of fs] by (auto dest!: set_zip_leftD)
    have sub: "set (creationLoop newID ?e (cycleStates fs) ?m 0 ?zs) \<subseteq> set (instanceChanges newID b fs)"
      using nz by (auto simp: instanceChanges_parts allocateCreationsFairly_def)
    from creationLoop_mem [OF c] show ?thesis
    proof (elim disjE exE conjE)
      fix k s
      assume a: "(k, s) \<in> set (assignedIDs ?e 0 ?zs)" "c \<in> set (pendingCreation s (newID k))"
      then have "(k, s) \<in> set (cycleAssigned b fs)" unfolding cycleAssigned_def if_not_P [OF nz] by blast
      from it(2) [OF this a(2)] show ?thesis .
    next
      fix s n
      assume a: "s \<in> (\<lambda>z. fst (fst z)) ` set ?zs" "statefulServices ?e s" "c \<in> set (statefulCreation s n ?m)"
        "set (statefulCreation s n ?m) \<subseteq> set (creationLoop newID ?e (cycleStates fs) ?m 0 ?zs)" "startable s n (cycleStates fs) ?m"
      show ?thesis by (rule it(3) [OF zs [OF a(1)] a(2, 3) subset_trans [OF a(4) sub] a(5)])
    qed
  qed
qed

lemma stop_in_changes:
  "s \<in> set (cycleNames fs) \<Longrightarrow> i \<in> scaleDownIDs fs s \<Longrightarrow> stopChange i \<in> set (instanceChanges newID b fs)"
  by (auto simp: instanceChanges_parts reconcileScaleDowns_def scaleDownIDs_def)

lemma pending_in_changes:
  "(k, s) \<in> set (cycleAssigned b fs) \<Longrightarrow> set (pendingCreation s (newID k)) \<subseteq> set (instanceChanges newID b fs)"
  using creationLoop_pending [of k s "cycleServices fs" 0 _ newID]
  by (fastforce simp: instanceChanges_parts allocateCreationsFairly_def cycleAssigned_def split: if_splits)

lemma pendingCreation_set:
  "c \<in> set (pendingCreation s i) \<longleftrightarrow> c \<in> {putChange (''instance-create/'' @ i) (KeyObservedInstance i) [],
     putChange (''instance-create/'' @ i) (obsKey i ''service'') s, putChange (''instance-create/'' @ i) (obsKey i ''state'') InstancePending}"
  by (simp add: pendingCreation_def groupedChanges_def instance_keys putChange_def)

lemma stopChange_simps [simp]: "chKey (stopChange i) = derKey i ''controller_stopped''" "chType (stopChange i) = OpPut" "chValue (stopChange i) = ''true''"
  by (simp_all add: stopChange_def instance_keys)

lemma stopChange_inj: "slash \<notin> set i \<Longrightarrow> slash \<notin> set j \<Longrightarrow> stopChange i = stopChange j \<longleftrightarrow> i = j"
  using derKey_inj [of i j] stopChange_simps(1) by metis

lemma statefulCreation_cases:
  assumes "c \<in> set (statefulCreation s n byID)" and "i = instanceOrdinalID s n"
  shows "chKey c = KeyObservedInstance i \<or> chKey c = obsKey i ''service'' \<and> chType c = OpPut \<and> chValue c = s \<or>
    chKey c = obsKey i ''state'' \<or> chKey c = obsKey i ''ordinal'' \<or> chKey c = derKey i ''controller_stopped'' \<or> chKey c = derKey i ''node_failure''"
  using assms by (auto simp: statefulCreation_def Let_def groupedChanges_def instance_keys split: if_splits)

lemma statefulCreation_service:
  "\<exists>c\<in>set (statefulCreation s n byID). chKey c = obsKey (instanceOrdinalID s n) ''service''"
  by (simp add: statefulCreation_def Let_def groupedChanges_def instance_keys)

subsection \<open>One cycle on the facts\<close>

text \<open>The identifiers drawn in the cycle are new and differ from each other; those of stateful services are kept apart from the instances of
  the service in question and from the new ones; the service of an instance is an observed fact.\<close>

definition freshIDs :: "(nat \<Rightarrow> string) \<Rightarrow> nat \<Rightarrow> Fact list \<Rightarrow> bool" where
  "freshIDs newID n fs \<longleftrightarrow> inj_on newID {..<n} \<and>
     (\<forall>k<n. slash \<notin> set (newID k) \<and> (\<forall>field. valueAt fs (obsKey (newID k) field) = None \<and> valueAt fs (derKey (newID k) field) = None))"

definition ordinalForm :: "Fact list \<Rightarrow> string \<Rightarrow> bool" where
  "ordinalForm fs i \<longleftrightarrow> (\<exists>s. statefulServices (cycleServices fs) s \<and> HasPrefix i (s @ ''-''))"

definition ordinalsApart :: "(nat \<Rightarrow> string) \<Rightarrow> nat \<Rightarrow> Fact list \<Rightarrow> string \<Rightarrow> bool" where
  "ordinalsApart newID n fs s \<longleftrightarrow>
     (\<forall>i. ordinalForm fs i \<longrightarrow> i \<notin> activeIn (valueAt fs) s \<and> (\<forall>k<n. i \<noteq> newID k)) \<and> (\<forall>i. valueAt fs (derKey i ''service'') = None)"

definition cycleReady :: "(nat \<Rightarrow> string) \<Rightarrow> int \<Rightarrow> Fact list \<Rightarrow> string \<Rightarrow> bool" where
  "cycleReady newID b fs s \<longleftrightarrow> sorted (map Key fs) \<and> distinct (map Key fs) \<and> freshIDs newID (nat b) fs \<and> ordinalsApart newID (nat b) fs s"

lemma apply_some:
  assumes "\<exists>c\<in>set cs. chKey c = k" and "\<forall>c\<in>set cs. chKey c = k \<longrightarrow> chType c = OpPut"
  shows "\<exists>c\<in>set cs. chKey c = k \<and> applyChanges cs m k = Some (chValue c)"
  using assms
proof (induction cs rule: rev_induct)
  case (snoc c cs)
  show ?case
  proof (cases "chKey c = k")
    case True
    then show ?thesis using snoc.prems by (simp add: applyChanges_def applyChange_def)
  next
    case False
    with snoc have "\<exists>c\<in>set cs. chKey c = k \<and> applyChanges cs m k = Some (chValue c)" by auto
    with False show ?thesis by (auto simp: applyChanges_def applyChange_def split: OpType.split)
  qed
qed simp

lemma active_slash:
  assumes "cycleReady newID b fs t" and "i \<in> set (cycleActive fs s)"
  shows "slash \<notin> set i" and "i \<in> activeIn (valueAt fs) s"
  using assms cycleActive_set [of fs s] by (auto simp: cycleReady_def activeIn_def)

lemma shares_positive:
  "(s, d) \<in> set (cycleDeficits fs) \<Longrightarrow> 0 < d"
proof -
  assume "(s, d) \<in> set (cycleDeficits fs)"
  then obtain t where t: "(s, d) \<in> set (serviceDeficitOf (cycleServices fs) (cycleActive fs) (cycleStates fs) (parseInstanceFieldsFromFacts fs) t)"
    by (auto simp: cycleDeficits_def computeServiceDeficits_def)
  let ?w = "countAt (desiredCounts (cycleServices fs)) t" and ?h = "int (length (cycleActive fs t))"
  have "sub64 ?w ?h = ?w - ?h" if "?h < ?w"
    using that want_in64 [of fs t] unfolding sub64_def by (intro wrap64_id) (simp add: in64_def)
  then show "0 < d" using t by (auto simp: serviceDeficitOf_def Let_def split: if_splits)
qed

lemma sum_list_nat: "\<forall>a\<in>set al. 0 \<le> a \<Longrightarrow> int (\<Sum>a\<leftarrow>al. nat a) = sum_list al"
  by (induction al) auto

lemma assigned_lt:
  assumes "(k, s) \<in> set (cycleAssigned b fs)"
  shows "k < nat b"
proof -
  let ?ds = "map snd (cycleDeficits fs)" and ?al = "allocateShares b (map snd (cycleDeficits fs))"
  from assms have nz: "?ds \<noteq> []" "0 < b"
    and k: "(k, s) \<in> set (assignedIDs (cycleServices fs) 0 (zip (cycleDeficits fs) ?al))"
    by (auto simp: cycleAssigned_def split: if_splits)
  note fair = allocateShares_spec [OF nz(1), of b]
  have len: "length ?al = length (cycleDeficits fs)" using fair(1) by (simp add: fairShares_def)
  have nonneg: "0 \<le> a" if "a \<in> set ?al" for a
  proof -
    from that obtain i where i: "i < length ?ds" "a = ?al ! i" using len by (auto simp: in_set_conv_nth)
    have "0 < ?ds ! i" using shares_positive [of _ _ fs] i(1) by (metis length_map nth_map nth_mem prod.collapse)
    moreover have "0 \<le> b div int (length ?ds)" using nz by (simp add: pos_imp_zdiv_nonneg_iff)
    moreover have "baseShares b ?ds ! i \<le> ?al ! i" using fair(1) i(1) by (simp add: fairShares_def)
    ultimately show "0 \<le> a" using i by (simp add: baseShares_min)
  qed
  have "(\<Sum>z\<leftarrow>zip (cycleDeficits fs) ?al. nat (snd z)) = (\<Sum>a\<leftarrow>?al. nat a)"
    using len by (simp flip: map_map [of nat snd, unfolded comp_def])
  then have "int (\<Sum>z\<leftarrow>zip (cycleDeficits fs) ?al. nat (snd z)) \<le> b" using fair(2) sum_list_nat [of ?al] nonneg by simp
  then show ?thesis using assigned_bounds [OF k] by linarith
qed

lemma derKey_changes:
  assumes "cycleReady newID b fs t" and "c \<in> set (instanceChanges newID b fs)" and "chKey c = derKey j x" and "slash \<notin> set j"
  shows "(\<exists>s\<in>set (cycleNames fs). j \<in> scaleDownIDs fs s \<and> (j \<in> set (cycleActive fs s) \<or> ordinalForm fs j)) \<and> c = stopChange j \<and> x = ''controller_stopped'' \<or>
    (\<exists>s n. j = instanceOrdinalID s n \<and> s \<in> set (cycleNames fs) \<and> statefulServices (cycleServices fs) s \<and>
       c \<in> set (statefulCreation s n (parseInstanceFieldsFromFacts fs)) \<and>
       set (statefulCreation s n (parseInstanceFieldsFromFacts fs)) \<subseteq> set (instanceChanges newID b fs))"
  using assms(2)
proof (cases rule: changes_mem)
  case (stop s i)
  have "slash \<notin> set i" using stop(1, 4) active_slash(1) [OF assms(1)] slash_notin_ordinal cycleNames_ok(2) by blast
  then have ij: "i = j" "x = ''controller_stopped''" using assms(3, 4) stop(2) by (simp_all add: derKey_inj)
  have "i \<in> set (cycleActive fs s) \<or> ordinalForm fs i" using stop(4) HasPrefix_ordinal unfolding ordinalForm_def by blast
  then show ?thesis using stop ij by blast
next
  case (pending k s)
  then show ?thesis using assms(3) by (auto simp: pendingCreation_set obsKey_derKey KeyObservedInstance_derKey)
next
  case (stateful s n)
  note sl = slash_notin_ordinal [OF cycleNames_ok(2) [OF stateful(1)], of n]
  have "instanceOrdinalID s n = j"
    using statefulCreation_cases [OF stateful(3) refl] assms(3) derKey_inj [OF sl assms(4)] obsKey_derKey KeyObservedInstance_derKey by metis
  then show ?thesis using stateful by blast
qed

lemma obsKey_changes:
  assumes "cycleReady newID b fs t" and "c \<in> set (instanceChanges newID b fs)" and "chKey c = obsKey j x" and "slash \<notin> set j"
  shows "(\<exists>k s. (k, s) \<in> set (cycleAssigned b fs) \<and> newID k = j \<and> chType c = OpPut \<and>
       (x = ''service'' \<and> chValue c = s \<or> x = ''state'' \<and> chValue c = InstancePending)) \<or>
    (\<exists>s n. j = instanceOrdinalID s n \<and> s \<in> set (cycleNames fs) \<and> statefulServices (cycleServices fs) s \<and>
       c \<in> set (statefulCreation s n (parseInstanceFieldsFromFacts fs)) \<and>
       set (statefulCreation s n (parseInstanceFieldsFromFacts fs)) \<subseteq> set (instanceChanges newID b fs))"
  using assms(2)
proof (cases rule: changes_mem)
  case (stop s i)
  then show ?thesis using assms(3) by (simp add: obsKey_derKey)
next
  case (pending k s)
  have sl: "slash \<notin> set (newID k)" using assms(1) assigned_lt [OF pending(1)] by (simp add: cycleReady_def freshIDs_def)
  have "newID k = j \<and> chType c = OpPut \<and> (x = ''service'' \<and> chValue c = s \<or> x = ''state'' \<and> chValue c = InstancePending)"
    using pending(2) assms(3) KeyObservedInstance_neq [OF sl] obsKey_inj [OF sl assms(4)] unfolding pendingCreation_set by auto
  then show ?thesis using pending(1) by blast
next
  case (stateful s n)
  note sl = slash_notin_ordinal [OF cycleNames_ok(2) [OF stateful(1)], of n]
  have "instanceOrdinalID s n = j"
    using statefulCreation_cases [OF stateful(3) refl] assms(3) obsKey_inj [OF sl assms(4)] obsKey_derKey KeyObservedInstance_neq [OF sl] by metis
  then show ?thesis using stateful by blast
qed

lemma ordinal_is_form: "statefulServices (cycleServices fs) s \<Longrightarrow> ordinalForm fs (instanceOrdinalID s n)"
  using HasPrefix_ordinal unfolding ordinalForm_def by blast

lemma derKey_after:
  assumes "cycleReady newID b fs t" and "slash \<notin> set j" and "\<not> ordinalForm fs j"
  shows "applyChanges (instanceChanges newID b fs) m (derKey j x) =
    (if x = ''controller_stopped'' \<and> stopChange j \<in> set (instanceChanges newID b fs) then Some ''true'' else m (derKey j x))"
proof -
  let ?cs = "instanceChanges newID b fs"
  have only: "c = stopChange j \<and> x = ''controller_stopped''" if "c \<in> set ?cs" "chKey c = derKey j x" for c
    using derKey_changes [OF assms(1) that assms(2)] ordinal_is_form assms(3) by blast
  show ?thesis
  proof (cases "x = ''controller_stopped'' \<and> stopChange j \<in> set ?cs")
    case True
    have "\<exists>c\<in>set ?cs. chKey c = derKey j x" using True by force
    moreover have "\<forall>c\<in>set ?cs. chKey c = derKey j x \<longrightarrow> chType c = OpPut \<and> chValue c = ''true''" using only stopChange_simps by metis
    ultimately show ?thesis using True apply_put by simp
  next
    case False
    then have "\<forall>c\<in>set ?cs. chKey c \<noteq> derKey j x" using only by blast
    then show ?thesis using False apply_untouched by auto
  qed
qed

lemma obsKey_after:
  assumes "cycleReady newID b fs t" and "slash \<notin> set j" and "\<not> ordinalForm fs j"
  shows "j \<notin> newID ` fst ` set (cycleAssigned b fs) \<Longrightarrow> applyChanges (instanceChanges newID b fs) m (obsKey j x) = m (obsKey j x)"
    and "(k, s) \<in> set (cycleAssigned b fs) \<Longrightarrow> newID k = j \<Longrightarrow>
      applyChanges (instanceChanges newID b fs) m (obsKey j ''service'') = Some s \<and>
      applyChanges (instanceChanges newID b fs) m (obsKey j ''state'') = Some InstancePending"
proof -
  let ?cs = "instanceChanges newID b fs"
  have only: "\<exists>k s. (k, s) \<in> set (cycleAssigned b fs) \<and> newID k = j \<and> chType c = OpPut \<and>
      (x = ''service'' \<and> chValue c = s \<or> x = ''state'' \<and> chValue c = InstancePending)"
    if "c \<in> set ?cs" "chKey c = obsKey j x" for c x
    using obsKey_changes [OF assms(1) that assms(2)] ordinal_is_form assms(3) by blast
  {
    assume "j \<notin> newID ` fst ` set (cycleAssigned b fs)"
    then have "\<forall>c\<in>set ?cs. chKey c \<noteq> obsKey j x" using only by force
    then show "applyChanges ?cs m (obsKey j x) = m (obsKey j x)" by (rule apply_untouched)
  next
    assume k: "(k, s) \<in> set (cycleAssigned b fs)" and j: "newID k = j"
    have inj: "inj_on newID {..<nat b}" using assms(1) by (simp add: cycleReady_def freshIDs_def)
    have dist: "distinct (map fst (cycleAssigned b fs))" by (simp add: cycleAssigned_def assigned_distinct)
    have uniq: "s' = s" if "(k', s') \<in> set (cycleAssigned b fs)" "newID k' = j" for k' s'
    proof -
      have "k' = k" using inj_onD [OF inj, of k' k] that j assigned_lt [OF that(1)] assigned_lt [OF k] by simp
      then show ?thesis using that(1) k dist by (metis eq_key_imp_eq_value)
    qed
    have ex: "\<exists>c\<in>set ?cs. chKey c = obsKey j ''service''" "\<exists>c\<in>set ?cs. chKey c = obsKey j ''state''"
      using pending_in_changes [OF k, of newID] j by (force simp: pendingCreation_set subset_iff)+
    have "\<forall>c\<in>set ?cs. chKey c = obsKey j ''service'' \<longrightarrow> chType c = OpPut \<and> chValue c = s" using only uniq by fastforce
    moreover have "\<forall>c\<in>set ?cs. chKey c = obsKey j ''state'' \<longrightarrow> chType c = OpPut \<and> chValue c = InstancePending" using only by fastforce
    ultimately show "applyChanges ?cs m (obsKey j ''service'') = Some s \<and> applyChanges ?cs m (obsKey j ''state'') = Some InstancePending"
      using apply_put ex by blast
  }
qed

lemma stopped_of:
  assumes "cycleReady newID b fs t" and "slash \<notin> set j" and "\<not> ordinalForm fs j" and "stopChange j \<in> set (instanceChanges newID b fs)"
  shows "\<exists>s\<in>set (cycleNames fs). j \<in> scaleDownIDs fs s \<and> j \<in> activeIn (valueAt fs) s"
  using derKey_changes [OF assms(1, 4) _ assms(2)] ordinal_is_form assms(3) active_slash(2) [OF assms(1)] stopChange_simps(1) by metis

lemma effectiveState_cong:
  "(\<And>x. x \<in> {''controller_stopped'', ''node_failure'', ''state''} \<Longrightarrow> g x = g' x) \<Longrightarrow> effectiveInstanceState g = effectiveInstanceState g'"
  by (simp add: effectiveInstanceState_def strAt_def)

lemma active_old:
  assumes ready: "cycleReady newID b fs s" and s: "s \<in> set (cycleNames fs)"
    and j: "slash \<notin> set j" "\<not> ordinalForm fs j" "j \<notin> newID ` fst ` set (cycleAssigned b fs)"
  shows "j \<in> activeIn (applyChanges (instanceChanges newID b fs) (valueAt fs)) s \<longleftrightarrow> j \<in> activeIn (valueAt fs) s \<and> j \<notin> scaleDownIDs fs s"
proof -
  let ?m = "valueAt fs" and ?m' = "applyChanges (instanceChanges newID b fs) (valueAt fs)"
  let ?st = "stopChange j \<in> set (instanceChanges newID b fs)"
  have field: "mergedField ?m' j x = (if x = ''controller_stopped'' \<and> ?st then Some ''true'' else mergedField ?m j x)" for x
    using derKey_after [OF ready j(1, 2)] obsKey_after(1) [OF ready j] by (simp add: mergedField_def split: option.split)
  have down: "?st \<longleftrightarrow> j \<in> scaleDownIDs fs s" if "j \<in> activeIn ?m s"
  proof
    assume ?st
    then obtain u where "j \<in> scaleDownIDs fs u" "j \<in> activeIn ?m u" using stopped_of [OF ready j(1, 2)] by blast
    then show "j \<in> scaleDownIDs fs s" using that by (simp add: activeIn_def)
  qed (rule stop_in_changes [OF s])
  show ?thesis
  proof (cases ?st)
    case True
    then have "effectiveInstanceState (mergedField ?m' j) = InstanceStopped" by (simp add: effectiveInstanceState_def strAt_def field)
    then show ?thesis using True down by (auto simp: activeIn_def)
  next
    case False
    then have "mergedField ?m' j = mergedField ?m j" using field by auto
    then show ?thesis using False down by (auto simp: activeIn_def)
  qed
qed

lemma active_new:
  assumes ready: "cycleReady newID b fs s" and "(k, u) \<in> set (cycleAssigned b fs)"
  shows "newID k \<in> activeIn (applyChanges (instanceChanges newID b fs) (valueAt fs)) s \<longleftrightarrow> u = s \<and> s \<noteq> []"
proof -
  let ?m = "valueAt fs" and ?m' = "applyChanges (instanceChanges newID b fs) (valueAt fs)" and ?j = "newID k"
  have k: "k < nat b" by (rule assigned_lt [OF assms(2)])
  have j: "slash \<notin> set ?j" "\<not> ordinalForm fs ?j" and none: "?m (obsKey ?j x) = None" "?m (derKey ?j x) = None" for x
    using ready k by (auto simp: cycleReady_def freshIDs_def ordinalsApart_def)
  have "?j \<notin> activeIn ?m u" for u using none by (simp add: activeIn_def mergedField_def strAt_def)
  then have nost: "stopChange ?j \<notin> set (instanceChanges newID b fs)" using stopped_of [OF ready j] by blast
  have der: "?m' (derKey ?j x) = None" for x using derKey_after [OF ready j] nost none by simp
  have obs: "?m' (obsKey ?j ''service'') = Some u" "?m' (obsKey ?j ''state'') = Some InstancePending"
    using obsKey_after(2) [OF ready j assms(2)] by simp_all
  have rest: "?m' (obsKey ?j x) = None" if "x \<noteq> ''service''" "x \<noteq> ''state''" for x
  proof -
    have "chKey c \<noteq> obsKey ?j x" if "c \<in> set (instanceChanges newID b fs)" for c
      using obsKey_changes [OF ready that _ j(1), of x] ordinal_is_form j(2) \<open>x \<noteq> ''service''\<close> \<open>x \<noteq> ''state''\<close> by metis
    then show ?thesis using apply_untouched none by simp
  qed
  have "effectiveInstanceState (mergedField ?m' ?j) = InstancePending"
    by (simp add: effectiveInstanceState_def mergedField_def strAt_def der obs rest)
  moreover have "strAt (mergedField ?m' ?j) ''service'' = u" by (simp add: mergedField_def strAt_def der obs)
  ultimately show ?thesis using j(1) by (auto simp: activeIn_def state_defs)
qed

lemma ordinal_changes:
  assumes ready: "cycleReady newID b fs s" and j: "slash \<notin> set j" "ordinalForm fs j"
    and "c \<in> set (instanceChanges newID b fs)" and "chKey c = obsKey j x"
  shows "\<exists>u n. j = instanceOrdinalID u n \<and> statefulServices (cycleServices fs) u \<and>
    c \<in> set (statefulCreation u n (parseInstanceFieldsFromFacts fs)) \<and>
    set (statefulCreation u n (parseInstanceFieldsFromFacts fs)) \<subseteq> set (instanceChanges newID b fs)"
proof -
  have "k < nat b \<Longrightarrow> j \<noteq> newID k" for k using ready j(2) by (auto simp: cycleReady_def ordinalsApart_def)
  then show ?thesis using obsKey_changes [OF ready assms(4, 5) j(1)] assigned_lt by blast
qed

lemma ordinal_derived_service:
  assumes ready: "cycleReady newID b fs s" and j: "slash \<notin> set j" "ordinalForm fs j"
  shows "applyChanges (instanceChanges newID b fs) (valueAt fs) (derKey j ''service'') = None"
proof -
  have "chKey c \<noteq> derKey j ''service''" if "c \<in> set (instanceChanges newID b fs)" for c
  proof
    assume c: "chKey c = derKey j ''service''"
    from derKey_changes [OF ready that c j(1)] obtain u n where
      "c \<in> set (statefulCreation u n (parseInstanceFieldsFromFacts fs))" "j = instanceOrdinalID u n" by auto
    from statefulCreation_cases [OF this] show False
      unfolding c by (simp add: derKey_inj [OF j(1) j(1)] obsKey_derKey KeyObservedInstance_derKey)
  qed
  then show ?thesis using apply_untouched ready by (simp add: cycleReady_def ordinalsApart_def)
qed

text \<open>A created instance with an ordinal belongs to a stateful service.\<close>

lemma ordinal_created:
  assumes ready: "cycleReady newID b fs s" and j: "slash \<notin> set j" "ordinalForm fs j"
    and ex: "\<exists>c\<in>set (instanceChanges newID b fs). chKey c = obsKey j ''service''"
  shows "statefulServices (cycleServices fs)
    (strAt (mergedField (applyChanges (instanceChanges newID b fs) (valueAt fs)) j) ''service'')"
proof -
  let ?cs = "instanceChanges newID b fs"
  have val: "chType c = OpPut \<and> statefulServices (cycleServices fs) (chValue c)" if c: "c \<in> set ?cs" "chKey c = obsKey j ''service''" for c
  proof -
    obtain u n where u: "j = instanceOrdinalID u n" "statefulServices (cycleServices fs) u"
      "c \<in> set (statefulCreation u n (parseInstanceFieldsFromFacts fs))" using ordinal_changes [OF ready j c] by blast
    have "obsKey j ''service'' \<noteq> KeyObservedInstance j" using KeyObservedInstance_neq [OF j(1)] by metis
    then show ?thesis
      using statefulCreation_cases [OF u(3, 1)] u(2) unfolding c(2) by (simp add: obsKey_inj [OF j(1) j(1)] obsKey_derKey)
  qed
  then obtain c where "c \<in> set ?cs" "chKey c = obsKey j ''service''" "applyChanges ?cs (valueAt fs) (obsKey j ''service'') = Some (chValue c)"
    using apply_some [OF ex, of "valueAt fs"] by blast
  then show ?thesis using val ordinal_derived_service [OF ready j] by (simp add: mergedField_def strAt_def)
qed

lemma active_ordinal:
  assumes ready: "cycleReady newID b fs s" and "\<not> statefulServices (cycleServices fs) s" and j: "slash \<notin> set j" "ordinalForm fs j"
  shows "j \<notin> activeIn (applyChanges (instanceChanges newID b fs) (valueAt fs)) s"
proof
  let ?cs = "instanceChanges newID b fs"
  let ?m = "valueAt fs" and ?m' = "applyChanges ?cs (valueAt fs)"
  assume act: "j \<in> activeIn ?m' s"
  then have "\<not> (\<exists>c\<in>set ?cs. chKey c = obsKey j ''service'')"
    using ordinal_created [OF ready j] assms(2) unfolding activeIn_def by blast
  then have nocreate: "\<not> (j = instanceOrdinalID u n \<and> set (statefulCreation u n (parseInstanceFieldsFromFacts fs)) \<subseteq> set ?cs)" for u n
    using statefulCreation_service [of u n] by blast
  have obs_same: "?m' (obsKey j x) = ?m (obsKey j x)" for x
    using ordinal_changes [OF ready j] nocreate by (intro apply_untouched) blast
  have der_only: "c = stopChange j \<and> x = ''controller_stopped''" if "c \<in> set ?cs" "chKey c = derKey j x" for c x
    using derKey_changes [OF ready that j(1)] nocreate by blast
  have der_same: "?m' (derKey j x) = ?m (derKey j x)" if "stopChange j \<notin> set ?cs \<or> x \<noteq> ''controller_stopped''" for x
    using that der_only by (intro apply_untouched) blast
  have "stopChange j \<notin> set ?cs"
  proof
    assume st: "stopChange j \<in> set ?cs"
    have "\<forall>c\<in>set ?cs. chKey c = derKey j ''controller_stopped'' \<longrightarrow> chType c = OpPut \<and> chValue c = ''true''"
      using der_only stopChange_simps by metis
    with st have "?m' (derKey j ''controller_stopped'') = Some ''true''"
      using apply_put [of ?cs] stopChange_simps(1) by blast
    then have "effectiveInstanceState (mergedField ?m' j) = InstanceStopped"
      by (simp add: effectiveInstanceState_def mergedField_def strAt_def)
    then show False using act by (simp add: activeIn_def)
  qed
  then have "mergedField ?m' j = mergedField ?m j" using obs_same der_same by (intro ext) (simp add: mergedField_def split: option.split)
  then have "j \<in> activeIn ?m s" using act by (simp add: activeIn_def)
  then show False using ready j(2) by (simp add: cycleReady_def ordinalsApart_def)
qed

lemma cycle_active:
  assumes "cycleReady newID b fs s" and "s \<in> set (cycleNames fs)" and "\<not> statefulServices (cycleServices fs) s" and "s \<noteq> []"
  shows "activeIn (applyChanges (instanceChanges newID b fs) (valueAt fs)) s =
    (activeIn (valueAt fs) s - scaleDownIDs fs s) \<union> newID ` {k. (k, s) \<in> set (cycleAssigned b fs)}" (is "?L = ?R")
proof -
  have "j \<in> ?L \<longleftrightarrow> j \<in> ?R" for j
  proof (cases "slash \<in> set j")
    case True
    moreover have "slash \<notin> set (newID k)" if "(k, s) \<in> set (cycleAssigned b fs)" for k
      using assms(1) assigned_lt [OF that] by (simp add: cycleReady_def freshIDs_def)
    ultimately have "j \<notin> newID ` {k. (k, s) \<in> set (cycleAssigned b fs)}" by blast
    moreover have "j \<notin> activeIn m s" for m using True by (simp add: activeIn_def)
    ultimately show ?thesis by blast
  next
    case False
    show ?thesis
    proof (cases "j \<in> newID ` fst ` set (cycleAssigned b fs)")
      case True
      then obtain k u where k: "(k, u) \<in> set (cycleAssigned b fs)" "j = newID k" by auto
      have "j \<notin> activeIn (valueAt fs) s"
        using assms(1) assigned_lt [OF k(1)] k(2) by (simp add: cycleReady_def freshIDs_def activeIn_def mergedField_def strAt_def)
      moreover have "j \<in> newID ` {k. (k, s) \<in> set (cycleAssigned b fs)} \<longleftrightarrow> u = s"
      proof
        assume "j \<in> newID ` {k. (k, s) \<in> set (cycleAssigned b fs)}"
        then obtain k' where k': "(k', s) \<in> set (cycleAssigned b fs)" "j = newID k'" by blast
        show "u = s" using active_new [OF assms(1) k'(1)] active_new [OF assms(1) k(1)] k(2) k'(2) assms(4) by simp
      qed (use k in blast)
      ultimately show ?thesis using active_new [OF assms(1) k(1)] k(2) assms(4) by simp
    next
      case notnew: False
      have "j \<notin> newID ` {k. (k, s) \<in> set (cycleAssigned b fs)}"
      proof
        assume "j \<in> newID ` {k. (k, s) \<in> set (cycleAssigned b fs)}"
        then obtain k where "(k, s) \<in> set (cycleAssigned b fs)" "j = newID k" by blast
        then have "j \<in> newID ` fst ` set (cycleAssigned b fs)" by (metis fst_conv imageI)
        with notnew show False by blast
      qed
      then have r: "j \<in> ?R \<longleftrightarrow> j \<in> activeIn (valueAt fs) s \<and> j \<notin> scaleDownIDs fs s" by blast
      show ?thesis
      proof (cases "ordinalForm fs j")
        case True
        then show ?thesis using active_ordinal [OF assms(1, 3) False True] r assms(1) by (simp add: cycleReady_def ordinalsApart_def)
      next
        case nf: False
        then show ?thesis using active_old [OF assms(1, 2) False nf notnew] r by simp
      qed
    qed
  qed
  then show ?thesis by blast
qed

lemma map_fst_deficits:
  assumes "\<And>s. f s = [] \<or> (\<exists>d. f s = [(s, d)])"
  shows "map fst (concat (map f ns)) = filter (\<lambda>s. f s \<noteq> []) ns"
proof (induction ns)
  case (Cons s ns)
  then show ?case using assms [of s] by auto
qed simp

lemma deficits_distinct: "distinct (map fst (cycleDeficits fs))" and deficits_length: "length (cycleDeficits fs) \<le> length (cycleNames fs)"
proof -
  have eq: "map fst (cycleDeficits fs) =
      filter (\<lambda>s. serviceDeficitOf (cycleServices fs) (cycleActive fs) (cycleStates fs) (parseInstanceFieldsFromFacts fs) s \<noteq> []) (cycleNames fs)"
    unfolding cycleDeficits_def computeServiceDeficits_def by (rule map_fst_deficits) (rule deficit_shape)
  show "distinct (map fst (cycleDeficits fs))" unfolding eq using cycleNames_ok(1) by simp
  have "length (map fst (cycleDeficits fs)) \<le> length (cycleNames fs)" unfolding eq by (rule length_filter_le)
  then show "length (cycleDeficits fs) \<le> length (cycleNames fs)" by simp
qed

lemma deficit_stateless:
  assumes "s \<in> set (cycleNames fs)" and "\<not> statefulServices (cycleServices fs) s"
    and "w = countAt (desiredCounts (cycleServices fs)) s" and "h = int (length (cycleActive fs s))"
  shows "h < w \<Longrightarrow> (s, w - h) \<in> set (cycleDeficits fs)" and "w \<le> h \<Longrightarrow> s \<notin> fst ` set (cycleDeficits fs)"
proof -
  let ?d = "serviceDeficitOf (cycleServices fs) (cycleActive fs) (cycleStates fs) (parseInstanceFieldsFromFacts fs)"
  have "sub64 w h = w - h" if "h < w"
    using that want_in64 [of fs s] assms(3, 4) unfolding sub64_def by (intro wrap64_id) (simp add: in64_def)
  then have d: "?d s = (if w \<le> h then [] else [(s, w - h)])"
    using assms(2) by (simp add: serviceDeficitOf_def Let_def assms(3, 4))
  have mem: "(s, x) \<in> set (cycleDeficits fs) \<longleftrightarrow> (s, x) \<in> set (?d s)" for x
    using assms(1) deficit_shape [of "cycleServices fs" "cycleActive fs" "cycleStates fs" "parseInstanceFieldsFromFacts fs"]
    unfolding cycleDeficits_def computeServiceDeficits_def set_concat set_map
    by (auto, metis empty_iff empty_set list.set_intros(1) prod.inject set_ConsD)
  show "h < w \<Longrightarrow> (s, w - h) \<in> set (cycleDeficits fs)" and "w \<le> h \<Longrightarrow> s \<notin> fst ` set (cycleDeficits fs)"
    using mem d by auto
qed

lemma assigned_share:
  assumes "(s, d) \<in> set (cycleDeficits fs)" and "\<not> statefulServices (cycleServices fs) s" and "0 < b"
  shows "int (card {k. (k, s) \<in> set (cycleAssigned b fs)}) \<le> d"
    and "min (b div int (length (cycleNames fs))) d \<le> int (card {k. (k, s) \<in> set (cycleAssigned b fs)})"
proof -
  let ?D = "cycleDeficits fs" and ?al = "allocateShares b (map snd (cycleDeficits fs))"
  have ne: "?D \<noteq> []" using assms(1) by auto
  have fair: "fairShares (map snd ?D) (baseShares b (map snd ?D)) ?al" using allocateShares_spec(1) ne by simp
  then have len: "length ?al = length ?D" by (simp add: fairShares_def)
  obtain i where i: "i < length ?D" "?D ! i = (s, d)" using assms(1) by (auto simp: in_set_conv_nth)
  have bounds: "min (b div int (length ?D)) d \<le> ?al ! i" "?al ! i \<le> d"
    using fair i by (auto simp: fairShares_def baseShares_min)
  have "((s, d), ?al ! i) \<in> set (zip ?D ?al)" using i len by (auto simp: set_zip intro!: exI [of _ i])
  moreover have "distinct (map (\<lambda>z. fst (fst z)) (zip ?D ?al))"
  proof -
    have "map (\<lambda>z. fst (fst z)) (zip ?D ?al) = map fst ?D" using len by (simp flip: map_map [of fst fst, unfolded comp_def])
    then show ?thesis using deficits_distinct [of fs] by simp
  qed
  ultimately have card: "card {k. (k, s) \<in> set (cycleAssigned b fs)} = nat (?al ! i)"
    using assigned_card [of "zip ?D ?al" s d "?al ! i" "cycleServices fs" 0] assms ne by (simp add: cycleAssigned_def)
  have d: "0 < d" using shares_positive [OF assms(1)] .
  have q: "b div int (length (cycleNames fs)) \<le> b div int (length ?D)"
    using deficits_length [of fs] ne assms(3) by (intro zdiv_mono2) auto
  have "0 \<le> b div int (length ?D)" using assms(3) ne by (simp add: pos_imp_zdiv_nonneg_iff)
  then have "0 \<le> ?al ! i" using bounds(1) d by linarith
  then show "int (card {k. (k, s) \<in> set (cycleAssigned b fs)}) \<le> d"
    and "min (b div int (length (cycleNames fs))) d \<le> int (card {k. (k, s) \<in> set (cycleAssigned b fs)})"
    using card bounds q by auto
qed

text \<open>The instances of a stateless service that a cycle stops: as many as are in excess, and running ones only after all pending ones.\<close>

lemma stops_stateless:
  assumes "cycleReady newID b fs t" and "\<not> statefulServices (cycleServices fs) s" and "\<not> perNodeServices (cycleServices fs) s"
    and "w = countAt (desiredCounts (cycleServices fs)) s" and "h = int (length (cycleActive fs s))" and "h < 2 ^ 63" and "0 \<le> w"
  shows "h \<le> w \<Longrightarrow> scaleDownIDs fs s = {}"
    and "w < h \<Longrightarrow> scaleDownIDs fs s \<subseteq> activeIn (valueAt fs) s \<and> card (scaleDownIDs fs s) = nat (h - w) \<and>
      ((\<exists>i\<in>scaleDownIDs fs s. strAt (cycleStates fs) i \<noteq> InstancePending) \<longrightarrow>
       (\<forall>i\<in>activeIn (valueAt fs) s - scaleDownIDs fs s. strAt (cycleStates fs) i \<noteq> InstancePending))"
proof -
  let ?A = "cycleActive fs s" and ?P = "\<lambda>i. strAt (cycleStates fs) i = InstancePending"
  let ?ps = "filter ?P ?A" and ?rs = "filter (\<lambda>i. \<not> ?P i) ?A"
  have set_A: "set ?A = activeIn (valueAt fs) s" using assms(1) cycleActive_set by (simp add: cycleReady_def)
  have ex: "sub64 h w = h - w" using assms(5-7) want_in64 [of fs s] assms(4) unfolding sub64_def by (intro wrap64_id) (simp add: in64_def)
  have down: "scaleDownService (cycleServices fs) (cycleActive fs) (cycleStates fs) (parseInstanceFieldsFromFacts fs) s =
      (if w < h then map stopChange (take (nat (h - w)) (?ps @ ?rs)) else [])"
    using assms(2, 3) ex
    by (simp add: scaleDownService_def Let_def markExcessStatelessInstancesAsStopped_def select_take flip: assms(4, 5))
  then show "h \<le> w \<Longrightarrow> scaleDownIDs fs s = {}" by (simp add: scaleDownIDs_def)
  assume wh: "w < h"
  let ?T = "take (nat (h - w)) (?ps @ ?rs)"
  have sl: "slash \<notin> set i" if "i \<in> set ?A" for i using active_slash(1) [OF assms(1) that] .
  have T_A: "set ?T \<subseteq> set ?A" by (auto dest!: in_set_takeD)
  have ids: "scaleDownIDs fs s = set ?T"
  proof -
    have "i \<in> scaleDownIDs fs s \<longleftrightarrow> (\<exists>j\<in>set ?T. stopChange i = stopChange j)" for i
      using down wh by (auto simp: scaleDownIDs_def simp del: take_append)
    moreover have "i = j" if "stopChange i = stopChange j" "j \<in> set ?A" for i j
    proof -
      have "derKey i ''controller_stopped'' = derKey j ''controller_stopped''" using that(1) stopChange_simps(1) by metis
      then show ?thesis by (simp add: derKey_def)
    qed
    ultimately show ?thesis using T_A by blast
  qed
  have dist: "distinct (?ps @ ?rs)" using cycleActive_distinct [of fs s] by auto
  have len: "length (?ps @ ?rs) = length ?A" using sum_length_filter_compl [of ?P ?A] by simp
  have "card (set ?T) = length ?T" using dist distinct_card distinct_take by blast
  also have "\<dots> = nat (h - w)" using len assms(5, 7) by (simp del: take_append)
  finally have card: "card (scaleDownIDs fs s) = nat (h - w)" using ids by simp
  have "\<forall>i\<in>set ?A - set ?T. \<not> ?P i" if "\<exists>i\<in>set ?T. \<not> ?P i"
  proof -
    from that have "length ?ps < nat (h - w)"
      by (rule contrapos_pp) (auto simp: not_less dest!: in_set_takeD)
    then have "set ?ps \<subseteq> set ?T" by simp
    then show ?thesis by auto
  qed
  then show "scaleDownIDs fs s \<subseteq> activeIn (valueAt fs) s \<and> card (scaleDownIDs fs s) = nat (h - w) \<and>
      ((\<exists>i\<in>scaleDownIDs fs s. strAt (cycleStates fs) i \<noteq> InstancePending) \<longrightarrow>
       (\<forall>i\<in>activeIn (valueAt fs) s - scaleDownIDs fs s. strAt (cycleStates fs) i \<noteq> InstancePending))"
    using card T_A unfolding ids set_A by blast
qed

definition webFacts :: "Fact list" where
  "webFacts = map (\<lambda>(k, v). zeroFact\<lparr>Key := k, Value := v\<rparr>)
     [(''effective/service/web/instances'', ''3''), (''observed/instance/a/service'', ''web''), (''observed/instance/a/state'', ''running'')]"

definition nthID :: "nat \<Rightarrow> string" where
  "nthID k = CHR ''n'' # replicate k CHR ''x''"

lemma webFacts_services: "statefulServices (cycleServices webFacts) = (\<lambda>s. False)" "perNodeServices (cycleServices webFacts) = (\<lambda>s. False)"
proof -
  have f: "FactsWithPrefix webFacts ScanEffectiveServices = [zeroFact\<lparr>Key := ''effective/service/web/instances'', Value := ''3''\<rparr>]" by code_simp
  have sp: "splitFactKeyIntoEntityAndSuffix ScanEffectiveServices (zeroFact\<lparr>Key := ''effective/service/web/instances'', Value := ''3''\<rparr>) =
      Some (''web'', ''instances'')" by code_simp
  have at: "Atoi ''3'' = (3, None)" by code_simp
  show "statefulServices (cycleServices webFacts) = (\<lambda>s. False)" "perNodeServices (cycleServices webFacts) = (\<lambda>s. False)"
    by (simp_all add: cycleServices_def Let_def parseEffectiveServiceFacts_def f addEffectiveServiceFact_def sp at)
qed

lemma webFacts_ready: "cycleReady nthID 19 webFacts ''web''"
proof -
  have "sorted (map Key webFacts)" "distinct (map Key webFacts)" by code_simp+
  moreover have "inj_on nthID {..<nat 19}" by (intro inj_onI) (metis nthID_def length_Cons length_replicate nat.inject)
  moreover have "slash \<notin> set (nthID k)" for k by (simp add: nthID_def)
  moreover have "valueAt webFacts (obsKey (nthID k) x) = None" "valueAt webFacts (derKey (nthID k) x) = None" for k x
    by (simp_all add: webFacts_def valueAt_def obsKey_def derKey_def nthID_def ScanObservedInstances_def ScanDerivedInstances_def prefix_defs)
  moreover have "valueAt webFacts (derKey i x) = None" for i x
    by (simp add: webFacts_def valueAt_def derKey_def ScanDerivedInstances_def prefix_defs)
  ultimately show ?thesis
    by (simp add: cycleReady_def freshIDs_def ordinalsApart_def ordinalForm_def webFacts_services)
qed



text \<open>C14. Ordered startup of stateful services. When a cycle creates an instance with an ordinal, the instance belongs to
  a stateful service, its ordinal is not taken by an active instance, and the instances of all lower ordinals
  are active and running.\<close>

theorem stateful_startup_ordered:
  assumes "c \<in> set (instanceChanges newID b fs)" and "chKey c = KeyObservedInstanceOrdinal i" and "slash \<notin> set i"
    and "\<forall>k. slash \<notin> set (newID k)"
  shows "\<exists>s n. i = instanceOrdinalID s n \<and> s \<in> set (cycleNames fs) \<and> statefulServices (cycleServices fs) s \<and> 0 \<le> n \<and>
    (let ordinals = parseExistingOrdinals s (buildActiveIDsFromFields s (parseInstanceFieldsFromFacts fs) (cycleStates fs))
     in n \<notin> set ordinals \<and> (\<forall>m. 0 \<le> m \<and> m < n \<longrightarrow> m \<in> set ordinals \<and> strAt (cycleStates fs) (instanceOrdinalID s m) = InstanceRunning))"
  using assms(1)
proof (cases rule: changes_mem)
  case (stop s i')
  then show ?thesis using assms(2) by (simp add: instance_keys obsKey_derKey)
next
  case (pending k s)
  have sl: "slash \<notin> set (newID k)" using assms(4) by blast
  have "chKey c \<noteq> obsKey i ''ordinal''"
    using pending(2) KeyObservedInstance_neq [OF sl] unfolding pendingCreation_set by (auto simp: obsKey_inj [OF sl assms(3)])
  then show ?thesis using assms(2) by (simp add: instance_keys)
next
  case (stateful s n)
  note sl = slash_notin_ordinal [OF cycleNames_ok(2) [OF stateful(1)], of n]
  have "instanceOrdinalID s n = i"
    using statefulCreation_cases [OF stateful(3) refl] assms(2) obsKey_inj [OF sl assms(3)] obsKey_derKey KeyObservedInstance_neq [OF sl]
    unfolding instance_keys by metis
  then show ?thesis using stateful(1, 2, 5) unfolding startable_def Let_def by blast
qed

definition dbFacts :: "Fact list" where
  "dbFacts = map (\<lambda>(k, v). zeroFact\<lparr>Key := k, Value := v\<rparr>)
     [(''effective/service/db/instances'', ''2''), (''effective/service/db/stateful'', ''true''),
      (''observed/instance/db-0/service'', ''db''), (''observed/instance/db-0/state'', ''running'')]"

theorem stateful_startup_ordered_witness:
  "\<exists>s n. ''db-1'' = instanceOrdinalID s n \<and> s \<in> set (cycleNames dbFacts) \<and> statefulServices (cycleServices dbFacts) s"
proof -
  have "putChange ''instance-create/db-1'' (KeyObservedInstanceOrdinal ''db-1'') ''1'' \<in> set (instanceChanges nthID 19 dbFacts)" by code_simp
  from stateful_startup_ordered [OF this, of "''db-1''"] show ?thesis by (auto simp: nthID_def)
qed

text \<open>An active instance of a stateful service whose identifier carries no ordinal counts towards the number of instances but is never stopped:
  the excess falls on the ordinals, and without them a cycle does nothing although more instances are active than desired.\<close>

definition strayFacts :: "Fact list" where
  "strayFacts = map (\<lambda>(k, v). zeroFact\<lparr>Key := k, Value := v\<rparr>)
     [(''effective/service/db/instances'', ''1''), (''effective/service/db/stateful'', ''true''),
      (''observed/instance/a1/service'', ''db''), (''observed/instance/a1/state'', ''running''),
      (''observed/instance/a2/service'', ''db''), (''observed/instance/a2/state'', ''running'')]"

lemma stateful_scale_down_sticks:
  "cycleActive strayFacts ''db'' = [''a1'', ''a2'']" "instanceReconcile nthID 19 strayFacts = Inr []"
  by code_simp+

end
