(* ===== verification/Spec2Isabelle.thy ===== *)
theory Spec2Isabelle
  imports Prefix_Trie Memory_Store Watch_Stream Prefix_Search Go_Strconv Scheduler_Reconcile Runner Leader_Election Controller_Order Store_Access
    Api_Access Instance_Controller
begin

text \<open>
  \<^bold>\<open>A verification of the core of ccattler.\<close> ccattler is a container orchestrator: agents and users write
  \<^emph>\<open>facts\<close> (a key, a value and a revision) into a store, and controllers watch prefixes of the
  keys and reconcile them into further facts. This library models the store, the scheduler, the instance controller, the runner that drives
  every controller, the election that decides which node drives them, the order of the
  controllers, and the authorization of access to the store and the API, and proves what each of these parts promises to the others.

  \<^bold>\<open>The parts and how they interact.\<close> The store (\<^verbatim>\<open>src/store\<close>) gives every write a new revision, runs
  compare-and-swap transactions, and streams events to watchers. The runner (\<^verbatim>\<open>src/controllers/runner.go\<close>) scans
  the prefixes of a controller, calls its \<open>Reconcile\<close>, confines the returned changes to
  the controller's write domain and to a budget, and commits them in a transaction that is guarded by
  the scanned revisions. The instance controller (\<^verbatim>\<open>src/controllers/instance.go\<close>) creates pending instances for
  the desired counts and marks excess ones as stopped. The scheduler (\<^verbatim>\<open>src/scheduler\<close>) is the largest controller: it reads nodes,
  instances and services from the facts and returns placements, preemptions, rebalancing moves and reports of unplaced demand. The leader
  election (\<^verbatim>\<open>src/controllers/leader.go\<close>) uses the transactions of the same store to decide which
  control-plane node runs the runner. The authorizing store (\<^verbatim>\<open>src/security/authorized_store.go\<close>) wraps the store and checks each
  request against role and attribute policies; the API authorizer (\<^verbatim>\<open>src/security/api_authorizer.go\<close>) checks
  capabilities, and the auth controller (\<^verbatim>\<open>src/controllers/auth.go\<close>) rebuilds it from facts of the store.

  \<^bold>\<open>Theories.\<close>
  \<^item> \<open>Go_Prelude\<close>, \<open>Go_Strconv\<close>, \<open>Go_Heap\<close>: what the code uses of Go and its library: 64-bit integers with
    their wrap-around, \<^verbatim>\<open>strings\<close>, \<^verbatim>\<open>strconv\<close> with its round trip, and \<^verbatim>\<open>container/heap\<close> with the heap order.
  \<^item> \<open>Prefix_Trie\<close> (\<^verbatim>\<open>store/trie.go\<close>): the key index; it refines a set of keys, which the locale of the theory states
    once and the interpretation on the trie discharges.
  \<^item> \<open>Memory_Store\<close> and \<open>Watch_Stream\<close> (\<^verbatim>\<open>store/memory.go\<close>, \<^verbatim>\<open>store/store.go\<close>): one function per operation, split into its
    data section and its broadcasts as the two mutexes split it; \<open>mem_step\<close> interleaves them. The lemmas show the invariants of all reachable
    states, atomicity of transactions, that a revision identifies a fact, that scans are exact, and what a watcher can and cannot miss.
  \<^item> \<open>Prefix_Search\<close> (\<^verbatim>\<open>store/prefix_search.go\<close>): the binary search over sorted facts equals the filter.
  \<^item> \<open>Fact_Keys\<close> (\<^verbatim>\<open>types/keys.go\<close>, \<^verbatim>\<open>types/state.go\<close>): the keys and changes that the modelled parts use.
  \<^item> \<open>Node_Heap\<close> (\<^verbatim>\<open>scheduler/node_heap.go\<close>, \<^verbatim>\<open>scheduler/cache.go\<close>): the capacity cache refines a scan for the least loaded fitting node.
  \<^item> \<open>Scheduler_Facts\<close>, \<open>Scheduler_Placement\<close>, \<open>Scheduler_Reconcile\<close> (\<^verbatim>\<open>scheduler/scheduler.go\<close>): reading the facts, the
    placement passes, and the whole cycle with preemption and rebalancing. The lemmas show that placement never overcommits a
    node, that a cycle accounts for every pending instance, and that rebalancing is safe and ends.
  \<^item> \<open>Instance_Controller\<close> (\<^verbatim>\<open>controllers/instance.go\<close>, \<^verbatim>\<open>controllers/helpers.go\<close>): the controller that creates and stops instances. The
    lemmas relate the facts before and after a cycle: the number of active instances moves to the desired one, the creation
    budget is shared fairly, and stateful services start in order.
  \<^item> \<open>Runner\<close> (\<^verbatim>\<open>controllers/runner.go\<close>, \<^verbatim>\<open>controllers/delta_buffer.go\<close>): the cycle of a controller with what other
    clients do between its store accesses as an argument. The lemmas show that no update is lost, that change
    groups commit as a whole and within the limits, and that coalescing events is lossless.
  \<^item> \<open>Leader_Election\<close> (\<^verbatim>\<open>controllers/leader.go\<close>, \<^verbatim>\<open>controllers/ha_runner.go\<close>): any number of nodes whose store calls interleave, with
    lost answers, refused calls, restarts and shutdowns. The lemmas show exclusivity up to the lease duration and takeover.
  \<^item> \<open>Controller_Order\<close> (\<^verbatim>\<open>controllers/topological_sort.go\<close>): the dependency graph of the controllers and Kahn's algorithm.
  \<^item> \<open>Store_Access\<close> (\<^verbatim>\<open>security/rbac.go\<close>, \<^verbatim>\<open>security/abac.go\<close>, \<^verbatim>\<open>security/authorized_store.go\<close>): the authorizers by key prefix, whose common
    contract is a locale interpreted on each of them, and the store that consults them. The lemmas show that what a
    request reads or changes is confined to what its principal may access, and which operation escapes the check.
  \<^item> \<open>Api_Access\<close> (\<^verbatim>\<open>security/scope.go\<close>, \<^verbatim>\<open>principal.go\<close>, \<^verbatim>\<open>condition.go\<close>, \<^verbatim>\<open>api_authorizer.go\<close>, \<^verbatim>\<open>fact_authorizer.go\<close>,
    \<^verbatim>\<open>controllers/auth.go\<close>): capabilities at scopes, conditional policies, and the controller that parses them from facts.
    The lemmas show that after a cycle the authorizer allows exactly what the facts say, and when a cycle returns.
  \<^item> This theory: the scheduler under the runner.

  \<^bold>\<open>Conventions.\<close> A Go string or byte slice is a \<open>string\<close>; a struct is a record; an error is a value of a sum type; a map
  that is only looked up is a function, a map that is ranged over is an association list whose order is arbitrary. Where
  Go leaves an order open (an unstable sort, ranging over a map) the order is an argument and the theorems hold for
  every choice. Loops are recursive functions with termination proofs; the one loop that may run forever, over the condition
  indices of a policy, is a partial function whose value is then \<open>None\<close>; no fuel is used. The reachable
  states of the concurrent parts are inductive predicates over step relations.

  \<^bold>\<open>Findings.\<close> Some theorems state what the code does where this differs from its documentation or its intent; their
  texts say so.

  \<^bold>\<open>Not modelled.\<close> The command line, the node agent, the container runtimes, the storage and cloud
  providers and the chaos harness are adapters to the outside world. The HTTP server, the configuration
  language, the network data planes, tenancy, network policies and the remaining controllers are parts
  of their own that the modelled ones do not call; they are left for later. Authentication, certificates, key
  management and tokens rest on cryptographic libraries and remote services. Of the modelled files,
  goroutine and timer plumbing, contexts, metrics and logging are left out, and the key functions of \<^verbatim>\<open>types/keys.go\<close>
  are modelled only as far as the modelled parts use them.
\<close>

section \<open>The scheduler under the runner\<close>

lemma placement_domain:
  "isKeyWithinWriteDomain (KeyPlacementInstance i) [''placement/'', ''derived/scheduler/unplaced/'', ''derived/instance/'']"
  "isKeyWithinWriteDomain (KeyPlacementNodeInstance n i) [''placement/'', ''derived/scheduler/unplaced/'', ''derived/instance/'']"
  "isKeyWithinWriteDomain (KeyDerivedInstanceControllerStopped i) [''placement/'', ''derived/scheduler/unplaced/'', ''derived/instance/'']"
  "isKeyWithinWriteDomain (KeyDerivedSchedulerUnplacedReason i) [''placement/'', ''derived/scheduler/unplaced/'', ''derived/instance/'']"
  "isKeyWithinWriteDomain (KeyDerivedSchedulerUnplacedRequirements i) [''placement/'', ''derived/scheduler/unplaced/'', ''derived/instance/'']"
  by (simp_all add: key_defs)

lemma changesOf_keys: "c \<in> set (changesOf ps) \<Longrightarrow>
    (\<exists>i n. chKey c = KeyPlacementInstance i \<or> chKey c = KeyPlacementNodeInstance n i) \<and> chGroup c \<noteq> []"
  by (auto simp: changesOf_def placementChanges_def) blast+

lemma preempt_keys: "c \<in> set (attemptPreemptions u pl nodes instances p ks pr sf) \<Longrightarrow>
    \<exists>i. chKey c = KeyDerivedInstanceControllerStopped i"
  by (auto simp: attemptPreemptions_def Let_def)

lemma emit_keys: "c \<in> set (emitUnplacedDemandFacts marshal u pl nodes instances res ks) \<Longrightarrow>
    \<exists>i. chKey c = KeyDerivedSchedulerUnplacedReason i \<or> chKey c = KeyDerivedSchedulerUnplacedRequirements i"
  by (auto simp: emitUnplacedDemandFacts_def buildUnplacedFactChanges_def Let_def)

lemma cleanup_keys: "c \<in> set (cleanupStaleUnplacedFacts fs p pl) \<Longrightarrow>
    \<exists>i. chKey c = KeyDerivedSchedulerUnplacedReason i \<or> chKey c = KeyDerivedSchedulerUnplacedRequirements i"
  by (auto simp: cleanupStaleUnplacedFacts_def)

lemma rebalance_keys: "c \<in> set (rebalancePlacedInstances slice nodes instances p res ks g pl pinned) \<Longrightarrow>
    (\<exists>i n. chKey c = KeyPlacementInstance i \<or> chKey c = KeyPlacementNodeInstance n i) \<and> chGroup c \<noteq> []"
  by (auto simp: rebalancePlacedInstances_def buildRebalanceMoveChanges_def Let_def split: option.splits) blast+

lemma Reconcile_keys:
  assumes "Reconcile now marshal slice fs sched = (cs, sched')" and "c \<in> set cs"
  shows "(\<exists>i n. chKey c = KeyPlacementInstance i \<or> chKey c = KeyPlacementNodeInstance n i) \<and> chGroup c \<noteq> [] \<or>
    (\<exists>i. chKey c = KeyDerivedInstanceControllerStopped i \<or> chKey c = KeyDerivedSchedulerUnplacedReason i \<or>
         chKey c = KeyDerivedSchedulerUnplacedRequirements i)"
proof -
  obtain cs0 pl pre emit cln reb u instances ps res ks g where
    cs: "cs = cs0 @ pre @ emit @ cln @ reb" and parts: "cs0 = changesOf ps"
    "pre = attemptPreemptions u pl (extractNodeInfoFromFacts fs) instances (extractPlacementsFromFacts fs) ks
       (extractServicePriorities fs) (extractStatefulServices fs)"
    "emit = emitUnplacedDemandFacts marshal u pl (extractNodeInfoFromFacts fs) instances res ks"
    "cln = cleanupStaleUnplacedFacts fs (extractPlacementsFromFacts fs) pl"
    "reb = rebalancePlacedInstances slice (extractNodeInfoFromFacts fs) instances (extractPlacementsFromFacts fs) res ks g pl
       (extractRebalancePinnedServices fs (extractStatefulServices fs))"
    by (rule Reconcile_parts [OF assms(1)])
  from assms(2) consider "c \<in> set cs0" | "c \<in> set pre" | "c \<in> set emit" | "c \<in> set cln" | "c \<in> set reb"
    unfolding cs set_append by blast
  then show ?thesis
  proof cases
    case 1
    then show ?thesis unfolding parts(1) using changesOf_keys by blast
  next
    case 2
    then show ?thesis unfolding parts(2) using preempt_keys by blast
  next
    case 3
    then show ?thesis unfolding parts(3) using emit_keys by blast
  next
    case 4
    then show ?thesis unfolding parts(4) using cleanup_keys by blast
  next
    case 5
    then show ?thesis unfolding parts(5) using rebalance_keys by blast
  qed
qed

text \<open>C21. The scheduler respects its write domain: whatever the facts, the runner drops none of the
  changes of a scheduler cycle.\<close>

theorem scheduler_within_write_domain:
  "enforceWriteDomain ''scheduler'' (fst (Reconcile now marshal slice fs sched)) = fst (Reconcile now marshal slice fs sched)"
proof -
  obtain cs s' where run: "Reconcile now marshal slice fs sched = (cs, s')" by (metis prod.exhaust)
  have dom: "isKeyWithinWriteDomain (chKey c) [''placement/'', ''derived/scheduler/unplaced/'', ''derived/instance/'']" if "c \<in> set cs" for c
    using Reconcile_keys [OF run that] placement_domain by metis
  have out: "controllerOutputPrefixes ''scheduler'' = Some [''placement/'', ''derived/scheduler/unplaced/'', ''derived/instance/'']"
    by (simp add: controllerOutputPrefixes_def)
  show ?thesis unfolding run fst_conv enforceWriteDomain_def out option.case filter_id_conv using dom by blast
qed

lemma emit_ungrouped:
  "length (filter (\<lambda>c. chGroup c = []) (emitUnplacedDemandFacts marshal u pl nodes instances res ks)) =
     2 * length (filter (\<lambda>i. i \<notin> set pl) u)"
  unfolding emitUnplacedDemandFacts_def by (induction u) (auto simp: buildUnplacedFactChanges_def Let_def)

lemma unplaced_reported:
  assumes "Reconcile now marshal slice fs sched = (cs, sched')"
    and "u = findUnplacedPendingInstances
           (markInstancesStillStarting (extractInstanceInfoFromFacts fs) (extractServicesWithStartupProbe fs))
           (extractPlacementsFromFacts fs)"
  shows "2 * length (filter (\<lambda>i. KeyPlacementInstance i \<notin> putKeys cs) u) \<le> length (filter (\<lambda>c. chGroup c = []) cs)"
proof -
  obtain cs0 pl pre emit cln reb u' instances ps res ks g where
    cs: "cs = cs0 @ pre @ emit @ cln @ reb" and pl: "pl = collectPlacedInstanceIDs cs0"
    and inst: "instances = markInstancesStillStarting (extractInstanceInfoFromFacts fs) (extractServicesWithStartupProbe fs)"
    and u: "u' = findUnplacedPendingInstances instances (extractPlacementsFromFacts fs)"
    and emit: "emit = emitUnplacedDemandFacts marshal u' pl (extractNodeInfoFromFacts fs) instances res ks"
    by (rule Reconcile_parts [OF assms(1)])
  have uu: "u' = u" by (simp add: u inst assms(2))
  have "i \<notin> set pl" if "KeyPlacementInstance i \<notin> putKeys cs" for i
    using that unfolding pl collectPlaced_iff cs by simp
  then have "length (filter (\<lambda>i. KeyPlacementInstance i \<notin> putKeys cs) u) \<le> length (filter (\<lambda>i. i \<notin> set pl) u)"
    by (induction u) auto
  moreover have "length (filter (\<lambda>c. chGroup c = []) emit) \<le> length (filter (\<lambda>c. chGroup c = []) cs)" by (simp add: cs)
  ultimately show ?thesis unfolding emit emit_ungrouped uu by linarith
qed

text \<open>C22. Unplaced demand can starve placement. A cycle reports every instance that it cannot place with
  two ungrouped changes, and the runner commits ungrouped changes before any group. When a cycle
  leaves thirty pending instances unplaced and places or moves another, whatever the runner commits of
  the cycle (it may also reject the whole of it) contains no placement at all; nothing in the store keeps the next cycle from being the same.\<close>

theorem unplaced_demand_starves_placement:
  assumes "Reconcile now marshal slice fs sched = (cs, sched')"
    and "30 \<le> length (filter (\<lambda>i. KeyPlacementInstance i \<notin> putKeys cs) (findUnplacedPendingInstances
           (markInstancesStillStarting (extractInstanceInfoFromFacts fs) (extractServicesWithStartupProbe fs))
           (extractPlacementsFromFacts fs)))"
    and "KeyPlacementInstance j \<in> putKeys cs"
  shows "\<forall>sel. validateAndCapChanges ''scheduler'' cs = Inr sel \<longrightarrow> (\<forall>k. KeyPlacementInstance k \<notin> putKeys sel)"
proof (intro allI impI)
  fix sel k
  assume sel: "validateAndCapChanges ''scheduler'' cs = Inr sel"
  have un: "maxTransactionChanges \<le> length (filter (\<lambda>c. chGroup c = []) cs)"
    using unplaced_reported [OF assms(1) refl] assms(2) by (simp add: maxTransactionChanges_def)
  from assms(3) obtain d where d: "d \<in> set cs" "chKey d = KeyPlacementInstance j" by (auto simp: putKeys_def)
  then have "chGroup d \<noteq> []" using Reconcile_keys [OF assms(1) d(1)] placement_keys by metis
  then have "d \<in> set (filter (\<lambda>c. chGroup c \<noteq> []) cs)" using d(1) by simp
  then have "0 < length (filter (\<lambda>c. chGroup c \<noteq> []) cs)" by (rule length_pos_if_in_set)
  then have "maxTransactionChanges < length cs" using un sum_length_filter_compl [of "\<lambda>c. chGroup c = []" cs] by linarith
  note ung = ungrouped_fill_budget [OF sel un this]
  from validateAndCap_spec [OF sel] obtain def where "sortChangesByGroupAndKey cs = sel @ def" by blast
  then have sub: "set sel \<subseteq> set cs" by (metis mset_sortChanges(3) set_append sup_ge1)
  show "KeyPlacementInstance k \<notin> putKeys sel"
  proof
    assume "KeyPlacementInstance k \<in> putKeys sel"
    then obtain c where c: "c \<in> set sel" "chKey c = KeyPlacementInstance k" by (auto simp: putKeys_def)
    have "chGroup c \<noteq> []" using Reconcile_keys [OF assms(1), of c] sub c placement_keys by (metis subsetD)
    with ung c(1) show False by blast
  qed
qed

definition starvedFacts :: "Fact list" where
  "starvedFacts =
     [exampleFact ''desired/service/x/resources/cpu'' ''9''] @
     concat (map (\<lambda>c. [exampleFact (''observed/instance/'' @ [c] @ ''/service'') (if c = CHR ''Z'' then ''y'' else ''x''),
                        exampleFact (''observed/instance/'' @ [c] @ ''/state'') ''pending''])
       ''ABCDEZbcdefghijklmnopqrstuvwxyz'') @
     [exampleFact ''observed/node/n/available/cpu'' ''1'', exampleFact ''observed/node/n/state'' ''alive'']"

definition placesInstance :: "string \<Rightarrow> Change \<Rightarrow> bool" where
  "placesInstance i c \<longleftrightarrow> chType c = OpPut \<and> chKey c = KeyPlacementInstance i"

lemma placesInstance_iff: "list_ex (placesInstance i) cs \<longleftrightarrow> KeyPlacementInstance i \<in> putKeys cs"
  by (auto simp: placesInstance_def putKeys_def list_ex_iff image_iff)

theorem unplaced_demand_starves_placement_witness:
  "\<exists>cs s. Reconcile 0 (\<lambda>_. Some ''{}'') (\<lambda>r xs. xs) starvedFacts (SetPlacementGracePeriod 0 NewScheduler) = (cs, s) \<and>
     KeyPlacementInstance ''Z'' \<in> putKeys cs \<and>
     (\<forall>sel. validateAndCapChanges ''scheduler'' cs = Inr sel \<longrightarrow> KeyPlacementInstance ''Z'' \<notin> putKeys sel)"
proof -
  let ?r = "Reconcile 0 (\<lambda>_. Some ''{}'') (\<lambda>r xs. xs) starvedFacts (SetPlacementGracePeriod 0 NewScheduler)"
  let ?u = "findUnplacedPendingInstances
    (markInstancesStillStarting (extractInstanceInfoFromFacts starvedFacts) (extractServicesWithStartupProbe starvedFacts))
    (extractPlacementsFromFacts starvedFacts)"
  have "case ?r of (cs, s) \<Rightarrow> list_ex (placesInstance ''Z'') cs \<and>
      30 \<le> length (filter (\<lambda>i. \<not> list_ex (placesInstance i) cs) ?u)" by code_simp
  then obtain cs s where r: "?r = (cs, s)" and z: "KeyPlacementInstance ''Z'' \<in> putKeys cs"
    and u: "30 \<le> length (filter (\<lambda>i. KeyPlacementInstance i \<notin> putKeys cs) ?u)"
    unfolding placesInstance_iff by (auto split: prod.splits)
  show ?thesis using unplaced_demand_starves_placement [OF r u z] r z by blast
qed

end
